(* ===== verification/Go_Prelude.thy ===== *)
theory Go_Prelude
  imports Main "HOL-Library.Word" "HOL-Library.AList"
begin

text \<open>
  Shared ground of the development: Go's byte strings, the errors the two archive packages
  return, 64-bit signed arithmetic with its wrap-around written out, slices of a byte buffer
  and the overwriting of a slice in place, and the named collections of rewrite rules that the
  component theories extend.

  A Go \<^verbatim>\<open>string\<close> and a Go \<^verbatim>\<open>[]byte\<close> are both sequences of bytes and
  both are modelled by a list of 8-bit words; a literal is written \<open>str ''...''\<close>. A Go
  \<^verbatim>\<open>int64\<close> (and \<^verbatim>\<open>int\<close>, which has 64 bits on the platforms considered)
  is a HOL integer whose arithmetic is followed by \<open>i64\<close> wherever the Go expression can
  leave the range. Unsigned integers of a fixed width are words.
\<close>

unbundle bit_operations_syntax

named_theorems go_simps "evaluation rules for the modelled Go library"
named_theorems slice_simps "reading and overwriting slices of a buffer"

type_synonym byte = "8 word"
type_synonym gostring = "byte list"

definition str :: "string \<Rightarrow> gostring" where
  "str s = map of_char s"

lemma str_simps [simp]:
  "str [] = []" "str (c # cs) = of_char c # str cs" "str (cs @ ds) = str cs @ str ds"
  "length (str cs) = length cs"
  by (simp_all add: str_def)

section \<open>Errors\<close>

text \<open>
  The error values of the packages and of the library code they call. \<open>IOError\<close> stands
  for an error of the caller's reader or writer, \<open>Panic\<close> for a run-time panic (the Go code
  has no result then), \<open>NoProgress\<close> for a library loop over a reader or writer that breaks
  the io contract by returning neither data nor an error.
\<close>

datatype go_error =
    EOF | ErrUnexpectedEOF | ErrShortWrite
  | ErrHeader | ErrWriteTooLong | ErrFieldTooLong | ErrWriteAfterClose | ErrInvalidHeader
  | ErrMissedWriting int
  | ErrFormat | ErrAlgorithm | ErrChecksum
  | ErrMsg string
  | IOError nat
  | Panic string
  | NoProgress

type_synonym 'a result = "go_error + 'a"

section \<open>64-bit signed integers\<close>

definition i64 :: "int \<Rightarrow> int" where
  "i64 x = (x + 9223372036854775808) mod 18446744073709551616 - 9223372036854775808"

definition in_i64 :: "int \<Rightarrow> bool" where
  "in_i64 x \<longleftrightarrow> - 9223372036854775808 \<le> x \<and> x < 9223372036854775808"

lemma i64_id [simp]: "in_i64 x \<Longrightarrow> i64 x = x"
  by (simp add: i64_def in_i64_def)

lemma i64_range [simp]: "in_i64 (i64 x)"
proof -
  have "0 \<le> (x + 9223372036854775808) mod 18446744073709551616"
    and "(x + 9223372036854775808) mod 18446744073709551616 < 18446744073709551616"
    by simp_all
  then show ?thesis unfolding i64_def in_i64_def by linarith
qed

lemma i64_idem [simp]: "i64 (i64 x) = i64 x"
  by simp

lemma in_i64_nat: "0 \<le> x \<Longrightarrow> x < 9223372036854775808 \<Longrightarrow> in_i64 x"
  by (simp add: in_i64_def)

lemma sint64_i64: "sint (word_of_int x :: 64 word) = i64 x"
proof -
  have "sint (word_of_int x :: 64 word) = signed_take_bit 63 x"
    by (simp add: signed_of_int)
  also have "\<dots> = take_bit 64 (x + 2 ^ 63) - 2 ^ 63"
    by (simp add: signed_take_bit_eq_take_bit_shift)
  finally show ?thesis
    by (simp add: i64_def take_bit_eq_mod)
qed

lemma in_i64_sint [simp]: "in_i64 (sint (w :: 64 word))"
  using i64_range [of "sint w"] unfolding sint64_i64 [symmetric] by simp

text \<open>Go's \<^verbatim>\<open>%\<close> for a positive right operand: the sign is that of the left one.\<close>

definition go_rem :: "int \<Rightarrow> int \<Rightarrow> int" where
  "go_rem a b = (if a < 0 then - ((- a) mod b) else a mod b)"

section \<open>Slices\<close>

text \<open>
  \<open>bslice b off n\<close> is Go's \<^verbatim>\<open>b[off:][:n]\<close> for a buffer long enough, and
  \<open>bstore b off xs\<close> the buffer after the bytes \<open>xs\<close> have been stored in it from
  \<open>off\<close> on; \<open>copy_into b xs\<close> is the built-in \<^verbatim>\<open>copy(b, xs)\<close>.
\<close>

definition bslice :: "'a list \<Rightarrow> nat \<Rightarrow> nat \<Rightarrow> 'a list" where
  "bslice b off n = take n (drop off b)"

definition bstore :: "'a list \<Rightarrow> nat \<Rightarrow> 'a list \<Rightarrow> 'a list" where
  "bstore b off xs = take off b @ xs @ drop (off + length xs) b"

definition copy_into :: "'a list \<Rightarrow> 'a list \<Rightarrow> 'a list" where
  "copy_into b xs = take (length b) xs @ drop (length xs) b"

lemma length_bslice [slice_simps]: "off + n \<le> length b \<Longrightarrow> length (bslice b off n) = n"
  by (simp add: bslice_def)

lemma length_bstore [slice_simps]:
  "off + length xs \<le> length b \<Longrightarrow> length (bstore b off xs) = length b"
  by (simp add: bstore_def)

lemma length_copy_into [simp]: "length (copy_into b xs) = length b"
  by (simp add: copy_into_def)

lemma bslice_bstore_same [slice_simps]:
  "off + length xs \<le> length b \<Longrightarrow> n = length xs \<Longrightarrow> bslice (bstore b off xs) off n = xs"
  by (simp add: bslice_def bstore_def)

lemma nth_bstore:
  assumes "off + length xs \<le> length b" and "i < length b"
  shows "bstore b off xs ! i = (if off \<le> i \<and> i < off + length xs then xs ! (i - off) else b ! i)"
  using assms by (auto simp: bstore_def nth_append min_def)

lemma bslice_bstore_other [slice_simps]:
  assumes "off + length xs \<le> length b" and "i + n \<le> off \<or> off + length xs \<le> i"
    and "i + n \<le> length b"
  shows "bslice (bstore b off xs) i n = bslice b i n"
proof (rule nth_equalityI)
  show "length (bslice (bstore b off xs) i n) = length (bslice b i n)"
    using assms by (simp add: bslice_def length_bstore)
next
  fix j assume "j < length (bslice (bstore b off xs) i n)"
  then have j: "j < n" by (simp add: bslice_def)
  then show "bslice (bstore b off xs) i n ! j = bslice b i n ! j"
    using assms by (auto simp: bslice_def length_bstore nth_bstore)
qed

lemma bslice_replicate [slice_simps]: "i + n \<le> m \<Longrightarrow> bslice (replicate m x) i n = replicate n x"
  by (simp add: bslice_def)

section \<open>Lists\<close>

lemma takeWhile_append_stop:
  "\<forall>x \<in> set xs. P x \<Longrightarrow> ys = [] \<or> \<not> P (hd ys) \<Longrightarrow> takeWhile P (xs @ ys) = xs"
  by (cases ys) auto

lemma dropWhile_append_stop:
  "\<forall>x \<in> set xs. P x \<Longrightarrow> ys = [] \<or> \<not> P (hd ys) \<Longrightarrow> dropWhile P (xs @ ys) = ys"
  by (cases ys) auto

lemma byte_less_256: "unat (b :: byte) < 256"
  using unsigned_less [of b] by simp

lemma u64_less: "unat (w :: 64 word) < 2 ^ 64"
  using unsigned_less [of w] by simp

lemma byte_top_bit: "(c :: byte) AND 128 = 0 \<longleftrightarrow> unat c < 128"
proof -
  have p: "(128 :: byte) = 2 ^ 7" by simp
  have "bit c 7 \<longleftrightarrow> 128 \<le> unat c"
  proof -
    have "unat c div 128 = 0 \<or> unat c div 128 = 1" using byte_less_256 [of c] by auto
    moreover have "bit c 7 \<longleftrightarrow> odd (unat c div 128)"
      using bit_unsigned_iff [of c 7, where ?'a = nat] by (simp add: bit_iff_odd)
    ultimately show ?thesis by (auto simp: div_eq_0_iff)
  qed
  moreover have "c AND 2 ^ 7 = 0 \<longleftrightarrow> \<not> bit c 7"
    by (rule and_exp_eq_0_iff_not_bit)
  ultimately show ?thesis unfolding p by auto
qed

end
