(* ===== verification/Go_Strconv.thy ===== *)
theory Go_Strconv
  imports Go_Prelude
begin

text \<open>
  The parts of Go's \<^verbatim>\<open>strconv\<close>, \<^verbatim>\<open>strings\<close> and
  \<^verbatim>\<open>bytes\<close> packages that the archive code calls: number printing and parsing in
  bases 8 and 10 with their syntax and range errors, searching, trimming, splitting, joining.
  The main fact is that a printed number is read back.
\<close>

section \<open>Printing and parsing numbers\<close>

fun digits_of :: "nat \<Rightarrow> nat \<Rightarrow> nat list" where
  "digits_of base n = (if base < 2 \<or> n < base then [n] else digits_of base (n div base) @ [n mod base])"

declare digits_of.simps [simp del]

definition digit_char :: "nat \<Rightarrow> byte" where
  "digit_char d = of_nat (48 + d)"

definition FormatUint :: "nat \<Rightarrow> nat \<Rightarrow> gostring" where
  "FormatUint base n = map digit_char (digits_of base n)"

text \<open>\<open>FormatInt base x\<close> is \<^verbatim>\<open>strconv.FormatInt(x, base)\<close> for a base of at most ten.\<close>

definition FormatInt :: "nat \<Rightarrow> int \<Rightarrow> gostring" where
  "FormatInt base x = (if x < 0 then 45 # FormatUint base (nat (- x)) else FormatUint base (nat x))"

datatype num_error = ErrSyntax | ErrRange

definition digit_val :: "byte \<Rightarrow> nat option" where
  "digit_val c =
     (if 48 \<le> c \<and> c \<le> 57 then Some (unat c - 48)
      else let l = c OR 32 in
        if 97 \<le> l \<and> l \<le> 122 then Some (unat l - 97 + 10) else None)"

text \<open>
  The digit loop of \<^verbatim>\<open>strconv.ParseUint\<close>: a value is returned along with the
  error (0 for a syntax error, the largest value for a range error), as the Go code does.
\<close>

fun parse_digits :: "nat \<Rightarrow> nat \<Rightarrow> nat \<Rightarrow> gostring \<Rightarrow> nat \<times> num_error option" where
  "parse_digits base mx n [] = (n, None)"
| "parse_digits base mx n (c # cs) =
     (case digit_val c of
        None \<Rightarrow> (0, Some ErrSyntax)
      | Some d \<Rightarrow>
          if base \<le> d then (0, Some ErrSyntax)
          else if (18446744073709551615 div base) + 1 \<le> n then (mx, Some ErrRange)
          else if mx < n * base + d then (mx, Some ErrRange)
          else parse_digits base mx (n * base + d) cs)"

definition ParseUint :: "gostring \<Rightarrow> nat \<Rightarrow> nat \<times> num_error option" where
  "ParseUint s base =
     (if s = [] then (0, Some ErrSyntax) else parse_digits base 18446744073709551615 0 s)"

text \<open>\<^verbatim>\<open>strconv.ParseInt(s, base, 64)\<close>, which is also the call with bit size 0.\<close>

definition ParseInt :: "gostring \<Rightarrow> nat \<Rightarrow> int \<times> num_error option" where
  "ParseInt s base =
     (if s = [] then (0, Some ErrSyntax)
      else
        let neg = (hd s = 45);
            s' = (if hd s = 43 \<or> hd s = 45 then tl s else s);
            (un, e) = ParseUint s' base
        in if e = Some ErrSyntax then (0, Some ErrSyntax)
           else if \<not> neg \<and> 9223372036854775808 \<le> un then (9223372036854775807, Some ErrRange)
           else if neg \<and> 9223372036854775808 < un then (- 9223372036854775808, Some ErrRange)
           else (if neg then - int un else int un, None))"

section \<open>Strings\<close>

text \<open>\<open>IndexByte\<close> gives \<open>None\<close> where Go gives -1.\<close>

definition IndexByte :: "gostring \<Rightarrow> byte \<Rightarrow> nat option" where
  "IndexByte s c = (let n = length (takeWhile (\<lambda>b. b \<noteq> c) s) in if n < length s then Some n else None)"

definition LastIndexByte :: "gostring \<Rightarrow> byte \<Rightarrow> nat option" where
  "LastIndexByte s c = (case IndexByte (rev s) c of None \<Rightarrow> None | Some n \<Rightarrow> Some (length s - 1 - n))"

definition Trim :: "gostring \<Rightarrow> byte set \<Rightarrow> gostring" where
  "Trim s cs = rev (dropWhile (\<lambda>b. b \<in> cs) (rev (dropWhile (\<lambda>b. b \<in> cs) s)))"

definition HasPrefix :: "gostring \<Rightarrow> gostring \<Rightarrow> bool" where
  "HasPrefix s p \<longleftrightarrow> take (length p) s = p"

fun Split :: "gostring \<Rightarrow> byte \<Rightarrow> gostring list" where
  "Split [] c = [[]]"
| "Split (b # bs) c =
     (if b = c then [] # Split bs c
      else case Split bs c of [] \<Rightarrow> [[b]] | w # ws \<Rightarrow> (b # w) # ws)"

fun Join :: "gostring list \<Rightarrow> byte \<Rightarrow> gostring" where
  "Join [] c = []"
| "Join [w] c = w"
| "Join (w # v # ws) c = w @ c # Join (v # ws) c"

section \<open>Facts\<close>

lemma digits_of_nonempty [simp]: "digits_of base n \<noteq> []"
  by (subst digits_of.simps) simp

lemma digits_of_less: "2 \<le> base \<Longrightarrow> d \<in> set (digits_of base n) \<Longrightarrow> d < base"
proof (induction base n rule: digits_of.induct)
  case (1 base n)
  then show ?case
    by (cases "n < base") (auto simp: digits_of.simps [of base n])
qed

definition num_value :: "nat \<Rightarrow> nat \<Rightarrow> nat list \<Rightarrow> nat" where
  "num_value base n ds = foldl (\<lambda>v d. v * base + d) n ds"

lemma num_value_simps [simp]:
  "num_value base n [] = n"
  "num_value base n (d # ds) = num_value base (n * base + d) ds"
  "num_value base n (ds @ es) = num_value base (num_value base n ds) es"
  by (simp_all add: num_value_def)

lemma num_value_digits_of: "2 \<le> base \<Longrightarrow> num_value base 0 (digits_of base n) = n"
proof (induction base n rule: digits_of.induct)
  case (1 base n)
  then show ?case
    by (cases "n < base") (auto simp: digits_of.simps [of base n])
qed

lemma num_value_mono: "1 \<le> base \<Longrightarrow> n \<le> num_value base n ds"
proof (induction ds arbitrary: n)
  case Nil
  then show ?case by simp
next
  case (Cons d ds)
  have "n \<le> n * base + d" using Cons.prems by (metis mult.right_neutral mult_le_mono2 trans_le_add1)
  also have "\<dots> \<le> num_value base (n * base + d) ds" by (rule Cons.IH [OF Cons.prems])
  finally show ?case by simp
qed

lemma unat_digit_char: "d < 10 \<Longrightarrow> unat (digit_char d) = 48 + d"
  by (simp add: digit_char_def unat_of_nat del: of_nat_add)

lemma digit_val_char [simp]: "d < 10 \<Longrightarrow> digit_val (digit_char d) = Some d"
  by (simp add: digit_val_def word_le_nat_alt unat_digit_char)

lemma digit_char_neq: "d < 10 \<Longrightarrow> unat c < 48 \<or> 57 < unat c \<Longrightarrow> digit_char d \<noteq> c"
  using unat_digit_char [of d] by auto

lemma parse_digits_value:
  assumes "2 \<le> base" "base \<le> 10" "\<forall>d \<in> set ds. d < base"
    and "num_value base n ds \<le> mx" "mx \<le> 18446744073709551615"
  shows "parse_digits base mx n (map digit_char ds) = (num_value base n ds, None)"
  using assms
proof (induction ds arbitrary: n)
  case Nil
  then show ?case by simp
next
  case (Cons d ds)
  have d: "d < base" "d < 10" using Cons.prems by auto
  have le: "n * base + d \<le> mx"
    using num_value_mono [of base "n * base + d" ds] Cons.prems by simp
  then have "n \<le> 18446744073709551615 div base"
    using Cons.prems by (simp add: less_eq_div_iff_mult_less_eq)
  then show ?case
    using Cons.IH [of "n * base + d"] Cons.prems d le by simp
qed

lemma FormatUint_nonempty [simp]: "FormatUint base n \<noteq> []"
  by (simp add: FormatUint_def)

lemma FormatUint_digits:
  "2 \<le> base \<Longrightarrow> base \<le> 10 \<Longrightarrow> c \<in> set (FormatUint base n) \<Longrightarrow> 48 \<le> unat c \<and> unat c \<le> 57"
  using digits_of_less [of base _ n] by (fastforce simp: FormatUint_def unat_digit_char)

lemma FormatUint_not_in:
  "2 \<le> base \<Longrightarrow> base \<le> 10 \<Longrightarrow> unat c < 48 \<or> 57 < unat c \<Longrightarrow> c \<notin> set (FormatUint base n)"
  using FormatUint_digits by fastforce

lemma parse_digits_zeros:
  "2 \<le> base \<Longrightarrow> parse_digits base mx 0 (replicate k 48 @ cs) = parse_digits base mx 0 cs"
  by (induction k) (simp_all add: digit_val_def)

theorem ParseUint_FormatUint:
  assumes "2 \<le> base" "base \<le> 10" "n \<le> 18446744073709551615"
  shows "ParseUint (replicate k 48 @ FormatUint base n) base = (n, None)"
proof -
  have "parse_digits base 18446744073709551615 0 (FormatUint base n) = (n, None)"
    unfolding FormatUint_def
    using parse_digits_value [of base "digits_of base n" 0 18446744073709551615] assms
    by (simp add: num_value_digits_of digits_of_less)
  then show ?thesis
    using assms by (simp add: ParseUint_def parse_digits_zeros)
qed

lemma hd_FormatUint_digit:
  "2 \<le> base \<Longrightarrow> base \<le> 10 \<Longrightarrow> hd (FormatUint base n) \<noteq> 45 \<and> hd (FormatUint base n) \<noteq> 43"
  using FormatUint_digits [of base "hd (FormatUint base n)" n] by auto

theorem ParseInt_FormatInt:
  assumes "2 \<le> base" "base \<le> 10" "in_i64 x"
  shows "ParseInt (FormatInt base x) base = (x, None)"
proof (cases "x < 0")
  case True
  then show ?thesis
    using ParseUint_FormatUint [of base "nat (- x)" 0] assms
    by (simp add: ParseInt_def FormatInt_def in_i64_def)
next
  case False
  then show ?thesis
    using ParseUint_FormatUint [of base "nat x" 0] hd_FormatUint_digit [of base "nat x"] assms
    by (simp add: ParseInt_def FormatInt_def in_i64_def)
qed

text \<open>The number of digits of a number bounds it, and conversely.\<close>

lemma length_digits_of_le:
  assumes "2 \<le> base" "n < base ^ k" "0 < k"
  shows "length (digits_of base n) \<le> k"
  using assms
proof (induction k arbitrary: n)
  case 0
  then show ?case by simp
next
  case (Suc k)
  show ?case
  proof (cases "n < base")
    case True
    then show ?thesis by (simp add: digits_of.simps [of base n])
  next
    case False
    then have k: "0 < k" using Suc.prems by (cases k) auto
    have "n div base < base ^ k"
      using Suc.prems by (simp add: less_mult_imp_div_less mult.commute)
    then have "length (digits_of base (n div base)) \<le> k"
      using Suc.IH k Suc.prems by blast
    then show ?thesis using False Suc.prems by (simp add: digits_of.simps [of base n])
  qed
qed

lemma length_digits_of_mono:
  assumes "2 \<le> base" "m \<le> n"
  shows "length (digits_of base m) \<le> length (digits_of base n)"
  using assms
proof (induction base n arbitrary: m rule: digits_of.induct)
  case (1 base n)
  show ?case
  proof (cases "m < base")
    case True
    then show ?thesis
      using digits_of_nonempty [of base n]
      by (simp add: digits_of.simps [of base m] Suc_le_eq)
  next
    case False
    then have "\<not> n < base" using "1.prems" by simp
    moreover from this have "length (digits_of base (m div base)) \<le> length (digits_of base (n div base))"
      using "1.IH" "1.prems" by (simp add: div_le_mono)
    ultimately show ?thesis
      using False "1.prems" by (simp add: digits_of.simps [of base n] digits_of.simps [of base m])
  qed
qed

lemma less_power_length_digits_of:
  "2 \<le> base \<Longrightarrow> n < base ^ length (digits_of base n)"
proof (induction base n rule: digits_of.induct)
  case (1 base n)
  show ?case
  proof (cases "n < base")
    case True
    then show ?thesis by (simp add: digits_of.simps [of base n])
  next
    case False
    then have "n div base < base ^ length (digits_of base (n div base))"
      using "1" by simp
    then have "n < base ^ length (digits_of base (n div base)) * base"
      using "1.prems" by (simp add: div_less_iff_less_mult)
    then show ?thesis
      using False "1.prems" by (simp add: digits_of.simps [of base n] mult.commute)
  qed
qed

lemma length_FormatUint: "length (FormatUint base n) = length (digits_of base n)"
  by (simp add: FormatUint_def)

lemma FormatInt_of_nat: "FormatInt base (int n) = FormatUint base n"
  by (simp add: FormatInt_def)

lemma num_value_less:
  assumes "\<forall>d \<in> set ds. d < base"
  shows "num_value base n ds < Suc n * base ^ length ds"
  using assms
proof (induction ds arbitrary: n)
  case Nil
  then show ?case by simp
next
  case (Cons d ds)
  have "num_value base (n * base + d) ds < Suc (n * base + d) * base ^ length ds"
    using Cons by simp
  also have "\<dots> \<le> (Suc n * base) * base ^ length ds"
    using Cons.prems by (intro mult_le_mono1) auto
  finally show ?case by (simp add: algebra_simps)
qed

lemma ParseUint_digits:
  assumes "ds \<noteq> []" "\<forall>d \<in> set ds. d < 10" "length ds \<le> 19"
  shows "ParseUint (map digit_char ds) 10 = (num_value 10 0 ds, None)"
proof -
  have "num_value 10 0 ds < 10 ^ length ds" using num_value_less [of ds 10 0] assms(2) by simp
  also have "(10 :: nat) ^ length ds \<le> 10 ^ 19" using assms(3) by (intro power_increasing) auto
  finally show ?thesis using assms by (simp add: ParseUint_def parse_digits_value)
qed

lemma ParseInt_unsigned:
  assumes "s \<noteq> []" "hd s \<noteq> 43" "hd s \<noteq> 45" "ParseUint s base = (n, None)" "n < 2 ^ 63"
  shows "ParseInt s base = (int n, None)"
  using assms by (simp add: ParseInt_def)

lemma ParseInt_negative:
  assumes "ParseUint s base = (n, None)" "n \<le> 2 ^ 63"
  shows "ParseInt (45 # s) base = (- int n, None)"
  using assms by (simp add: ParseInt_def)

section \<open>Searching and trimming\<close>

lemma IndexByte_append: "c \<notin> set xs \<Longrightarrow> IndexByte (xs @ c # ys) c = Some (length xs)"
proof -
  assume "c \<notin> set xs"
  then have "takeWhile (\<lambda>b. b \<noteq> c) (xs @ c # ys) = xs" by (intro takeWhile_append_stop) auto
  then show ?thesis by (simp add: IndexByte_def)
qed

lemma IndexByte_Some:
  assumes "IndexByte s c = Some i"
  shows "s = take i s @ c # drop (Suc i) s" "c \<notin> set (take i s)" "i < length s"
proof -
  let ?t = "takeWhile (\<lambda>b. b \<noteq> c) s"
  have i: "i = length ?t" "length ?t < length s"
    using assms by (auto simp: IndexByte_def Let_def split: if_splits)
  then show lt: "i < length s" by simp
  have t: "take i s = ?t" using i(1) by (metis takeWhile_eq_take)
  then show "c \<notin> set (take i s)" by (metis (mono_tags, lifting) set_takeWhileD)
  have "s ! i = c" using nth_length_takeWhile [of "\<lambda>b. b \<noteq> c" s] i by simp
  then show "s = take i s @ c # drop (Suc i) s" using lt by (metis id_take_nth_drop)
qed

lemma Trim_padded:
  assumes "s \<noteq> []" "hd s \<notin> cs" "last s \<notin> cs" "set zs \<subseteq> cs"
  shows "Trim (s @ zs) cs = s"
proof -
  have "dropWhile (\<lambda>b. b \<in> cs) (s @ zs) = s @ zs" using assms(1,2) by (cases s) auto
  moreover have "dropWhile (\<lambda>b. b \<in> cs) (rev zs @ rev s) = rev s"
    using assms by (intro dropWhile_append_stop) (auto simp: hd_rev)
  ultimately show ?thesis by (simp add: Trim_def)
qed

lemma Trim_all: "set s \<subseteq> cs \<Longrightarrow> Trim s cs = []"
proof -
  assume "set s \<subseteq> cs"
  then have "dropWhile (\<lambda>b. b \<in> cs) s = []" by auto
  then show ?thesis unfolding Trim_def by (simp only: rev.simps dropWhile.simps)
qed

end
