(* ===== verification/Go_Utf8.thy ===== *)
theory Go_Utf8
  imports Go_Prelude
begin

text \<open>
  UTF-8 decoding as Go does it: \<open>DecodeRune\<close> is
  \<^verbatim>\<open>utf8.DecodeRuneInString\<close>, and \<open>runes\<close> the sequence of code points that
  a \<^verbatim>\<open>for _, c := range s\<close> loop over a string sees. An ill-formed byte yields
  \<open>RuneError\<close> and is one byte wide. The facts say how the decoder treats bytes below and
  above 0x80, which is what the ASCII filters of the tar package and the encoding test of the
  zip package rest on.
\<close>

definition RuneError :: nat where
  "RuneError = 65533"

text \<open>Number of bytes announced by the first byte, and the range accepted for the second.\<close>

definition lead_info :: "nat \<Rightarrow> (nat \<times> nat \<times> nat) option" where
  "lead_info b =
     (if 194 \<le> b \<and> b \<le> 223 then Some (2, 128, 191)
      else if b = 224 then Some (3, 160, 191)
      else if 225 \<le> b \<and> b \<le> 236 then Some (3, 128, 191)
      else if b = 237 then Some (3, 128, 159)
      else if 238 \<le> b \<and> b \<le> 239 then Some (3, 128, 191)
      else if b = 240 then Some (4, 144, 191)
      else if 241 \<le> b \<and> b \<le> 243 then Some (4, 128, 191)
      else if b = 244 then Some (4, 128, 143)
      else None)"

definition DecodeRune :: "gostring \<Rightarrow> nat \<times> nat" where
  "DecodeRune s =
     (if s = [] then (RuneError, 0)
      else
        let at = (\<lambda>i. unat (s ! i)); b0 = at 0; cont = (\<lambda>i. 128 \<le> at i \<and> at i \<le> 191)
        in if b0 < 128 then (b0, 1)
           else case lead_info b0 of
                  None \<Rightarrow> (RuneError, 1)
                | Some (sz, lo, hi) \<Rightarrow>
                    if length s < sz then (RuneError, 1)
                    else if at 1 < lo \<or> hi < at 1 then (RuneError, 1)
                    else if sz = 2 then ((b0 mod 32) * 64 + at 1 mod 64, 2)
                    else if \<not> cont 2 then (RuneError, 1)
                    else if sz = 3 then ((b0 mod 16) * 4096 + (at 1 mod 64) * 64 + at 2 mod 64, 3)
                    else if \<not> cont 3 then (RuneError, 1)
                    else ((b0 mod 8) * 262144 + (at 1 mod 64) * 4096 + (at 2 mod 64) * 64
                            + at 3 mod 64, 4))"

lemma lead_info_props:
  assumes "lead_info b = Some (sz, lo, hi)"
  shows "2 \<le> sz" "sz \<le> 4" "128 \<le> lo" "hi \<le> 191" "194 \<le> b" "b \<le> 244"
    and "sz = 2 \<Longrightarrow> b \<le> 223" and "sz = 3 \<Longrightarrow> 224 \<le> b \<and> b \<le> 239 \<and> (b = 224 \<longrightarrow> 160 \<le> lo)"
    and "sz = 4 \<Longrightarrow> 240 \<le> b \<and> (b = 240 \<longrightarrow> 144 \<le> lo)"
  using assms by (auto simp: lead_info_def split: if_splits)

text \<open>A rune below 0x80 is exactly its one byte; otherwise every byte consumed is at least 0x80.\<close>

lemma DecodeRune_ascii: "s \<noteq> [] \<Longrightarrow> unat (hd s) < 128 \<Longrightarrow> DecodeRune s = (unat (hd s), 1)"
  by (cases s) (simp_all add: DecodeRune_def)

lemma two_byte_rune:
  fixes b c :: nat
  assumes "194 \<le> b" "b \<le> 223"
  shows "128 \<le> (b mod 32) * 64 + c"
proof -
  have "b mod 32 = b - 192" using assms by (auto simp: mod_if)
  then show ?thesis using assms by simp
qed

lemma three_byte_rune:
  fixes b c d :: nat
  assumes "224 \<le> b" "b \<le> 239" "b = 224 \<longrightarrow> 160 \<le> c" "c \<le> 191"
  shows "128 \<le> (b mod 16) * 4096 + (c mod 64) * 64 + d"
proof (cases "b = 224")
  case True
  then have "c mod 64 = c - 128" using assms by (auto simp: mod_if)
  then show ?thesis using assms True by simp
next
  case False
  then have "b mod 16 = b - 224" using assms by (auto simp: mod_if)
  then show ?thesis using assms False by simp
qed

lemma four_byte_rune:
  fixes b c d e :: nat
  assumes "240 \<le> b" "b \<le> 244" "b = 240 \<longrightarrow> 144 \<le> c" "c \<le> 191"
  shows "128 \<le> (b mod 8) * 262144 + (c mod 64) * 4096 + d + e"
proof (cases "b = 240")
  case True
  then have "c mod 64 = c - 128" using assms by (auto simp: mod_if)
  then show ?thesis using assms True by simp
next
  case False
  then have "b mod 8 = b - 240" using assms by (auto simp: mod_if)
  then show ?thesis using assms False by simp
qed

lemma DecodeRune_high_cases:
  assumes ne: "s \<noteq> []" and hi: "128 \<le> unat (hd s)"
  obtains (invalid) "DecodeRune s = (RuneError, 1)"
  | (valid) r sz where "DecodeRune s = (r, sz)" "2 \<le> sz" "sz \<le> length s" "128 \<le> r"
      "\<forall>i < sz. 128 \<le> unat (s ! i)"
proof -
  let ?at = "\<lambda>i. unat (s ! i)"
  have b0: "\<not> ?at 0 < 128" "128 \<le> ?at 0" using ne hi by (simp_all add: hd_conv_nth)
  show thesis
  proof (cases "lead_info (?at 0)")
    case None
    then show ?thesis using ne b0 invalid by (simp add: DecodeRune_def)
  next
    case (Some t)
    then obtain sz lo hi where t: "lead_info (?at 0) = Some (sz, lo, hi)" by (cases t) auto
    note props = lead_info_props [OF t]
    show ?thesis
    proof (cases "length s < sz \<or> ?at 1 < lo \<or> hi < ?at 1 \<or>
        (3 \<le> sz \<and> \<not> (128 \<le> ?at 2 \<and> ?at 2 \<le> 191)) \<or> (sz = 4 \<and> \<not> (128 \<le> ?at 3 \<and> ?at 3 \<le> 191))")
      case True
      have "DecodeRune s = (RuneError, 1)"
        using True ne b0(1) t props(1,2) unfolding DecodeRune_def Let_def by auto
      then show ?thesis by (rule invalid)
    next
      case False
      have at1: "128 \<le> ?at 1" "?at 1 \<le> 191" using False props by auto
      have len: "sz \<le> length s" using False by linarith
      have "sz = 2 \<or> sz = 3 \<or> sz = 4" using props(1,2) by linarith
      then show ?thesis
      proof (elim disjE)
        assume sz: "sz = 2"
        have D: "DecodeRune s = ((?at 0 mod 32) * 64 + ?at 1 mod 64, 2)"
          using False ne b0(1) t sz by (simp add: DecodeRune_def)
        have "\<forall>i < (2::nat). 128 \<le> ?at i" using b0 at1 by (simp add: less_Suc_eq numeral_2_eq_2)
        moreover have "128 \<le> (?at 0 mod 32) * 64 + ?at 1 mod 64"
          using sz props by (intro two_byte_rune) auto
        ultimately show ?thesis using len sz by (intro valid [OF D]) auto
      next
        assume sz: "sz = 3"
        have D: "DecodeRune s = ((?at 0 mod 16) * 4096 + (?at 1 mod 64) * 64 + ?at 2 mod 64, 3)"
          using False ne b0(1) t sz by (simp add: DecodeRune_def)
        have "\<forall>i < (3::nat). 128 \<le> ?at i"
          using False sz b0 at1 by (simp add: less_Suc_eq numeral_3_eq_3 numeral_2_eq_2)
        moreover have "128 \<le> (?at 0 mod 16) * 4096 + (?at 1 mod 64) * 64 + ?at 2 mod 64"
          using sz at1 props False by (intro three_byte_rune) auto
        ultimately show ?thesis using len sz by (intro valid [OF D]) auto
      next
        assume sz: "sz = 4"
        have D: "DecodeRune s = ((?at 0 mod 8) * 262144 + (?at 1 mod 64) * 4096
            + (?at 2 mod 64) * 64 + ?at 3 mod 64, 4)"
          using False ne b0(1) t sz by (simp add: DecodeRune_def)
        have "\<forall>i < (4::nat). 128 \<le> ?at i"
          using False sz b0 at1 by (simp add: less_Suc_eq numeral_3_eq_3 numeral_2_eq_2 eval_nat_numeral)
        moreover have "128 \<le> (?at 0 mod 8) * 262144 + (?at 1 mod 64) * 4096
            + (?at 2 mod 64) * 64 + ?at 3 mod 64"
          using sz at1 props False by (intro four_byte_rune) auto
        ultimately show ?thesis using len sz by (intro valid [OF D]) auto
      qed
    qed
  qed
qed

lemma DecodeRune_size:
  assumes "s \<noteq> []"
  shows "0 < snd (DecodeRune s) \<and> snd (DecodeRune s) \<le> length s"
proof (cases "unat (hd s) < 128")
  case True
  then show ?thesis using assms by (simp add: DecodeRune_ascii Suc_le_eq)
next
  case False
  then have "128 \<le> unat (hd s)" by simp
  with assms show ?thesis
    by (rule DecodeRune_high_cases) (use assms in \<open>auto simp: Suc_le_eq\<close>)
qed

lemma DecodeRune_high_bytes:
  assumes "s \<noteq> []" "128 \<le> unat (hd s)" "i < snd (DecodeRune s)"
  shows "128 \<le> unat (s ! i)"
  using assms(1,2)
  by (rule DecodeRune_high_cases) (use assms in \<open>auto simp: hd_conv_nth\<close>)

lemma DecodeRune_high_rune:
  assumes "s \<noteq> []" "128 \<le> unat (hd s)"
  shows "128 \<le> fst (DecodeRune s)"
  using assms by (rule DecodeRune_high_cases) (auto simp: RuneError_def)

text \<open>The code points of a string, in order.\<close>

function runes :: "gostring \<Rightarrow> nat list" where
  "runes s = (if s = [] then [] else fst (DecodeRune s) # runes (drop (snd (DecodeRune s)) s))"
  by pat_completeness auto
termination
  by (relation "measure length") (auto dest: DecodeRune_size)

declare runes.simps [simp del]

lemma filter_runes_ascii:
  "filter (\<lambda>c. c < 128) (runes s) = map unat (filter (\<lambda>b. b < 128) s)"
proof (induction s rule: runes.induct)
  case (1 s)
  show ?case
  proof (cases "s = []")
    case True
    then show ?thesis by (simp add: runes.simps)
  next
    case ne: False
    define k where "k = snd (DecodeRune s)"
    have s: "s = take k s @ drop k s" by simp
    have IH: "filter (\<lambda>c. c < 128) (runes (drop k s)) = map unat (filter (\<lambda>b. b < 128) (drop k s))"
      unfolding k_def by (rule "1.IH" [OF ne])
    show ?thesis
    proof (cases "unat (hd s) < 128")
      case True
      then have D: "DecodeRune s = (unat (hd s), 1)" using ne by (rule DecodeRune_ascii [rotated])
      then have "k = 1" by (simp add: k_def)
      then show ?thesis
        using ne True IH D by (subst runes.simps) (cases s; simp add: word_less_nat_alt)
    next
      case False
      then have hi: "\<forall>b \<in> set (take k s). \<not> b < 128"
        using DecodeRune_high_bytes [OF ne] DecodeRune_size [OF ne]
        by (auto simp: in_set_conv_nth word_less_nat_alt not_less k_def)
      have "\<not> fst (DecodeRune s) < 128" using DecodeRune_high_rune [OF ne] False by simp
      then have "filter (\<lambda>c. c < 128) (runes s) = map unat (filter (\<lambda>b. b < 128) (drop k s))"
        using ne IH by (simp add: runes.simps [of s] k_def)
      also have "\<dots> = map unat (filter (\<lambda>b. b < 128) (take k s @ drop k s))"
        using hi by (simp del: append_take_drop_id)
      finally show ?thesis by simp
    qed
  qed
qed

lemma runes_all_ascii: "(\<forall>c \<in> set (runes s). c < 128) \<longleftrightarrow> (\<forall>b \<in> set s. b < 128)"
proof (induction s rule: runes.induct)
  case (1 s)
  show ?case
  proof (cases "s = []")
    case True
    then show ?thesis by (simp add: runes.simps)
  next
    case ne: False
    show ?thesis
    proof (cases "unat (hd s) < 128")
      case True
      then have D: "DecodeRune s = (unat (hd s), 1)" using ne by (rule DecodeRune_ascii [rotated])
      then show ?thesis
        using ne True "1.IH" by (subst runes.simps) (cases s; simp add: word_less_nat_alt)
    next
      case False
      then have "\<not> fst (DecodeRune s) < 128" using DecodeRune_high_rune [OF ne] by simp
      moreover have "hd s \<in> set s" "\<not> hd s < 128" using ne False by (auto simp: word_less_nat_alt)
      ultimately show ?thesis using ne by (auto simp: runes.simps [of s])
    qed
  qed
qed

end
