(* ===== verification/Go_Time.thy ===== *)
theory Go_Time
  imports Go_Prelude
begin

text \<open>
  Instants of Go's \<^verbatim>\<open>time.Time\<close> as the library stores them: a 64-bit count of
  seconds since year 1 (with its wrap-around) and a nanosecond part. The zero value of
  \<^verbatim>\<open>time.Time\<close> is 1 January of year 1. Locations are not part of an instant.
\<close>

record gotime =
  t_sec :: int
  t_nsec :: int

definition unixToInternal :: int where
  "unixToInternal = 62135596800"

definition zero_time :: gotime where
  "zero_time = \<lparr>t_sec = 0, t_nsec = 0\<rparr>"

text \<open>
  \<^verbatim>\<open>time.Unix(sec, nsec)\<close>: the nanoseconds are brought into the range from 0 to 999999999
  by moving whole seconds, rounding towards the past.
\<close>

definition time_Unix :: "int \<Rightarrow> int \<Rightarrow> gotime" where
  "time_Unix sec nsec =
     \<lparr>t_sec = i64 (i64 (sec + nsec div 1000000000) + unixToInternal), t_nsec = nsec mod 1000000000\<rparr>"

text \<open>The methods \<^verbatim>\<open>Unix\<close>, \<^verbatim>\<open>Before\<close>, \<^verbatim>\<open>After\<close> and \<^verbatim>\<open>IsZero\<close>.\<close>

definition Unix_of :: "gotime \<Rightarrow> int" where
  "Unix_of t = i64 (t_sec t - unixToInternal)"

definition Before :: "gotime \<Rightarrow> gotime \<Rightarrow> bool" where
  "Before t u \<longleftrightarrow> t_sec t < t_sec u \<or> (t_sec t = t_sec u \<and> t_nsec t < t_nsec u)"

definition After :: "gotime \<Rightarrow> gotime \<Rightarrow> bool" where
  "After t u \<longleftrightarrow> Before u t"

definition IsZero :: "gotime \<Rightarrow> bool" where
  "IsZero t \<longleftrightarrow> t_sec t = 0 \<and> t_nsec t = 0"

lemma i64_cancel: "i64 (i64 (x + c) - c) = i64 x"
proof -
  have "(((x + c + 9223372036854775808) mod 18446744073709551616 - 9223372036854775808) - c
      + 9223372036854775808) mod 18446744073709551616 = (x + 9223372036854775808) mod 18446744073709551616"
  proof -
    have "((x + c + 9223372036854775808) mod 18446744073709551616 - c) mod 18446744073709551616
        = (x + c + 9223372036854775808 - c) mod 18446744073709551616"
      by (simp add: mod_diff_left_eq)
    then show ?thesis by (simp add: algebra_simps)
  qed
  then show ?thesis by (simp add: i64_def)
qed

lemma Unix_time_Unix: "in_i64 sec \<Longrightarrow> 0 \<le> nsec \<Longrightarrow> nsec < 1000000000 \<Longrightarrow> Unix_of (time_Unix sec nsec) = sec"
  by (simp add: Unix_of_def time_Unix_def i64_cancel)

text \<open>Nanoseconds since the Unix epoch.\<close>

definition unix_nanos :: "gotime \<Rightarrow> int" where
  "unix_nanos t = (t_sec t - unixToInternal) * 1000000000 + t_nsec t"

lemma unix_nanos_time_Unix:
  assumes "\<bar>sec\<bar> \<le> 2 ^ 62" "\<bar>nsec\<bar> < 1000000000"
  shows "unix_nanos (time_Unix sec nsec) = sec * 1000000000 + nsec"
proof -
  define q where "q = nsec div 1000000000"
  have q: "- 1 \<le> q" "q \<le> 0" using assms(2) by (auto simp: q_def)
  have "nsec = q * 1000000000 + nsec mod 1000000000" by (simp add: q_def)
  moreover have "i64 (sec + q) = sec + q" using assms(1) q by (intro i64_id) (auto simp: in_i64_def abs_le_iff)
  moreover have "i64 (sec + q + unixToInternal) = sec + q + unixToInternal"
    using assms(1) q by (intro i64_id) (auto simp: in_i64_def unixToInternal_def abs_le_iff)
  ultimately show ?thesis
    unfolding unix_nanos_def time_Unix_def q_def [symmetric] by (simp add: algebra_simps)
qed

end
