(* ===== verification/Tar_Strconv.thy ===== *)
theory Tar_Strconv
  imports Go_Strconv Go_Utf8 Go_Time
begin

text \<open>
  The file \<^verbatim>\<open>tar/strconv.go\<close>: the string and number encodings of a tar header
  block (NUL-terminated strings, octal numbers, GNU base-256 numbers) and of PAX records
  (times and length-prefixed key/value records).

  The \<^verbatim>\<open>parser\<close> and \<^verbatim>\<open>formatter\<close> structs of the source hold one field,
  the last error seen; a parser or formatter is therefore an optional error that the
  operations take and return. A formatting operation takes the slice it fills and returns its
  new content.
\<close>

section \<open>ASCII\<close>

definition isASCII :: "gostring \<Rightarrow> bool" where
  "isASCII s \<longleftrightarrow> list_all (\<lambda>c. c < 128) (runes s)"

definition toASCII :: "gostring \<Rightarrow> gostring" where
  "toASCII s = (if isASCII s then s else map of_nat (filter (\<lambda>c. c < 128) (runes s)))"

section \<open>Strings and numbers of a header block\<close>

type_synonym parser = "go_error option"
type_synonym formatter = "go_error option"

definition parseString :: "byte list \<Rightarrow> gostring" where
  "parseString b = takeWhile (\<lambda>c. c \<noteq> 0) b"

definition formatString :: "formatter \<Rightarrow> byte list \<Rightarrow> gostring \<Rightarrow> formatter \<times> byte list" where
  "formatString f b s =
     (if length b < length s then (Some ErrFieldTooLong, b)
      else
        let ascii = toASCII s; b' = copy_into b ascii
        in (f, if length ascii < length b then b'[length ascii := 0] else b'))"

text \<open>
  For an empty field the Go shift count wraps around to a huge number, which makes both bounds
  zero and the test false.
\<close>

definition fitsInBase256 :: "nat \<Rightarrow> int \<Rightarrow> bool" where
  "fitsInBase256 n x \<longleftrightarrow> 9 \<le> n \<or> (0 < n \<and> - (2 ^ ((n - 1) * 8)) \<le> x \<and> x < 2 ^ ((n - 1) * 8))"

text \<open>
  The loop of \<^verbatim>\<open>parseNumeric\<close> over the bytes of a base-256 number: \<open>None\<close> is
  the overflow exit. The flag says whether the next byte is
  the first one; \<open>im\<close> is the inversion mask \<^verbatim>\<open>inv\<close>.
\<close>

fun numeric_loop :: "byte \<Rightarrow> bool \<Rightarrow> 64 word \<Rightarrow> byte list \<Rightarrow> 64 word option" where
  "numeric_loop im first x [] = Some x"
| "numeric_loop im first x (c # cs) =
     (let c1 = c XOR im; c2 = (if first then c1 AND 127 else c1)
      in if 0 < drop_bit 56 x then None
         else numeric_loop im False (push_bit 8 x OR ucast c2) cs)"

definition parseOctal :: "parser \<Rightarrow> byte list \<Rightarrow> int \<times> parser" where
  "parseOctal p b =
     (let b = Trim b {32, 0}
      in if b = [] then (0, p)
         else case ParseUint (parseString b) 8 of
                (x, perr) \<Rightarrow> (i64 (int x), if perr \<noteq> None then Some ErrHeader else p))"

definition parseNumeric :: "parser \<Rightarrow> byte list \<Rightarrow> int \<times> parser" where
  "parseNumeric p b =
     (if b \<noteq> [] \<and> hd b AND 128 \<noteq> 0 then
        let im = (if hd b AND 64 \<noteq> 0 then 255 else 0)
        in case numeric_loop im True 0 b of
             None \<Rightarrow> (0, Some ErrHeader)
           | Some x \<Rightarrow>
               if 0 < drop_bit 63 x then (0, Some ErrHeader)
               else if im = 255 then (- sint x - 1, p)
               else (sint x, p)
      else parseOctal p b)"

definition formatOctal :: "formatter \<Rightarrow> byte list \<Rightarrow> int \<Rightarrow> formatter \<times> byte list" where
  "formatOctal f b x =
     (let s = FormatInt 8 x;
          n = int (length b) - int (length s) - 1
      in formatString f b (if 0 < n then replicate (nat n) 48 @ s else s))"

text \<open>The byte loop of \<^verbatim>\<open>formatNumeric\<close>, from the last byte to the first.\<close>

fun numeric_bytes :: "nat \<Rightarrow> int \<Rightarrow> byte list" where
  "numeric_bytes 0 x = []"
| "numeric_bytes (Suc n) x = numeric_bytes n (x div 256) @ [word_of_int x]"

definition formatNumeric :: "formatter \<Rightarrow> byte list \<Rightarrow> int \<Rightarrow> formatter \<times> byte list" where
  "formatNumeric f b x =
     (if fitsInBase256 (length b) x then
        let b' = numeric_bytes (length b) x in (f, b'[0 := b' ! 0 OR 128])
      else (Some ErrFieldTooLong, snd (formatOctal f b 0)))"

section \<open>PAX times and records\<close>

definition pax_digits :: "byte set" where
  "pax_digits = set (str ''0123456789'')"

definition parsePAXTime :: "gostring \<Rightarrow> gotime result" where
  "parsePAXTime s =
     (let (ss, sn) = (case IndexByte s 46 of None \<Rightarrow> (s, []) | Some p \<Rightarrow> (take p s, drop (p + 1) s));
          (secs, err) = ParseInt ss 10
      in if err \<noteq> None then Inl ErrHeader
         else if sn = [] then Inr (time_Unix secs 0)
         else if Trim sn pax_digits \<noteq> [] then Inl ErrHeader
         else
           let sn' = (if length sn < 9 then sn @ replicate (9 - length sn) 48 else take 9 sn);
               nsecs = fst (ParseInt sn' 10)
           in if ss \<noteq> [] \<and> hd ss = 45 then Inr (time_Unix secs (- nsecs))
              else Inr (time_Unix secs nsecs))"

text \<open>
  The slice expression \<^verbatim>\<open>s[sp+1:n-1]\<close> panics when its bounds cross; nothing in the
  checks before it excludes that.
\<close>

definition parsePAXRecord :: "gostring \<Rightarrow> (gostring \<times> gostring \<times> gostring) result" where
  "parsePAXRecord s =
     (case IndexByte s 32 of
        None \<Rightarrow> Inl ErrHeader
      | Some sp \<Rightarrow>
          let (n, perr) = ParseInt (take sp s) 10
          in if perr \<noteq> None \<or> n < 5 \<or> int (length s) < n then Inl ErrHeader
             else if n - 1 < int sp + 1 then Inl (Panic ''slice bounds out of range'')
             else
               let n = nat n;
                   record = bslice s (sp + 1) (n - 1 - (sp + 1));
                   nl = bslice s (n - 1) 1;
                   rem = drop n s
               in if nl \<noteq> [10] then Inl ErrHeader
                  else case IndexByte record 61 of
                         None \<Rightarrow> Inl ErrHeader
                       | Some eq \<Rightarrow> Inr (take eq record, drop (eq + 1) record, rem))"

definition pax_line :: "nat \<Rightarrow> gostring \<Rightarrow> gostring \<Rightarrow> gostring" where
  "pax_line sz k v = FormatUint 10 sz @ [32] @ k @ [61] @ v @ [10]"

definition formatPAXRecord :: "gostring \<Rightarrow> gostring \<Rightarrow> gostring" where
  "formatPAXRecord k v =
     (let padding = 3;
          sz = length k + length v + padding;
          sz = sz + length (FormatUint 10 sz);
          record = pax_line sz k v
      in if length record \<noteq> sz then pax_line (length record) k v else record)"

section \<open>ASCII filtering\<close>

lemma isASCII_bytes: "isASCII s \<longleftrightarrow> (\<forall>b \<in> set s. b < 128)"
  by (simp add: isASCII_def list_all_iff runes_all_ascii)

lemma toASCII_filter: "toASCII s = filter (\<lambda>b. b < 128) s"
proof (cases "isASCII s")
  case True
  then show ?thesis by (auto simp: toASCII_def isASCII_bytes)
next
  case False
  then show ?thesis by (simp add: toASCII_def filter_runes_ascii o_def)
qed

lemma toASCII_id [simp]: "isASCII s \<Longrightarrow> toASCII s = s"
  by (simp add: toASCII_def)

lemma isASCII_toASCII [simp]: "isASCII (toASCII s)"
  by (simp add: isASCII_bytes toASCII_filter)

lemma length_toASCII_le: "length (toASCII s) \<le> length s"
  by (simp add: toASCII_filter)

lemma isASCII_append [simp]: "isASCII (a @ b) \<longleftrightarrow> isASCII a \<and> isASCII b"
  by (auto simp: isASCII_bytes)

text \<open>Filtering a string to ASCII keeps exactly its bytes below 0x80, in order.\<close>

lemma toASCII_spec: "toASCII s = filter (\<lambda>b. unat b < 128) s"
  by (simp add: toASCII_filter word_less_nat_alt)

section \<open>Strings of a header block\<close>

lemma length_formatString [simp]: "length (snd (formatString f b s)) = length b"
  by (simp add: formatString_def Let_def)

lemma formatString_content:
  assumes "length s \<le> length b" "isASCII s"
  shows "formatString f b s =
    (f, s @ (if length s < length b then 0 # drop (Suc (length s)) b else []))"
proof -
  have "(s @ drop (length s) b)[length s := 0] = s @ 0 # drop (Suc (length s)) b"
    if "length s < length b"
    using that by (simp add: list_update_append Cons_nth_drop_Suc [symmetric])
  then show ?thesis
    using assms by (auto simp: formatString_def copy_into_def)
qed

lemma parseString_content:
  "0 \<notin> set s \<Longrightarrow> rest = [] \<or> hd rest = 0 \<Longrightarrow> parseString (s @ rest) = s"
  unfolding parseString_def by (rule takeWhile_append_stop) auto

lemma parseString_no_NUL [simp]: "0 \<notin> set s \<Longrightarrow> parseString s = s"
  using parseString_content [of s "[]"] by simp

text \<open>A string without NUL bytes that fits a header field and is ASCII is read back from it.\<close>

lemma parseString_formatString:
  assumes "length s \<le> length b" "isASCII s" "0 \<notin> set s"
  shows "fst (formatString f b s) = f \<and> parseString (snd (formatString f b s)) = s"
  using assms by (auto simp: formatString_content intro!: parseString_content)

section \<open>Base-256 numbers\<close>

definition be_value :: "nat \<Rightarrow> byte list \<Rightarrow> nat" where
  "be_value v cs = foldl (\<lambda>v c. v * 256 + unat c) v cs"

lemma be_value_simps [simp]:
  "be_value v [] = v"
  "be_value v (c # cs) = be_value (v * 256 + unat c) cs"
  "be_value v (cs @ ds) = be_value (be_value v cs) ds"
  by (simp_all add: be_value_def)

lemma be_value_mono: "v \<le> be_value v cs"
proof (induction cs arbitrary: v)
  case (Cons c cs)
  have "v \<le> v * 256 + unat c" by simp
  also have "\<dots> \<le> be_value (v * 256 + unat c) cs" by (rule Cons.IH)
  finally show ?case by simp
qed simp

lemma unat_shift_byte:
  fixes x :: "64 word" and c :: byte
  assumes "unat x < 2 ^ 56"
  shows "unat (push_bit 8 x OR ucast c) = unat x * 256 + unat c"
proof -
  have disj: "push_bit 8 x AND ucast c = (0 :: 64 word)"
    by (rule bit_eqI) (auto simp: bit_simps dest: bit_imp_le_length)
  have "unat (push_bit 8 x) = unat x * 256"
    using assms by (simp add: push_bit_eq_mult unat_word_ariths)
  moreover have "unat (ucast c :: 64 word) = unat c"
    using byte_less_256 [of c] by (simp add: unsigned_ucast_eq take_bit_nat_eq_self_iff)
  moreover have "push_bit 8 x OR ucast c = push_bit 8 x + ucast c"
    using disj by (simp add: disjunctive_add_eq_or)
  ultimately show ?thesis
    using assms byte_less_256 [of c] by (simp add: unat_word_ariths)
qed

lemma drop_bit_zero_iff: "0 < drop_bit n (x :: 64 word) \<longleftrightarrow> 2 ^ n \<le> unat x"
proof -
  have "unat (drop_bit n x) = drop_bit n (unat x)"
    using u64_less [of x] by (simp add: unsigned_drop_bit_eq take_bit_nat_eq_self)
  then have "unat (drop_bit n x) = unat x div 2 ^ n"
    by (simp only: drop_bit_eq_div)
  moreover have "0 < drop_bit n x \<longleftrightarrow> 0 < unat (drop_bit n x)"
    by (simp add: word_less_nat_alt)
  ultimately show ?thesis by (simp add: div_greater_zero_iff)
qed

text \<open>
  The overflow test of the loop (some of the top eight bits set before a shift) is exact: the
  loop fails just when the value of the bytes needs more than 64 bits.
\<close>

lemma numeric_loop_plain:
  "numeric_loop 0 False x cs =
     (if be_value (unat x) cs < 2 ^ 64 then Some (of_nat (be_value (unat x) cs)) else None)"
proof (induction cs arbitrary: x)
  case Nil
  then show ?case using unsigned_less [of x] by simp
next
  case (Cons c cs)
  show ?case
  proof (cases "unat x < 2 ^ 56")
    case True
    then have "\<not> 0 < drop_bit 56 x" by (simp add: drop_bit_zero_iff)
    then show ?thesis
      using Cons.IH [of "push_bit 8 x OR ucast c"] unat_shift_byte [OF True, of c] by simp
  next
    case False
    then have "0 < drop_bit 56 x" by (simp add: drop_bit_zero_iff)
    moreover have "2 ^ 64 \<le> be_value (unat x * 256 + unat c) cs"
      using False be_value_mono [of "unat x * 256 + unat c" cs] by simp
    ultimately show ?thesis by simp
  qed
qed

lemma numeric_loop_mask: "numeric_loop im False x cs = numeric_loop 0 False x (map (\<lambda>c. c XOR im) cs)"
  by (induction cs arbitrary: x) (simp_all add: Let_def)

definition masked :: "byte \<Rightarrow> byte list \<Rightarrow> byte list" where
  "masked im cs = (case cs of [] \<Rightarrow> [] | c # cs \<Rightarrow> ((c XOR im) AND 127) # map (\<lambda>c. c XOR im) cs)"

lemma numeric_loop_first: "numeric_loop im True 0 cs = numeric_loop 0 False 0 (masked im cs)"
  using numeric_loop_mask [of im] by (cases cs) (simp_all add: masked_def Let_def)

lemma sint_small: "v < 2 ^ 63 \<Longrightarrow> sint (of_nat v :: 64 word) = int v"
  using sint64_i64 [of "int v"] by (simp add: in_i64_def)

lemma parseNumeric_base256:
  assumes "b \<noteq> []" "hd b AND 128 \<noteq> 0" "im = (if hd b AND 64 \<noteq> 0 then 255 else 0)"
    and "v = be_value 0 (masked im b)"
  shows "parseNumeric p b =
    (if v < 2 ^ 63 then (if im = 255 then - int v - 1 else int v, p) else (0, Some ErrHeader))"
proof -
  have loop: "numeric_loop im True 0 b = (if v < 2 ^ 64 then Some (of_nat v) else None)"
    by (simp add: numeric_loop_first numeric_loop_plain assms(4))
  show ?thesis
  proof (cases "v < 2 ^ 63")
    case True
    then have "\<not> 0 < drop_bit 63 (of_nat v :: 64 word)"
      by (simp add: drop_bit_zero_iff unat_of_nat)
    then show ?thesis
      using True sint_small [OF True] loop assms(1-2)
      unfolding parseNumeric_def assms(3) [symmetric] by (simp add: Let_def)
  next
    case False
    then have "v < 2 ^ 64 \<Longrightarrow> 0 < drop_bit 63 (of_nat v :: 64 word)"
      by (simp add: drop_bit_zero_iff unat_of_nat)
    then show ?thesis
      using False loop assms(1-2)
      unfolding parseNumeric_def assms(3) [symmetric] by (simp add: Let_def)
  qed
qed

text \<open>
  C27. A base-256 field is read as the two's complement number its bytes denote, and an error is
  reported exactly when the number does not fit 64 bits: with \<open>v\<close> the value of the bytes after
  undoing the inversion and dropping the marker bit, the result is \<open>v\<close> for a positive and
  \<open>- v - 1\<close> for a negative number.
\<close>

theorem parseNumeric_binary:
  assumes "b \<noteq> []" "hd b AND 128 \<noteq> 0"
  defines "im \<equiv> if hd b AND 64 \<noteq> 0 then 255 else 0"
  defines "v \<equiv> be_value 0 (masked im b)"
  shows "parseNumeric p b =
    (if v < 2 ^ 63 then (if im = 255 then - int v - 1 else int v, p) else (0, Some ErrHeader))"
  using assms(1,2) by (intro parseNumeric_base256) (simp_all add: im_def v_def)

theorem parseNumeric_binary_witness: "parseNumeric None [255, 255, 255, 254] = (- 2, None)"
  using parseNumeric_binary [of "[255, 255, 255, 254]" None] by (simp add: masked_def)

subsection \<open>Writing base-256 numbers\<close>

lemma length_numeric_bytes [simp]: "length (numeric_bytes n x) = n"
  by (induction n arbitrary: x) simp_all

lemma numeric_bytes_Cons: "numeric_bytes (Suc n) x = word_of_int (x div 256 ^ n) # numeric_bytes n x"
proof (induction n arbitrary: x)
  case 0
  then show ?case by simp
next
  case (Suc n)
  have "x div 256 div 256 ^ n = x div 256 ^ Suc n"
    by (simp add: zdiv_zmult2_eq)
  with Suc.IH [of "x div 256"] show ?case by simp
qed

lemma unat_byte_of_int: "unat (word_of_int x :: byte) = nat (x mod 256)"
  by (simp add: unsigned_of_int take_bit_eq_mod)

lemma be_value_numeric_bytes: "be_value 0 (numeric_bytes n x) = nat (x mod 256 ^ n)"
proof (induction n arbitrary: x)
  case 0
  then show ?case by simp
next
  case (Suc n)
  have eq: "x mod 256 ^ Suc n = (x div 256 mod 256 ^ n) * 256 + x mod 256"
    using zmod_zmult2_eq [of "256 ^ n" x 256] by (simp add: ac_simps)
  have "be_value 0 (numeric_bytes (Suc n) x) = nat (x div 256 mod 256 ^ n) * 256 + nat (x mod 256)"
    using Suc.IH by (simp add: unat_byte_of_int)
  also have "\<dots> = nat ((x div 256 mod 256 ^ n) * 256 + x mod 256)"
    by (simp add: nat_add_distrib nat_mult_distrib)
  finally show ?case by (simp only: eq)
qed

lemma numeric_bytes_invert: "map (\<lambda>c. c XOR 255) (numeric_bytes n x) = numeric_bytes n (- x - 1)"
proof (induction n arbitrary: x)
  case 0
  then show ?case by simp
next
  case (Suc n)
  have m: "(255 :: byte) = mask 8" by (simp add: mask_numeral)
  have "word_of_int x XOR 255 = NOT (word_of_int x :: byte)"
    unfolding m by (auto intro!: bit_eqI simp: bit_simps)
  also have "\<dots> = word_of_int (- x - 1)" by (simp add: not_eq_complement)
  finally have "word_of_int x XOR 255 = (word_of_int (- x - 1) :: byte)" .
  moreover have "(- x - 1) div 256 = - (x div 256) - 1"
  proof (rule int_div_pos_eq [where r = "255 - x mod 256"])
    show "- x - 1 = 256 * (- (x div 256) - 1) + (255 - x mod 256)"
      using div_mult_mod_eq [of x 256] by (simp add: minus_div_mult_eq_mod [symmetric] algebra_simps)
    show "0 \<le> 255 - x mod 256" "255 - x mod 256 < 256"
      using pos_mod_bound [of 256 x] pos_mod_sign [of 256 x] by linarith+
  qed
  ultimately show ?case using Suc.IH [of "x div 256"] by simp
qed

text \<open>The first byte of a number that fits is only its sign, as the GNU format demands.\<close>

lemma fits_top_byte:
  assumes "fitsInBase256 (Suc n) x" "in_i64 x"
  shows "x div 256 ^ n = (if x < 0 then - 1 else 0)"
    and "\<bar>x\<bar> \<le> 256 ^ n" and "\<not> x < 0 \<Longrightarrow> x < 256 ^ n"
proof -
  have bounds: "- (256 ^ n) \<le> x \<and> x < 256 ^ n"
  proof (cases "9 \<le> Suc n")
    case True
    then have "(256 :: int) ^ 8 \<le> 256 ^ n" by (intro power_increasing) auto
    then show ?thesis using assms(2) by (auto simp: in_i64_def)
  next
    case False
    have "(2 :: int) ^ (n * 8) = (2 ^ 8) ^ n" by (metis mult.commute power_mult)
    then show ?thesis using assms(1) False by (simp add: fitsInBase256_def)
  qed
  then show "\<bar>x\<bar> \<le> 256 ^ n" and "\<not> x < 0 \<Longrightarrow> x < 256 ^ n" by auto
  show "x div 256 ^ n = (if x < 0 then - 1 else 0)"
  proof (cases "x < 0")
    case True
    then show ?thesis using bounds int_div_pos_eq [of x "256 ^ n" "- 1" "x + 256 ^ n"] by simp
  next
    case False
    then show ?thesis using bounds by (simp add: div_pos_pos_trivial)
  qed
qed

lemma base256_roundtrip:
  assumes fits: "fitsInBase256 (length b) x" and x: "in_i64 x"
  shows "fst (formatNumeric f b x) = f \<and> parseNumeric p (snd (formatNumeric f b x)) = (x, p)"
proof -
  obtain n where n: "length b = Suc n" using fits by (cases "length b") (auto simp: fitsInBase256_def)
  define sgn where "sgn = (if x < 0 then 255 else 128 :: byte)"
  note top = fits_top_byte [OF fits [unfolded n] x]
  have out: "formatNumeric f b x = (f, sgn # numeric_bytes n x)"
    using fits top(1) by (simp add: formatNumeric_def n numeric_bytes_Cons sgn_def del: numeric_bytes.simps)
  show ?thesis
  proof (cases "x < 0")
    case True
    have "be_value 0 (masked 255 (sgn # numeric_bytes n x)) = nat (- x - 1)"
      using True top(2) by (simp add: masked_def sgn_def numeric_bytes_invert be_value_numeric_bytes)
    then show ?thesis
      using True x out parseNumeric_base256 [of "sgn # numeric_bytes n x" 255 "nat (- x - 1)" p]
      by (simp add: sgn_def in_i64_def nat_less_iff)
  next
    case False
    have "be_value 0 (masked 0 (sgn # numeric_bytes n x)) = nat x"
      using False top(3) by (simp add: masked_def sgn_def be_value_numeric_bytes)
    then show ?thesis
      using False x out parseNumeric_base256 [of "sgn # numeric_bytes n x" 0 "nat x" p]
      by (simp add: sgn_def in_i64_def nat_less_iff)
  qed
qed

text \<open>
  C26. Round trip of the GNU base-256 encoding: a 64-bit number for which the writer's test
  \<open>fitsInBase256\<close> succeeds is written without error and read back, negative numbers included.
\<close>

theorem parseNumeric_formatNumeric:
  assumes "fitsInBase256 (length b) x" "in_i64 x"
  shows "fst (formatNumeric f b x) = f \<and> parseNumeric p (snd (formatNumeric f b x)) = (x, p)"
  using assms by (rule base256_roundtrip)

theorem parseNumeric_formatNumeric_witness:
  "parseNumeric None (snd (formatNumeric None [0, 0, 0, 0, 0, 0, 0, 0] (- 1234567))) = (- 1234567, None)"
  using parseNumeric_formatNumeric [of "[0, 0, 0, 0, 0, 0, 0, 0]" "- 1234567" None None]
  by (simp add: fitsInBase256_def in_i64_def)

section \<open>Octal numbers\<close>

lemma ascii_digits: "isASCII (replicate k 48 @ FormatUint 8 n)"
  using FormatUint_digits [of 8 _ n] by (fastforce simp: isASCII_bytes word_less_nat_alt)

lemma octal_no_NUL: "0 \<notin> set (replicate k 48 @ FormatUint 8 n)"
  using FormatUint_not_in [of 8 0 n] by simp

definition octal_text :: "nat \<Rightarrow> int \<Rightarrow> gostring" where
  "octal_text len x = replicate (len - Suc (length (FormatUint 8 (nat x)))) 48 @ FormatUint 8 (nat x)"

lemma formatOctal_nonneg:
  assumes "0 \<le> x" "length (FormatUint 8 (nat x)) \<le> length b"
  shows "formatOctal f b x = (f, octal_text (length b) x @
    (if length (FormatUint 8 (nat x)) < length b then [0] else []))"
proof -
  let ?d = "FormatUint 8 (nat x)"
  let ?s = "octal_text (length b) x"
  have s: "formatOctal f b x = formatString f b ?s"
    using assms by (auto simp: formatOctal_def FormatInt_def octal_text_def Let_def nat_diff_distrib'
        split: if_splits intro!: arg_cong2 [of _ _ _ _ "\<lambda>a b. formatString f a b"])
  have len: "length ?s = (if length ?d < length b then length b - 1 else length b)"
    using assms by (auto simp: octal_text_def)
  show ?thesis
    unfolding s using len assms(2) ascii_digits
    by (subst formatString_content) (auto simp: octal_text_def)
qed

lemma Trim_octal:
  assumes "set zs \<subseteq> {32, 0}"
  shows "Trim (octal_text len x @ zs) {32, 0} = octal_text len x"
proof -
  let ?s = "octal_text len x"
  have ne: "?s \<noteq> []" by (simp add: octal_text_def)
  have digits: "48 \<le> unat c" if "c \<in> set ?s" for c
    using that FormatUint_digits [of 8 c "nat x"] by (auto simp: octal_text_def)
  then have hd: "hd ?s \<notin> {32, 0}" and last: "last ?s \<notin> {32, 0}"
    using ne hd_in_set [OF ne] last_in_set [OF ne] by fastforce+
  show ?thesis
    using assms by (intro Trim_padded [OF ne hd last]) auto
qed

lemma parseOctal_text:
  assumes "0 \<le> x" "in_i64 x" "set zs \<subseteq> {32, 0}"
  shows "parseOctal p (octal_text len x @ zs) = (x, p)"
proof -
  have "parseString (octal_text len x) = octal_text len x"
    using octal_no_NUL by (intro parseString_no_NUL) (simp add: octal_text_def)
  moreover have "ParseUint (octal_text len x) 8 = (nat x, None)"
    using assms(1,2) by (simp add: octal_text_def ParseUint_FormatUint in_i64_def)
  moreover have "octal_text len x \<noteq> []" by (simp add: octal_text_def)
  ultimately show ?thesis
    using assms by (simp add: parseOctal_def Trim_octal)
qed

lemma parseNumeric_octal_text:
  assumes "0 \<le> x" "in_i64 x" "set zs \<subseteq> {32, 0}"
  shows "parseNumeric p (octal_text len x @ zs) = (x, p)"
proof -
  let ?s = "octal_text len x"
  have ne: "?s \<noteq> []" by (simp add: octal_text_def)
  then have "unat (hd ?s) \<le> 57" "48 \<le> unat (hd ?s)"
    using FormatUint_digits [of 8 "hd ?s" "nat x"] hd_in_set [OF ne] by (auto simp: octal_text_def)
  then have "hd ?s AND 128 = 0" by (simp add: byte_top_bit)
  then show ?thesis
    using assms ne parseOctal_text by (simp add: parseNumeric_def)
qed

text \<open>
  Round trip of octal fields: a non-negative number whose octal digits fit the field is
  written without error and read back, whether or not there is room for a terminating NUL.
\<close>

lemma parseNumeric_formatOctal:
  assumes "0 \<le> x" "in_i64 x" "length (FormatInt 8 x) \<le> length b"
  shows "fst (formatOctal f b x) = f \<and> parseNumeric p (snd (formatOctal f b x)) = (x, p)"
  using assms parseNumeric_octal_text [of x "[]" p "length b"]
  by (simp add: formatOctal_nonneg FormatInt_def parseNumeric_octal_text)

text \<open>
  A number outside the base-256 range of a field is reported as too long, and an octal zero
  is stored in its place, so that the field still parses.
\<close>

lemma formatNumeric_too_long:
  assumes "\<not> fitsInBase256 (length b) x" "2 \<le> length b"
  shows "fst (formatNumeric f b x) = Some ErrFieldTooLong \<and>
    parseNumeric p (snd (formatNumeric f b x)) = (0, p)"
proof -
  have "FormatUint 8 0 = [48]" by (simp add: FormatUint_def digits_of.simps digit_char_def)
  then show ?thesis
    using assms by (simp add: formatNumeric_def formatOctal_nonneg parseNumeric_octal_text in_i64_def)
qed

section \<open>PAX records\<close>

lemma length_pax_line: "length (pax_line sz k v) = length (FormatUint 10 sz) + length k + length v + 3"
  by (simp add: pax_line_def)

text \<open>One adjustment of the size is enough for it to be the length of the record it heads.\<close>

lemma formatPAXRecord_size:
  obtains n where "formatPAXRecord k v = pax_line n k v" "length (pax_line n k v) = n"
    and "n \<le> length k + length v + 4 + length (digits_of 10 (length k + length v + 3))"
proof -
  let ?L = "\<lambda>n. length (digits_of 10 n)"
  define m where "m = length k + length v + 3"
  define s1 where "s1 = m + ?L m"
  have line: "length (pax_line n k v) = ?L n + m" for n
    by (simp add: length_pax_line length_FormatUint m_def)
  have fmt: "formatPAXRecord k v = (if ?L s1 + m \<noteq> s1 then pax_line (?L s1 + m) k v else pax_line s1 k v)"
    by (simp add: formatPAXRecord_def Let_def line length_FormatUint s1_def m_def)
  have bound: "s1 + 1 \<le> length k + length v + 4 + length (digits_of 10 (length k + length v + 3))"
    by (simp add: s1_def m_def)
  show thesis
  proof (cases "?L s1 + m = s1")
    case True
    then show ?thesis using that [of s1] fmt line bound by simp
  next
    case False
    let ?a = "?L m"
    have pow: "Suc ?a \<le> 9 * 10 ^ ?a"
    proof -
      have "Suc a \<le> 10 ^ a" for a :: nat by (induction a) auto
      then have "Suc ?a \<le> 10 ^ ?a" .
      then show ?thesis by simp
    qed
    have "m < 10 ^ ?a" by (rule less_power_length_digits_of) simp
    then have up: "s1 + 1 < 10 ^ Suc ?a" using pow by (simp add: s1_def)
    have "?L s1 \<le> Suc ?a" using up by (intro length_digits_of_le) auto
    moreover have "?a \<le> ?L s1" by (rule length_digits_of_mono) (simp_all add: s1_def)
    ultimately have eq: "?L s1 = Suc ?a" using False by (simp add: s1_def)
    then have n: "?L s1 + m = s1 + 1" by (simp add: s1_def)
    have "?L (s1 + 1) \<le> Suc ?a" using up by (intro length_digits_of_le) auto
    moreover have "?L s1 \<le> ?L (s1 + 1)" by (rule length_digits_of_mono) simp_all
    ultimately have "?L (s1 + 1) = ?L s1" using eq by simp
    then show ?thesis using that [of "s1 + 1"] fmt line n False bound by simp
  qed
qed

lemma parsePAXRecord_line:
  assumes "61 \<notin> set k" "k \<noteq> []" "length k + length v < 2 ^ 62"
  shows "parsePAXRecord (formatPAXRecord k v @ r) = Inr (k, v, r)"
proof -
  obtain n where n: "formatPAXRecord k v = pax_line n k v" "length (pax_line n k v) = n"
      "n \<le> length k + length v + 4 + length (digits_of 10 (length k + length v + 3))"
    by (rule formatPAXRecord_size)
  let ?d = "FormatUint 10 n"
  have sp: "IndexByte (pax_line n k v @ r) 32 = Some (length ?d)"
    using FormatUint_not_in [of 10 32 n] by (simp add: pax_line_def IndexByte_append)
  have L: "n = length ?d + length k + length v + 3" using n(2) by (simp add: length_pax_line)
  have "length (digits_of 10 (length k + length v + 3)) \<le> 20"
    using assms(3) by (intro length_digits_of_le) simp_all
  then have "n < 2 ^ 63" using n(3) assms(3) by simp
  then have num: "ParseInt ?d 10 = (int n, None)"
    using ParseInt_FormatInt [of 10 "int n"] by (simp add: FormatInt_of_nat in_i64_def)
  have "0 < length ?d" "0 < length k" using assms(2) by simp_all
  then have five: "5 \<le> n" using L by linarith
  have s: "pax_line n k v @ r = (?d @ [32]) @ (k @ 61 # v) @ [10] @ r" by (simp add: pax_line_def)
  have rec: "bslice (pax_line n k v @ r) (length ?d + 1) (n - 1 - (length ?d + 1)) = k @ 61 # v"
  proof -
    have "n - 1 - (length ?d + 1) = length (k @ 61 # v)" using L by simp
    then show ?thesis unfolding s bslice_def by simp
  qed
  have nl: "bslice (pax_line n k v @ r) (n - 1) 1 = [10]"
  proof -
    have "n - 1 = length ((?d @ [32]) @ (k @ 61 # v))" using L by simp
    then show ?thesis unfolding s bslice_def by simp
  qed
  have rem: "drop n (pax_line n k v @ r) = r" using n(2) by simp
  show ?thesis
    unfolding n(1) parsePAXRecord_def sp
    using num five L rec nl rem n(2) assms(1) by (simp add: pax_line_def IndexByte_append Let_def)
qed

text \<open>
  C25. Round trip of PAX records: a record with a key that holds no equals sign is parsed back
  from the front of any longer text, and what follows it is returned as the remainder.
\<close>

theorem parsePAXRecord_formatPAXRecord:
  assumes "61 \<notin> set k" "k \<noteq> []" "length k + length v < 2 ^ 62"
  shows "parsePAXRecord (formatPAXRecord k v @ r) = Inr (k, v, r)"
  using assms by (rule parsePAXRecord_line)

theorem parsePAXRecord_formatPAXRecord_witness:
  "parsePAXRecord (formatPAXRecord (str ''path'') (str ''a=b'') @ str ''rest'') =
    Inr (str ''path'', str ''a=b'', str ''rest'')"
  using parsePAXRecord_formatPAXRecord [of "str ''path''" "str ''a=b''" "str ''rest''"] by simp

text \<open>What a record that is accepted looks like; the remainder is shorter than the input.\<close>

lemma parsePAXRecord_shape:
  assumes "parsePAXRecord s = Inr (k, v, r)"
  obtains d where "s = d @ [32] @ k @ [61] @ v @ [10] @ r" "61 \<notin> set k" "32 \<notin> set d"
    and "ParseInt d 10 = (int (length s - length r), None)"
proof -
  obtain sp where sp: "IndexByte s 32 = Some sp"
    using assms by (auto simp: parsePAXRecord_def split: option.splits)
  obtain n perr where num: "ParseInt (take sp s) 10 = (n, perr)" by fastforce
  have chk: "perr = None" "5 \<le> n" "n \<le> int (length s)" "int sp + 1 \<le> n - 1"
    using assms by (auto simp: parsePAXRecord_def sp num Let_def split: if_splits)
  define m where "m = nat n - 1"
  have m: "n = int m + 1" "sp + 1 \<le> m" "m < length s" using chk by (auto simp: m_def)
  define body where "body = bslice s (sp + 1) (m - (sp + 1))"
  have nl: "bslice s m 1 = [10]" and "\<exists>eq. IndexByte body 61 = Some eq \<and>
      k = take eq body \<and> v = drop (eq + 1) body \<and> r = drop (m + 1) s"
    using assms chk m
    by (auto simp: parsePAXRecord_def sp num Let_def body_def nat_add_distrib
        split: if_splits option.splits)
  then obtain eq where eq: "IndexByte body 61 = Some eq"
      "k = take eq body" "v = drop (eq + 1) body" "r = drop (m + 1) s"
    by blast
  have rec: "body = k @ [61] @ v" "61 \<notin> set k"
    using IndexByte_Some [OF eq(1)] eq(2,3) by simp_all
  have "s ! m = 10" using nl m(3) by (simp add: bslice_def take_Suc_conv_app_nth Cons_nth_drop_Suc [symmetric])
  then have tail: "drop m s = [10] @ r" using m(3) eq(4) by (simp add: Cons_nth_drop_Suc [symmetric])
  have "drop (sp + 1) s = body @ drop m s"
    unfolding body_def bslice_def using m(2)
    by (metis add_diff_inverse_nat append_take_drop_id drop_drop not_less add.commute)
  then have s: "s = take sp s @ [32] @ k @ [61] @ v @ [10] @ r"
    using IndexByte_Some(1) [OF sp] tail rec(1) by simp
  have "int (length s - length r) = n" using m(1,3) eq(4) by simp
  then show thesis
    using that [OF s rec(2)] IndexByte_Some(2) [OF sp] num chk(1) by simp
qed

lemma parsePAXRecord_less: "parsePAXRecord s = Inr (k, v, r) \<Longrightarrow> length r < length s"
  by (erule parsePAXRecord_shape) simp

text \<open>
  C32. A record that is accepted is well formed: a decimal length, a space, the key, an equals sign,
  the value and a newline, in this order, where the length counts the whole record and the key has
  no equals sign.
\<close>

theorem parsePAXRecord_wellformed:
  assumes "parsePAXRecord s = Inr (k, v, r)"
  shows "\<exists>d. s = d @ [32] @ k @ [61] @ v @ [10] @ r \<and> 61 \<notin> set k \<and>
    ParseInt d 10 = (int (length s) - int (length r), None)"
  using assms
proof (rule parsePAXRecord_shape)
  fix d
  assume "s = d @ [32] @ k @ [61] @ v @ [10] @ r" "61 \<notin> set k"
    and "ParseInt d 10 = (int (length s - length r), None)"
  then show ?thesis by (intro exI [of _ d]) auto
qed

theorem parsePAXRecord_wellformed_witness:
  "\<exists>d. str ''6 k=v'' @ [10] = d @ [32] @ str ''k'' @ [61] @ str ''v'' @ [10] @ str '''' \<and>
    61 \<notin> set (str ''k'') \<and> ParseInt d 10 = (int (length (str ''6 k=v'' @ [10])) - int (length (str '''')), None)"
proof (rule parsePAXRecord_wellformed)
  show "parsePAXRecord (str ''6 k=v'' @ [10]) = Inr (str ''k'', str ''v'', str '''')"
    by (simp add: parsePAXRecord_def IndexByte_def ParseInt_def ParseUint_def digit_val_def bslice_def)
qed

text \<open>
  C39. Where \<^verbatim>\<open>parsePAXRecord\<close> panics on a record that states a length within the text, padded with any
  number of zeros: exactly when the length field with its space reaches up to the last byte of the record or beyond.
  The bounds of the slice between the space and the newline cross then, and the tests of the length do not
  exclude it.
\<close>

theorem parsePAXRecord_panics:
  assumes "s = replicate k 48 @ FormatUint 10 n @ [32] @ rest" "5 \<le> n" "n \<le> length s" "n < 2 ^ 63"
  shows "(\<exists>m. parsePAXRecord s = Inl (Panic m)) \<longleftrightarrow> n \<le> k + length (FormatUint 10 n) + 1"
proof -
  let ?d = "replicate k 48 @ FormatUint 10 n"
  have "32 \<notin> set ?d" using FormatUint_not_in [of 10 32 n] by auto
  then have sp: "IndexByte s 32 = Some (length ?d)" "take (length ?d) s = ?d"
    using assms(1) IndexByte_append [of 32 ?d rest] by simp_all
  have "hd ?d \<noteq> 43" "hd ?d \<noteq> 45" using hd_FormatUint_digit [of 10 n] by (cases k; simp)+
  then have "ParseInt ?d 10 = (int n, None)" using ParseUint_FormatUint [of 10 n k] assms(4) by (intro ParseInt_unsigned) simp_all
  then show ?thesis using sp assms(2,3) by (auto simp: parsePAXRecord_def Let_def split: option.splits)
qed

theorem parsePAXRecord_panics_witness:
  "\<exists>m. parsePAXRecord (str ''0000005 a=b'' @ [10]) = Inl (Panic m)"
proof -
  have "FormatUint 10 5 = [53]" "replicate 6 48 = [48, 48, 48, 48, 48, 48 :: byte]"
    by (simp_all add: FormatUint_def digits_of.simps digit_char_def eval_nat_numeral)
  then show ?thesis using parsePAXRecord_panics [of "str ''0000005 a=b'' @ [10]" 6 5 "str ''a=b'' @ [10]"] by simp
qed

section \<open>PAX times\<close>

text \<open>The nine digits of the sub-second part that are used.\<close>

definition nano_digits :: "nat list \<Rightarrow> nat list" where
  "nano_digits ds = take 9 (ds @ replicate 9 0)"

lemma nano_digits_text:
  "(if length (map digit_char ds) < 9 then map digit_char ds @ replicate (9 - length (map digit_char ds)) 48
    else take 9 (map digit_char ds)) = map digit_char (nano_digits ds)"
  by (auto simp: nano_digits_def take_map digit_char_def)

lemma ParseInt_nano_digits:
  assumes "\<forall>d \<in> set ds. d < 10"
  shows "ParseInt (map digit_char (nano_digits ds)) 10 = (int (num_value 10 0 (nano_digits ds)), None)"
    and "num_value 10 0 (nano_digits ds) < 1000000000"
proof -
  let ?es = "nano_digits ds"
  have len: "length ?es = 9" by (simp add: nano_digits_def)
  then have ne: "?es \<noteq> []" by auto
  have es: "\<forall>d \<in> set ?es. d < 10" using assms by (auto simp: nano_digits_def dest!: in_set_takeD)
  show val: "num_value 10 0 ?es < 1000000000" using num_value_less [OF es, of 0] len by simp
  have "hd ?es < 10" using es ne by simp
  then have "hd (map digit_char ?es) \<noteq> 43" "hd (map digit_char ?es) \<noteq> 45"
    using ne by (simp_all add: hd_map digit_char_neq)
  then show "ParseInt (map digit_char ?es) 10 = (int (num_value 10 0 ?es), None)"
    using ParseUint_digits [OF ne es] len ne val by (intro ParseInt_unsigned) auto
qed

lemma digit_in_pax_digits: "d < 10 \<Longrightarrow> digit_char d \<in> pax_digits"
proof -
  assume "d < 10"
  then have "d \<in> {0, 1, 2, 3, 4, 5, 6, 7, 8, 9}" by auto
  then show ?thesis by (auto simp: pax_digits_def digit_char_def)
qed

lemma parsePAXTime_split:
  assumes "46 \<notin> set ss" "ParseInt ss 10 = (secs, None)" "ss \<noteq> []" "\<forall>d \<in> set ds. d < 10"
  shows "parsePAXTime (ss @ 46 # map digit_char ds) =
    Inr (time_Unix secs ((if hd ss = 45 then - 1 else 1) * int (num_value 10 0 (nano_digits ds))))"
proof (cases "ds = []")
  case True
  then show ?thesis
    using assms by (simp add: parsePAXTime_def IndexByte_append nano_digits_def num_value_def numeral_eq_Suc)
next
  case False
  have "set (map digit_char ds) \<subseteq> pax_digits" using assms(4) by (auto simp: digit_in_pax_digits)
  then have trim: "Trim (map digit_char ds) pax_digits = []" by (rule Trim_all)
  show ?thesis
    unfolding parsePAXTime_def
    using assms(1-3) False trim ParseInt_nano_digits [OF assms(4)]
    by (simp add: IndexByte_append nano_digits_text Let_def del: length_map)
qed

text \<open>
  C34. PAX timestamps denote decimal seconds: an optional sign, the seconds, a point and a
  fraction give the instant that many nanoseconds away from the epoch, where digits of the
  fraction beyond the ninth are dropped.
\<close>

theorem parsePAXTime_value:
  assumes "s < 2 ^ 62" "\<forall>d \<in> set ds. d < 10"
  shows "\<exists>t. parsePAXTime ((if neg then [45] else []) @ FormatUint 10 s @ 46 # map digit_char ds) = Inr t \<and>
    unix_nanos t = (if neg then - 1 else 1) * (int s * 1000000000 + int (num_value 10 0 (nano_digits ds)))"
proof -
  let ?ss = "(if neg then [45] else []) @ FormatUint 10 s"
  let ?n = "int (num_value 10 0 (nano_digits ds))"
  have d: "hd (FormatUint 10 s) \<noteq> 45" "hd (FormatUint 10 s) \<noteq> 43"
    using hd_FormatUint_digit [of 10 s] by simp_all
  have u: "ParseUint (FormatUint 10 s) 10 = (s, None)"
    using ParseUint_FormatUint [of 10 s 0] assms(1) by simp
  have "ParseInt ?ss 10 = ((if neg then - 1 else 1) * int s, None)"
    using u assms(1) d by (simp add: ParseInt_negative ParseInt_unsigned)
  moreover have "46 \<notin> set ?ss" using FormatUint_not_in [of 10 46 s] by simp
  ultimately have "parsePAXTime (?ss @ 46 # map digit_char ds) =
      Inr (time_Unix ((if neg then - 1 else 1) * int s) ((if neg then - 1 else 1) * ?n))"
    using parsePAXTime_split [of ?ss _ ds] assms(2) d by (cases neg) auto
  moreover have "\<bar>(if neg then - 1 else 1) * int s\<bar> \<le> 2 ^ 62" using assms(1) by simp
  moreover have "\<bar>(if neg then - 1 else 1) * ?n\<bar> < 1000000000"
    using ParseInt_nano_digits(2) [OF assms(2)] by simp
  ultimately show ?thesis
    by (simp add: unix_nanos_time_Unix algebra_simps)
qed

theorem parsePAXTime_value_witness:
  "\<exists>t. parsePAXTime ([45] @ FormatUint 10 1 @ 46 # map digit_char [5]) = Inr t \<and>
    unix_nanos t = - 1500000000"
proof -
  have "replicate 9 (0 :: nat) = [0, 0, 0, 0, 0, 0, 0, 0, 0]" by (simp add: numeral_eq_Suc)
  then have "num_value 10 0 (nano_digits [5]) = 500000000" by (simp add: nano_digits_def)
  then show ?thesis using parsePAXTime_value [of 1 "[5]" True] by simp
qed

end
