(* ===== verification/Tar_Format.thy ===== *)
theory Tar_Format
  imports Tar_Strconv
begin

text \<open>
  The file \<^verbatim>\<open>tar/format.go\<close>: the layout of a header block in the V7, GNU, STAR and
  USTAR formats, the magic values that tell them apart, the checksum, and the arrays of sparse
  entries. A block is a list of 512 bytes; a field of a header is a pair of an offset and a
  length, \<open>get_field\<close> is the slice the Go accessor returns and \<open>put_field\<close> what
  remains after that slice has been written to.
\<close>

section \<open>Formats and magic values\<close>

definition formatUnknown :: nat where [simp]: "formatUnknown = 0"
definition formatV7 :: nat where [simp]: "formatV7 = 1"
definition formatGNU :: nat where [simp]: "formatGNU = 2"
definition formatSTAR :: nat where [simp]: "formatSTAR = 4"
definition formatUSTAR :: nat where [simp]: "formatUSTAR = 8"
definition formatPAX :: nat where [simp]: "formatPAX = 16"

definition magicGNU :: gostring where "magicGNU = str ''ustar ''"
definition versionGNU :: gostring where "versionGNU = [32, 0]"
definition magicUSTAR :: gostring where "magicUSTAR = str ''ustar'' @ [0]"
definition versionUSTAR :: gostring where "versionUSTAR = str ''00''"
definition trailerSTAR :: gostring where "trailerSTAR = str ''tar'' @ [0]"

lemmas magic_defs = magicGNU_def versionGNU_def magicUSTAR_def versionUSTAR_def trailerSTAR_def

abbreviation blockSize :: int where "blockSize \<equiv> 512"
abbreviation nameSize :: nat where "nameSize \<equiv> 100"
abbreviation prefixSize :: nat where "prefixSize \<equiv> 155"

type_synonym block = "byte list"

definition zeroBlock :: block where
  "zeroBlock = replicate 512 0"

section \<open>Fields\<close>

type_synonym field = "nat \<times> nat"

definition get_field :: "block \<Rightarrow> field \<Rightarrow> byte list" where
  "get_field b fd = bslice b (fst fd) (snd fd)"

definition put_field :: "block \<Rightarrow> field \<Rightarrow> byte list \<Rightarrow> block" where
  "put_field b fd xs = bstore b (fst fd) xs"

named_theorems field_defs "layout of the header fields"

definition v7_Name :: field where [field_defs]: "v7_Name = (0, 100)"
definition v7_Mode :: field where [field_defs]: "v7_Mode = (100, 8)"
definition v7_UID :: field where [field_defs]: "v7_UID = (108, 8)"
definition v7_GID :: field where [field_defs]: "v7_GID = (116, 8)"
definition v7_Size :: field where [field_defs]: "v7_Size = (124, 12)"
definition v7_ModTime :: field where [field_defs]: "v7_ModTime = (136, 12)"
definition v7_Chksum :: field where [field_defs]: "v7_Chksum = (148, 8)"
definition v7_TypeFlag :: field where [field_defs]: "v7_TypeFlag = (156, 1)"
definition v7_LinkName :: field where [field_defs]: "v7_LinkName = (157, 100)"

definition gnu_Magic :: field where [field_defs]: "gnu_Magic = (257, 6)"
definition gnu_Version :: field where [field_defs]: "gnu_Version = (263, 2)"
definition gnu_AccessTime :: field where [field_defs]: "gnu_AccessTime = (345, 12)"
definition gnu_ChangeTime :: field where [field_defs]: "gnu_ChangeTime = (357, 12)"
definition gnu_Sparse :: field where [field_defs]: "gnu_Sparse = (386, 24 * 4 + 1)"
definition gnu_RealSize :: field where [field_defs]: "gnu_RealSize = (483, 12)"

definition star_Magic :: field where [field_defs]: "star_Magic = (257, 6)"
definition star_Version :: field where [field_defs]: "star_Version = (263, 2)"
definition star_Prefix :: field where [field_defs]: "star_Prefix = (345, 131)"
definition star_AccessTime :: field where [field_defs]: "star_AccessTime = (476, 12)"
definition star_ChangeTime :: field where [field_defs]: "star_ChangeTime = (488, 12)"
definition star_Trailer :: field where [field_defs]: "star_Trailer = (508, 4)"

definition ustar_Magic :: field where [field_defs]: "ustar_Magic = (257, 6)"
definition ustar_Version :: field where [field_defs]: "ustar_Version = (263, 2)"
definition ustar_UserName :: field where [field_defs]: "ustar_UserName = (265, 32)"
definition ustar_GroupName :: field where [field_defs]: "ustar_GroupName = (297, 32)"
definition ustar_DevMajor :: field where [field_defs]: "ustar_DevMajor = (329, 8)"
definition ustar_DevMinor :: field where [field_defs]: "ustar_DevMinor = (337, 8)"
definition ustar_Prefix :: field where [field_defs]: "ustar_Prefix = (345, 155)"

section \<open>Checksum\<close>

definition checksum_bytes :: "block \<Rightarrow> byte list" where
  "checksum_bytes b = map (\<lambda>(i, c). if 148 \<le> i \<and> i < 156 then 32 else c) (enumerate 0 b)"

definition ComputeChecksum :: "block \<Rightarrow> int \<times> int" where
  "ComputeChecksum b =
     (sum_list (map (\<lambda>c. uint c) (checksum_bytes b)), sum_list (map (\<lambda>c. sint c) (checksum_bytes b)))"

definition GetFormat :: "block \<Rightarrow> nat" where
  "GetFormat b =
     (let (chk, perr) = parseOctal None (get_field b v7_Chksum);
          (chksum1, chksum2) = ComputeChecksum b
      in if perr \<noteq> None \<or> (chk \<noteq> chksum1 \<and> chk \<noteq> chksum2) then formatUnknown
         else
           let magic = get_field b ustar_Magic;
               version = get_field b ustar_Version;
               trailer = get_field b star_Trailer
           in if magic = magicUSTAR \<and> trailer = trailerSTAR then formatSTAR
              else if magic = magicUSTAR then formatUSTAR
              else if magic = magicGNU \<and> version = versionGNU then formatGNU
              else formatV7)"

definition put_magic :: "nat \<Rightarrow> block \<Rightarrow> block result" where
  "put_magic format b =
     (if format = formatV7 then Inr b
      else if format = formatGNU then
        Inr (put_field (put_field b gnu_Magic magicGNU) gnu_Version versionGNU)
      else if format = formatSTAR then
        Inr (put_field (put_field (put_field b star_Magic magicUSTAR) star_Version versionUSTAR)
               star_Trailer trailerSTAR)
      else if format = formatUSTAR \<or> format = formatPAX then
        Inr (put_field (put_field b ustar_Magic magicUSTAR) ustar_Version versionUSTAR)
      else Inl (Panic ''invalid format''))"

definition put_checksum :: "block \<Rightarrow> block" where
  "put_checksum b =
     (let fld = get_field b v7_Chksum;
          chksum = fst (ComputeChecksum b)
      in put_field b v7_Chksum (snd (formatOctal None (take 7 fld) chksum) @ [32]))"

definition SetFormat :: "nat \<Rightarrow> block \<Rightarrow> block result" where
  "SetFormat format b = (case put_magic format b of Inl e \<Rightarrow> Inl e | Inr b' \<Rightarrow> Inr (put_checksum b'))"

section \<open>Sparse entries\<close>

definition MaxEntries :: "byte list \<Rightarrow> nat" where
  "MaxEntries s = length s div 24"

definition IsExtended :: "byte list \<Rightarrow> byte list" where
  "IsExtended s = bslice s (24 * MaxEntries s) 1"

definition Entry :: "byte list \<Rightarrow> nat \<Rightarrow> byte list" where
  "Entry s i = drop (i * 24) s"

definition node_Offset :: "byte list \<Rightarrow> byte list" where
  "node_Offset s = bslice s 0 12"

definition node_NumBytes :: "byte list \<Rightarrow> byte list" where
  "node_NumBytes s = bslice s 12 12"

section \<open>Reading and writing fields\<close>

lemma length_get_field: "fst fd + snd fd \<le> length b \<Longrightarrow> length (get_field b fd) = snd fd"
  by (simp add: get_field_def length_bslice)

lemma length_put_field [simp]:
  "fst fd + length xs \<le> length b \<Longrightarrow> length (put_field b fd xs) = length b"
  by (simp add: put_field_def length_bstore)

lemma get_put_same:
  "fst fd + snd fd \<le> length b \<Longrightarrow> length xs = snd fd \<Longrightarrow> get_field (put_field b fd xs) fd = xs"
  by (simp add: get_field_def put_field_def slice_simps)

lemma get_put_other:
  "fst fd + length xs \<le> length b \<Longrightarrow> fst fe + snd fe \<le> length b \<Longrightarrow>
     fst fe + snd fe \<le> fst fd \<or> fst fd + length xs \<le> fst fe \<Longrightarrow>
     get_field (put_field b fd xs) fe = get_field b fe"
  by (simp add: get_field_def put_field_def slice_simps)

lemmas block_simps = length_get_field get_put_same get_put_other

section \<open>Facts on the checksum\<close>

lemma length_checksum_bytes [simp]: "length (checksum_bytes b) = length b"
  by (simp add: checksum_bytes_def)

lemma nth_checksum_bytes:
  "i < length b \<Longrightarrow> checksum_bytes b ! i = (if 148 \<le> i \<and> i < 156 then 32 else b ! i)"
  by (simp add: checksum_bytes_def nth_enumerate_eq)

lemma checksum_bytes_eq:
  assumes "156 \<le> length b"
  shows "checksum_bytes b = take 148 b @ replicate 8 32 @ drop 156 b"
proof (rule nth_equalityI)
  show "length (checksum_bytes b) = length (take 148 b @ replicate 8 32 @ drop 156 b)"
    using assms by simp
next
  fix i assume "i < length (checksum_bytes b)"
  then show "checksum_bytes b ! i = (take 148 b @ replicate 8 32 @ drop 156 b) ! i"
    using assms by (auto simp: nth_checksum_bytes nth_append)
qed

lemma checksum_bytes_put_checksum:
  assumes "length b = 512" "length xs = 8"
  shows "checksum_bytes (put_field b v7_Chksum xs) = checksum_bytes b"
  using assms by (simp add: checksum_bytes_eq put_field_def v7_Chksum_def bstore_def)

lemma sum_list_bounds:
  fixes f :: "'a \<Rightarrow> int"
  assumes "\<And>x. x \<in> set xs \<Longrightarrow> 0 \<le> f x \<and> f x \<le> m"
  shows "0 \<le> sum_list (map f xs) \<and> sum_list (map f xs) \<le> m * int (length xs)"
  using assms by (induction xs) (force simp: algebra_simps)+

lemma uint_byte_bounds: "0 \<le> uint (c :: byte) \<and> uint c \<le> 255"
  using uint_lt2p [of c] by simp

lemma checksum_bounds:
  assumes "length b = 512"
  shows "256 \<le> fst (ComputeChecksum b) \<and> fst (ComputeChecksum b) \<le> 128776"
proof -
  let ?f = "\<lambda>c :: byte. uint c"
  have "fst (ComputeChecksum b) =
      sum_list (map ?f (take 148 b)) + 256 + sum_list (map ?f (drop 156 b))"
    using assms by (simp add: ComputeChecksum_def checksum_bytes_eq sum_list_replicate)
  moreover have "0 \<le> sum_list (map ?f (take 148 b)) \<and> sum_list (map ?f (take 148 b)) \<le> 255 * 148"
    using sum_list_bounds [of "take 148 b" ?f 255] uint_byte_bounds assms by simp
  moreover have "0 \<le> sum_list (map ?f (drop 156 b)) \<and> sum_list (map ?f (drop 156 b)) \<le> 255 * 356"
    using sum_list_bounds [of "drop 156 b" ?f 255] uint_byte_bounds assms by simp
  ultimately show ?thesis by linarith
qed

lemma length_octal_text: "length (FormatUint 8 (nat x)) < n \<Longrightarrow> length (octal_text n x) = n - 1"
  by (simp add: octal_text_def)

lemma put_checksum_field:
  assumes "length b = 512"
  shows "put_checksum b = put_field b v7_Chksum (octal_text 7 (fst (ComputeChecksum b)) @ [0, 32])"
    and "length (octal_text 7 (fst (ComputeChecksum b)) @ [0, 32]) = 8"
proof -
  let ?c = "fst (ComputeChecksum b)"
  have "nat ?c < 8 ^ 6" using checksum_bounds [OF assms] by (simp add: nat_less_iff)
  then have d: "length (FormatUint 8 (nat ?c)) < 7"
    using length_digits_of_le [of 8 "nat ?c" 6] by (simp add: length_FormatUint)
  have len: "length (take 7 (get_field b v7_Chksum)) = 7"
    using assms by (simp add: length_get_field v7_Chksum_def)
  show "put_checksum b = put_field b v7_Chksum (octal_text 7 ?c @ [0, 32])"
    using checksum_bounds [OF assms] d len by (simp add: put_checksum_def formatOctal_nonneg)
  show "length (octal_text 7 ?c @ [0, 32]) = 8"
    using d by (simp add: length_octal_text)
qed

lemma length_put_checksum [simp]: "length b = 512 \<Longrightarrow> length (put_checksum b) = 512"
  using put_checksum_field [of b] by (simp add: v7_Chksum_def)

lemma put_checksum_other:
  assumes "length b = 512" "fst fd + snd fd \<le> 148 \<or> 156 \<le> fst fd" "fst fd + snd fd \<le> 512"
  shows "get_field (put_checksum b) fd = get_field b fd"
  using assms put_checksum_field(2) [OF assms(1)]
  by (auto simp: put_checksum_field(1) v7_Chksum_def get_put_other)

text \<open>After the checksum has been stored, the block passes the checksum test of the reader.\<close>

lemma put_checksum_valid:
  assumes "length b = 512"
  shows "parseOctal None (get_field (put_checksum b) v7_Chksum) = (fst (ComputeChecksum (put_checksum b)), None)"
proof -
  let ?c = "fst (ComputeChecksum b)"
  have "ComputeChecksum (put_checksum b) = ComputeChecksum b"
    using assms put_checksum_field [OF assms] by (simp add: ComputeChecksum_def checksum_bytes_put_checksum)
  moreover have "get_field (put_checksum b) v7_Chksum = octal_text 7 ?c @ [0, 32]"
    using assms put_checksum_field [OF assms] by (simp add: get_put_same v7_Chksum_def)
  moreover have "parseOctal None (octal_text 7 ?c @ [0, 32]) = (?c, None)"
    using checksum_bounds [OF assms] by (intro parseOctal_text) (auto simp: in_i64_def)
  ultimately show ?thesis by simp
qed

lemma GetFormat_put_checksum:
  assumes "length b = 512"
  shows "GetFormat (put_checksum b) =
    (if get_field b ustar_Magic = magicUSTAR \<and> get_field b star_Trailer = trailerSTAR then formatSTAR
     else if get_field b ustar_Magic = magicUSTAR then formatUSTAR
     else if get_field b ustar_Magic = magicGNU \<and> get_field b ustar_Version = versionGNU then formatGNU
     else formatV7)"
  unfolding GetFormat_def put_checksum_valid [OF assms] Let_def
  using assms by (simp add: put_checksum_other field_defs split: prod.split)

text \<open>Fields that no format's magic values, trailer or checksum touch.\<close>

definition plain_field :: "field \<Rightarrow> bool" where
  "plain_field fd \<longleftrightarrow> fst fd + snd fd \<le> 148 \<or> (156 \<le> fst fd \<and> fst fd + snd fd \<le> 257) \<or>
     (265 \<le> fst fd \<and> fst fd + snd fd \<le> 508)"

lemma SetFormat_cases:
  assumes "length b = 512" "format \<in> {formatGNU, formatSTAR, formatUSTAR, formatPAX}"
  obtains b' where "SetFormat format b = Inr (put_checksum b')" "length b' = 512"
    and "put_magic format b = Inr b'"
proof -
  obtain b' where "put_magic format b = Inr b'" "length b' = 512"
    using assms by (auto simp: put_magic_def field_defs magic_defs)
  then show thesis using that [of b'] by (simp add: SetFormat_def)
qed

lemma put_magic_plain:
  assumes "length b = 512" "put_magic format b = Inr b'" "plain_field fd"
  shows "get_field b' fd = get_field b fd"
  using assms
  by (auto simp: put_magic_def plain_field_def field_defs magic_defs get_put_other split: if_splits)

lemma SetFormat_plain:
  assumes "length b = 512" "SetFormat format b = Inr b'" "plain_field fd"
  shows "length b' = 512" "get_field b' fd = get_field b fd"
proof -
  obtain b1 where b1: "put_magic format b = Inr b1" "b' = put_checksum b1"
    using assms(2) by (auto simp: SetFormat_def split: sum.splits)
  have len: "length b1 = 512"
    using assms(1) b1(1) by (auto simp: put_magic_def field_defs magic_defs split: if_splits)
  then show "length b' = 512" using b1 by simp
  have "get_field b' fd = get_field b1 fd"
    using len assms(3) b1(2) put_checksum_other [of b1 fd] by (auto simp: plain_field_def)
  then show "get_field b' fd = get_field b fd"
    using put_magic_plain [OF assms(1) b1(1) assms(3)] by simp
qed

lemma SetFormat_detected:
  assumes "length b = 512" "format \<in> {formatGNU, formatSTAR, formatUSTAR, formatPAX}"
  shows "\<exists>b'. SetFormat format b = Inr b' \<and> length b' = 512 \<and>
    (\<forall>fd. plain_field fd \<longrightarrow> get_field b' fd = get_field b fd) \<and>
    GetFormat b' = (if format = formatGNU then formatGNU
      else if format = formatSTAR \<or> get_field b star_Trailer = trailerSTAR then formatSTAR
      else formatUSTAR)"
proof -
  obtain b1 where b1: "SetFormat format b = Inr (put_checksum b1)" "length b1 = 512"
      "put_magic format b = Inr b1"
    using assms by (rule SetFormat_cases)
  have "GetFormat (put_checksum b1) = (if format = formatGNU then formatGNU
      else if format = formatSTAR \<or> get_field b star_Trailer = trailerSTAR then formatSTAR
      else formatUSTAR)"
    using assms b1(2,3)
    by (auto simp: GetFormat_put_checksum put_magic_def field_defs magic_defs block_simps)
  then show ?thesis using b1 SetFormat_plain [OF assms(1) b1(1)] by auto
qed

text \<open>
  C30. Setting a format is detected again: after \<open>SetFormat\<close> the checksum test passes and
  \<open>GetFormat\<close> reports GNU for GNU, STAR for STAR, and USTAR for USTAR and PAX unless the last
  four bytes of the block happen to be the STAR trailer; no other field changes.
\<close>

theorem GetFormat_SetFormat:
  assumes "length b = 512" "format \<in> {formatGNU, formatSTAR, formatUSTAR, formatPAX}"
  shows "\<exists>b'. SetFormat format b = Inr b' \<and> length b' = 512 \<and>
    (\<forall>fd. plain_field fd \<longrightarrow> get_field b' fd = get_field b fd) \<and>
    GetFormat b' = (if format = formatGNU then formatGNU
      else if format = formatSTAR \<or> get_field b star_Trailer = trailerSTAR then formatSTAR
      else formatUSTAR)"
  using assms by (rule SetFormat_detected)

theorem GetFormat_SetFormat_witness:
  "\<exists>b'. SetFormat formatGNU zeroBlock = Inr b' \<and> length b' = 512 \<and>
    (\<forall>fd. plain_field fd \<longrightarrow> get_field b' fd = get_field zeroBlock fd) \<and> GetFormat b' = formatGNU"
  using GetFormat_SetFormat [of zeroBlock formatGNU] by (simp add: zeroBlock_def)

text \<open>
  The checksum of a block lies between 256 and 128776 and does not depend on what the
  checksum field holds, so that its octal form always fits the seven bytes the writer gives it.
\<close>

lemma ComputeChecksum_range:
  assumes "length b = 512" "length xs = 8"
  shows "ComputeChecksum (put_field b v7_Chksum xs) = ComputeChecksum b \<and>
    256 \<le> fst (ComputeChecksum b) \<and> fst (ComputeChecksum b) \<le> 128776 \<and>
    fst (formatOctal None (replicate 7 0) (fst (ComputeChecksum b))) = None"
proof -
  have "nat (fst (ComputeChecksum b)) < 8 ^ 6" using checksum_bounds [OF assms(1)] by (simp add: nat_less_iff)
  then have "length (FormatUint 8 (nat (fst (ComputeChecksum b)))) \<le> 7"
    using length_digits_of_le [of 8 "nat (fst (ComputeChecksum b))" 6] by (simp add: length_FormatUint)
  then show ?thesis
    using assms checksum_bounds [OF assms(1)]
    by (simp add: ComputeChecksum_def checksum_bytes_put_checksum formatOctal_nonneg)
qed

text \<open>A block of zeros is no header: it is the end marker of an archive.\<close>

lemma GetFormat_zeroBlock: "GetFormat zeroBlock = formatUnknown"
proof -
  have "parseOctal None (replicate 8 0) = (0, None)"
    by (simp add: parseOctal_def Trim_all)
  moreover have "get_field zeroBlock v7_Chksum = replicate 8 0"
    by (simp add: zeroBlock_def get_field_def v7_Chksum_def bslice_replicate)
  moreover have "ComputeChecksum zeroBlock = (256, 256)"
    by (simp add: ComputeChecksum_def checksum_bytes_eq zeroBlock_def sum_list_replicate)
  ultimately show ?thesis by (simp add: GetFormat_def)
qed

end
