(* ===== verification/Go_Path.thy ===== *)
theory Go_Path
  imports Go_Strconv
begin

text \<open>
  Go's \<^verbatim>\<open>path\<close> package as far as the archive code uses it: \<^verbatim>\<open>Split\<close>,
  \<^verbatim>\<open>Clean\<close>, \<^verbatim>\<open>Join\<close> and \<^verbatim>\<open>Base\<close> on slash-separated names.
  \<open>path_Clean\<close> follows the documented rules on the list of components: empty and
  \<^verbatim>\<open>.\<close> components vanish, \<^verbatim>\<open>..\<close> removes the component before it, and
  vanishes at the root.
\<close>

definition path_Split :: "gostring \<Rightarrow> gostring \<times> gostring" where
  "path_Split p = (case LastIndexByte p 47 of None \<Rightarrow> ([], p) | Some i \<Rightarrow> (take (i + 1) p, drop (i + 1) p))"

fun clean_components :: "bool \<Rightarrow> gostring list \<Rightarrow> gostring list \<Rightarrow> gostring list" where
  "clean_components rooted out [] = rev out"
| "clean_components rooted out (c # cs) =
     (if c = [] \<or> c = [46] then clean_components rooted out cs
      else if c = [46, 46] then
        (case out of
           [] \<Rightarrow> clean_components rooted (if rooted then [] else [c]) cs
         | d # ds \<Rightarrow> if d = [46, 46] then clean_components rooted (c # out) cs
                     else clean_components rooted ds cs)
      else clean_components rooted (c # out) cs)"

definition path_Clean :: "gostring \<Rightarrow> gostring" where
  "path_Clean p =
     (if p = [] then [46]
      else
        let rooted = (hd p = 47);
            body = Join (clean_components rooted [] (Split p 47)) 47
        in if rooted then 47 # body else if body = [] then [46] else body)"

fun path_Join :: "gostring list \<Rightarrow> gostring" where
  "path_Join [] = []"
| "path_Join (e # es) = (if e = [] then path_Join es else path_Clean (Join (e # es) 47))"

definition path_Base :: "gostring \<Rightarrow> gostring" where
  "path_Base p =
     (if p = [] then [46]
      else
        let q = rev (dropWhile (\<lambda>c. c = 47) (rev p));
            base = snd (path_Split q)
        in if base = [] then [47] else base)"

end
