(* ===== verification/Go_Os.thy ===== *)
theory Go_Os
  imports Go_Prelude
begin

text \<open>
  The bits of \<^verbatim>\<open>os.FileMode\<close>. \<^verbatim>\<open>ModeType\<close> is the mask of the type bits; since Go
  1.12, the version the module asks for, it includes \<^verbatim>\<open>ModeCharDevice\<close>.
\<close>

type_synonym filemode = "32 word"

definition ModeDir :: filemode where "ModeDir = 2 ^ 31"
definition ModeSymlink :: filemode where "ModeSymlink = 2 ^ 27"
definition ModeDevice :: filemode where "ModeDevice = 2 ^ 26"
definition ModeNamedPipe :: filemode where "ModeNamedPipe = 2 ^ 25"
definition ModeSocket :: filemode where "ModeSocket = 2 ^ 24"
definition ModeSetuid :: filemode where "ModeSetuid = 2 ^ 23"
definition ModeSetgid :: filemode where "ModeSetgid = 2 ^ 22"
definition ModeCharDevice :: filemode where "ModeCharDevice = 2 ^ 21"
definition ModeSticky :: filemode where "ModeSticky = 2 ^ 20"
definition ModeIrregular :: filemode where "ModeIrregular = 2 ^ 19"

definition ModeType :: filemode where
  "ModeType = ModeDir OR ModeSymlink OR ModeNamedPipe OR ModeSocket OR ModeDevice OR ModeCharDevice OR ModeIrregular"

lemmas mode_defs = ModeDir_def ModeSymlink_def ModeDevice_def ModeNamedPipe_def ModeSocket_def ModeSetuid_def
  ModeSetgid_def ModeCharDevice_def ModeSticky_def ModeIrregular_def ModeType_def

text \<open>\<open>bit_if c x\<close> is the bits \<open>x\<close> where the condition holds and nothing otherwise.\<close>

definition bit_if :: "bool \<Rightarrow> filemode \<Rightarrow> filemode" where
  "bit_if c x = (if c then x else 0)"

end
