(* ===== verification/Tar_Common.thy ===== *)
theory Tar_Common
  imports Tar_Format Go_Path Go_Os
begin

text \<open>
  The files \<^verbatim>\<open>tar/common.go\<close>, \<^verbatim>\<open>tar/stat_unix.go\<close> and \<^verbatim>\<open>tar/stat_atim.go\<close>: the header of an
  archive entry, its view as an \<^verbatim>\<open>os.FileInfo\<close>, and the construction of a header from
  a \<^verbatim>\<open>os.FileInfo\<close>. A file mode is a 32-bit word with the bits of
  \<^verbatim>\<open>os.FileMode\<close>. The map of extended attributes is an association list, or absent
  for a nil map.
\<close>

section \<open>Header\<close>

definition TypeReg :: byte where [simp]: "TypeReg = 48"
definition TypeRegA :: byte where [simp]: "TypeRegA = 0"
definition TypeLink :: byte where [simp]: "TypeLink = 49"
definition TypeSymlink :: byte where [simp]: "TypeSymlink = 50"
definition TypeChar :: byte where [simp]: "TypeChar = 51"
definition TypeBlock :: byte where [simp]: "TypeBlock = 52"
definition TypeDir :: byte where [simp]: "TypeDir = 53"
definition TypeFifo :: byte where [simp]: "TypeFifo = 54"
definition TypeXHeader :: byte where [simp]: "TypeXHeader = 120"
definition TypeGNULongName :: byte where [simp]: "TypeGNULongName = 76"
definition TypeGNULongLink :: byte where [simp]: "TypeGNULongLink = 75"
definition TypeGNUSparse :: byte where [simp]: "TypeGNUSparse = 83"

type_synonym gomap = "(gostring \<times> gostring) list"

record Header =
  h_Name :: gostring
  h_Mode :: int
  h_Uid :: int
  h_Gid :: int
  h_Size :: int
  h_ModTime :: gotime
  h_Typeflag :: byte
  h_Linkname :: gostring
  h_Uname :: gostring
  h_Gname :: gostring
  h_Devmajor :: int
  h_Devminor :: int
  h_AccessTime :: gotime
  h_ChangeTime :: gotime
  h_Xattrs :: "gomap option"

definition new_Header :: Header where
  "new_Header =
     \<lparr>h_Name = [], h_Mode = 0, h_Uid = 0, h_Gid = 0, h_Size = 0, h_ModTime = zero_time,
      h_Typeflag = 0, h_Linkname = [], h_Uname = [], h_Gname = [], h_Devmajor = 0, h_Devminor = 0,
      h_AccessTime = zero_time, h_ChangeTime = zero_time, h_Xattrs = None\<rparr>"

definition isHeaderOnlyType :: "byte \<Rightarrow> bool" where
  "isHeaderOnlyType flag \<longleftrightarrow>
     flag \<in> set [TypeLink, TypeSymlink, TypeChar, TypeBlock, TypeDir, TypeFifo]"

section \<open>File modes\<close>

definition c_ISUID :: int where [simp]: "c_ISUID = 2048"
definition c_ISGID :: int where [simp]: "c_ISGID = 1024"
definition c_ISVTX :: int where [simp]: "c_ISVTX = 512"
definition c_ISDIR :: filemode where [simp]: "c_ISDIR = 16384"
definition c_ISFIFO :: filemode where [simp]: "c_ISFIFO = 4096"
definition c_ISLNK :: filemode where [simp]: "c_ISLNK = 40960"
definition c_ISBLK :: filemode where [simp]: "c_ISBLK = 24576"
definition c_ISCHR :: filemode where [simp]: "c_ISCHR = 8192"
definition c_ISSOCK :: filemode where [simp]: "c_ISSOCK = 49152"

definition info_Mode :: "Header \<Rightarrow> filemode" where
  "info_Mode h =
     (let w = word_of_int (h_Mode h) :: filemode;
          mode = w AND 511;
          mode = mode OR bit_if (h_Mode h AND c_ISUID \<noteq> 0) ModeSetuid;
          mode = mode OR bit_if (h_Mode h AND c_ISGID \<noteq> 0) ModeSetgid;
          mode = mode OR bit_if (h_Mode h AND c_ISVTX \<noteq> 0) ModeSticky;
          m = w AND NOT 4095;
          mode = mode OR bit_if (m = c_ISDIR) ModeDir;
          mode = mode OR bit_if (m = c_ISFIFO) ModeNamedPipe;
          mode = mode OR bit_if (m = c_ISLNK) ModeSymlink;
          mode = mode OR bit_if (m = c_ISBLK) ModeDevice;
          mode = mode OR bit_if (m = c_ISCHR) (ModeDevice OR ModeCharDevice);
          mode = mode OR bit_if (m = c_ISSOCK) ModeSocket;
          flag = h_Typeflag h
      in if flag = TypeSymlink then mode OR ModeSymlink
         else if flag = TypeChar then mode OR ModeDevice OR ModeCharDevice
         else if flag = TypeBlock then mode OR ModeDevice
         else if flag = TypeDir then mode OR ModeDir
         else if flag = TypeFifo then mode OR ModeNamedPipe
         else mode)"

definition info_IsDir :: "Header \<Rightarrow> bool" where
  "info_IsDir h \<longleftrightarrow> info_Mode h AND ModeDir \<noteq> 0"

definition info_Name :: "Header \<Rightarrow> gostring" where
  "info_Name h = (if info_IsDir h then path_Base (path_Clean (h_Name h)) else path_Base (h_Name h))"

section \<open>Headers from file information\<close>

text \<open>
  An \<^verbatim>\<open>os.FileInfo\<close> is the record of what its methods return. Its
  \<^verbatim>\<open>Sys\<close> value is a tar header, the result of a Unix stat call, or something else.
\<close>

record timespec =
  tv_Sec :: int
  tv_Nsec :: int

record stat_t =
  st_Uid :: int
  st_Gid :: int
  st_Atim :: timespec
  st_Ctim :: timespec

datatype sys_info = SysHeader Header | SysStat stat_t | SysOther

record file_info =
  fi_Name :: gostring
  fi_Size :: int
  fi_Mode :: filemode
  fi_ModTime :: gotime
  fi_IsDir :: bool
  fi_Sys :: sys_info

definition header_FileInfo :: "Header \<Rightarrow> file_info" where
  "header_FileInfo h =
     \<lparr>fi_Name = info_Name h, fi_Size = h_Size h, fi_Mode = info_Mode h, fi_ModTime = h_ModTime h,
      fi_IsDir = info_IsDir h, fi_Sys = SysHeader h\<rparr>"

text \<open>\<^verbatim>\<open>fm.IsRegular()\<close>: no type bit is set.\<close>

definition IsRegular :: "filemode \<Rightarrow> bool" where
  "IsRegular m \<longleftrightarrow>
     m AND (ModeDir OR ModeSymlink OR ModeNamedPipe OR ModeSocket OR ModeDevice OR ModeCharDevice
            OR ModeIrregular) = 0"

definition statAtime :: "stat_t \<Rightarrow> gotime" where
  "statAtime st = time_Unix (tv_Sec (st_Atim st)) (tv_Nsec (st_Atim st))"

definition statCtime :: "stat_t \<Rightarrow> gotime" where
  "statCtime st = time_Unix (tv_Sec (st_Ctim st)) (tv_Nsec (st_Ctim st))"

definition statUnix :: "file_info \<Rightarrow> Header \<Rightarrow> Header" where
  "statUnix fi h =
     (case fi_Sys fi of
        SysStat st \<Rightarrow>
          h\<lparr>h_Uid := st_Uid st, h_Gid := st_Gid st, h_AccessTime := statAtime st,
            h_ChangeTime := statCtime st\<rparr>
      | _ \<Rightarrow> h)"

definition set_type :: "file_info \<Rightarrow> gostring \<Rightarrow> Header \<Rightarrow> Header result" where
  "set_type fi link h =
     (let fm = fi_Mode fi
      in if IsRegular fm then Inr (h\<lparr>h_Typeflag := TypeReg, h_Size := fi_Size fi\<rparr>)
         else if fi_IsDir fi then Inr (h\<lparr>h_Typeflag := TypeDir, h_Name := h_Name h @ [47]\<rparr>)
         else if fm AND ModeSymlink \<noteq> 0 then Inr (h\<lparr>h_Typeflag := TypeSymlink, h_Linkname := link\<rparr>)
         else if fm AND ModeDevice \<noteq> 0 then
           Inr (h\<lparr>h_Typeflag := if fm AND ModeCharDevice \<noteq> 0 then TypeChar else TypeBlock\<rparr>)
         else if fm AND ModeNamedPipe \<noteq> 0 then Inr (h\<lparr>h_Typeflag := TypeFifo\<rparr>)
         else if fm AND ModeSocket \<noteq> 0 then Inl (ErrMsg ''archive/tar: sockets not supported'')
         else Inl (ErrMsg ''archive/tar: unknown file mode''))"

definition set_mode_bits :: "filemode \<Rightarrow> Header \<Rightarrow> Header" where
  "set_mode_bits fm h =
     (let mode = h_Mode h;
          mode = (if fm AND ModeSetuid \<noteq> 0 then mode OR c_ISUID else mode);
          mode = (if fm AND ModeSetgid \<noteq> 0 then mode OR c_ISGID else mode);
          mode = (if fm AND ModeSticky \<noteq> 0 then mode OR c_ISVTX else mode)
      in h\<lparr>h_Mode := mode\<rparr>)"

definition copy_sys :: "file_info \<Rightarrow> Header \<Rightarrow> Header" where
  "copy_sys fi h =
     (case fi_Sys fi of
        SysHeader sys \<Rightarrow>
          let h = h\<lparr>h_Uid := h_Uid sys, h_Gid := h_Gid sys, h_Uname := h_Uname sys,
                    h_Gname := h_Gname sys, h_AccessTime := h_AccessTime sys,
                    h_ChangeTime := h_ChangeTime sys, h_Xattrs := h_Xattrs sys\<rparr>
          in if h_Typeflag sys = TypeLink
             then h\<lparr>h_Typeflag := TypeLink, h_Size := 0, h_Linkname := h_Linkname sys\<rparr>
             else h
      | _ \<Rightarrow> h)"

text \<open>
  \<^verbatim>\<open>FileInfoHeader(fi, link)\<close>; \<open>None\<close> is a nil \<^verbatim>\<open>fi\<close>. The hook
  \<^verbatim>\<open>sysStat\<close> is \<open>statUnix\<close> on Unix and unset elsewhere.
\<close>

definition FileInfoHeader :: "bool \<Rightarrow> file_info option \<Rightarrow> gostring \<Rightarrow> Header result" where
  "FileInfoHeader unix fi_opt link =
     (case fi_opt of
        None \<Rightarrow> Inl (ErrMsg ''tar: FileInfo is nil'')
      | Some fi \<Rightarrow>
          let fm = fi_Mode fi;
              h = new_Header\<lparr>h_Name := fi_Name fi, h_ModTime := fi_ModTime fi,
                             h_Mode := uint (fm AND 511)\<rparr>
          in case set_type fi link h of
               Inl e \<Rightarrow> Inl e
             | Inr h \<Rightarrow>
                 let h = copy_sys fi (set_mode_bits fm h)
                 in Inr (if unix then statUnix fi h else h))"

end
