(* ===== verification/Go_IO.thy ===== *)
theory Go_IO
  imports Go_Prelude
begin

text \<open>
  Go's \<^verbatim>\<open>io.Reader\<close>, \<^verbatim>\<open>io.Seeker\<close> and \<^verbatim>\<open>io.Writer\<close> as
  method tables over a state of any type, the library loops built on them
  (\<^verbatim>\<open>io.ReadFull\<close>, \<^verbatim>\<open>ioutil.ReadAll\<close>, \<^verbatim>\<open>io.CopyN\<close> into
  \<^verbatim>\<open>ioutil.Discard\<close>), and the documented contracts of the interfaces as locales.

  A reader is abstracted by the bytes it still has to deliver (\<open>left\<close>) and the errors it
  may end with (\<open>fins\<close>); it may deliver them in pieces of any size. The facts proved in the
  locales hold for every reader or writer that keeps the contract; \<^verbatim>\<open>bytes.Reader\<close>
  and \<^verbatim>\<open>bytes.Buffer\<close> are the library's own instances, and the readers of the tar
  package are shown to be instances where they are modelled.
\<close>

section \<open>Interfaces\<close>

record 'r io_reader_ops =
  op_read :: "'r \<Rightarrow> nat \<Rightarrow> byte list \<times> go_error option \<times> 'r"
  op_seek :: "('r \<Rightarrow> int \<Rightarrow> int result \<times> 'r) option"

record 'w io_writer_ops =
  op_write :: "'w \<Rightarrow> byte list \<Rightarrow> nat \<times> go_error option \<times> 'w"

section \<open>Library loops\<close>

text \<open>
  \<^verbatim>\<open>io.ReadAtLeast\<close> with the whole buffer as the minimum. The loop runs until the
  buffer is full or the reader reports an error. Its fuel is the buffer's length plus one: a
  reader that keeps the contract delivers a byte or an error on every call, so it is enough
  (lemma \<open>ReadFull_ok\<close> and \<open>ReadFull_short\<close> below).
\<close>

fun read_full_loop :: "'r io_reader_ops \<Rightarrow> nat \<Rightarrow> 'r \<Rightarrow> nat \<Rightarrow> byte list
    \<Rightarrow> byte list \<times> go_error option \<times> 'r" where
  "read_full_loop ops 0 s n acc = (acc, Some NoProgress, s)"
| "read_full_loop ops (Suc fuel) s n acc =
     (if n \<le> length acc then (acc, None, s)
      else case op_read ops s (n - length acc) of
        (bs, e, s') \<Rightarrow>
          (let acc' = acc @ bs in
           case e of
             None \<Rightarrow> read_full_loop ops fuel s' n acc'
           | Some x \<Rightarrow>
               if n \<le> length acc' then (acc', None, s')
               else if acc' \<noteq> [] \<and> x = EOF then (acc', Some ErrUnexpectedEOF, s')
               else (acc', Some x, s')))"

definition ReadFull :: "'r io_reader_ops \<Rightarrow> 'r \<Rightarrow> nat \<Rightarrow> byte list \<times> go_error option \<times> 'r" where
  "ReadFull ops s n = read_full_loop ops (Suc n) s n []"

text \<open>
  \<^verbatim>\<open>ioutil.ReadAll\<close>: read until an error, \<open>EOF\<close> being the good end. The buffer
  offered on each call has \<^verbatim>\<open>bytes.MinRead\<close> bytes. The fuel is given by the caller:
  more than the number of bytes the reader has left is enough (lemma \<open>ReadAll_ok\<close>).
\<close>

fun ReadAll :: "'r io_reader_ops \<Rightarrow> nat \<Rightarrow> 'r \<Rightarrow> byte list \<Rightarrow> byte list \<times> go_error option \<times> 'r" where
  "ReadAll ops 0 s acc = (acc, Some NoProgress, s)"
| "ReadAll ops (Suc fuel) s acc =
     (case op_read ops s 512 of
        (bs, None, s') \<Rightarrow> ReadAll ops fuel s' (acc @ bs)
      | (bs, Some x, s') \<Rightarrow> (acc @ bs, if x = EOF then None else Some x, s'))"

text \<open>\<^verbatim>\<open>io.CopyN(ioutil.Discard, r, n)\<close>: the number of bytes skipped and the error.\<close>

fun discard_loop :: "'r io_reader_ops \<Rightarrow> nat \<Rightarrow> 'r \<Rightarrow> nat \<Rightarrow> nat \<Rightarrow> nat \<times> go_error option \<times> 'r" where
  "discard_loop ops 0 s n w = (w, Some NoProgress, s)"
| "discard_loop ops (Suc fuel) s n w =
     (if n = 0 then (w, None, s)
      else case op_read ops s (min 8192 n) of
        (bs, None, s') \<Rightarrow> discard_loop ops fuel s' (n - length bs) (w + length bs)
      | (bs, Some x, s') \<Rightarrow> (w + length bs, if x = EOF then None else Some x, s'))"

definition CopyN :: "'r io_reader_ops \<Rightarrow> 'r \<Rightarrow> int \<Rightarrow> int \<times> go_error option \<times> 'r" where
  "CopyN ops s n =
     (case discard_loop ops (Suc (nat n)) s (nat n) 0 of
        (w, e, s') \<Rightarrow>
          if int w = n then (n, None, s')
          else if int w < n \<and> e = None then (int w, Some EOF, s')
          else (int w, e, s'))"

section \<open>The reader contract\<close>

locale io_reader =
  fixes ops :: "'r io_reader_ops"
    and ok :: "'r \<Rightarrow> bool"
    and left :: "'r \<Rightarrow> byte list"
    and fins :: "'r \<Rightarrow> go_error set"
  assumes read_ok: "ok s \<Longrightarrow> op_read ops s n = (bs, e, s') \<Longrightarrow> ok s'"
    and read_bytes: "ok s \<Longrightarrow> op_read ops s n = (bs, e, s') \<Longrightarrow> left s = bs @ left s'"
    and read_len: "ok s \<Longrightarrow> op_read ops s n = (bs, e, s') \<Longrightarrow> length bs \<le> n"
    and read_fins: "ok s \<Longrightarrow> op_read ops s n = (bs, e, s') \<Longrightarrow> fins s' \<subseteq> fins s"
    and read_progress: "ok s \<Longrightarrow> op_read ops s n = (bs, None, s') \<Longrightarrow> 0 < n \<Longrightarrow> bs \<noteq> []"
    and read_end: "ok s \<Longrightarrow> op_read ops s n = (bs, Some x, s') \<Longrightarrow> left s' = [] \<and> x \<in> fins s"
begin

lemmas read_laws = read_ok read_bytes read_len read_fins

lemma read_full_loop_spec:
  assumes "ok s" "length acc \<le> n" "n - length acc < fuel"
    and "read_full_loop ops fuel s n acc = (bs, e, s')"
  shows "ok s' \<and> fins s' \<subseteq> fins s \<and> acc @ left s = bs @ left s' \<and>
    (e = None \<and> length bs = n \<or>
     (\<exists>x \<in> fins s. length bs < n \<and> left s' = [] \<and>
        e = Some (if bs \<noteq> [] \<and> x = EOF then ErrUnexpectedEOF else x)))"
  using assms
proof (induction fuel arbitrary: s acc)
  case 0
  then show ?case by simp
next
  case (Suc fuel)
  show ?case
  proof (cases "n \<le> length acc")
    case True
    then show ?thesis using Suc.prems by auto
  next
    case False
    obtain bs1 e1 s1 where rd: "op_read ops s (n - length acc) = (bs1, e1, s1)"
      by (cases "op_read ops s (n - length acc)") auto
    note laws = read_laws [OF Suc.prems(1) rd]
    show ?thesis
    proof (cases e1)
      case None
      then have "bs1 \<noteq> []"
        using read_progress [OF Suc.prems(1)] rd False by simp
      then have fuel: "n - length (acc @ bs1) < fuel" using Suc.prems(3) False by (cases bs1) auto
      have len: "length (acc @ bs1) \<le> n" using laws(3) False by simp
      have step: "read_full_loop ops fuel s1 n (acc @ bs1) = (bs, e, s')"
        using Suc.prems(4) None False rd by simp
      from Suc.IH [OF laws(1) len fuel step] show ?thesis using laws by auto
    next
      case (Some x)
      have "left s1 = []" "x \<in> fins s"
        using read_end [OF Suc.prems(1)] rd Some by blast+
      then show ?thesis
        using Suc.prems(4) Some False rd laws by (auto simp: Let_def split: if_splits)
    qed
  qed
qed

text \<open>Enough bytes: the buffer is filled and exactly those bytes are consumed.\<close>

lemma ReadFull_ok:
  assumes "ok s" "n \<le> length (left s)"
  obtains s' where "ReadFull ops s n = (take n (left s), None, s')"
    and "ok s'" and "left s' = drop n (left s)" and "fins s' \<subseteq> fins s"
proof -
  obtain bs e s' where r: "ReadFull ops s n = (bs, e, s')" by (cases "ReadFull ops s n")
  then have spec: "ok s' \<and> fins s' \<subseteq> fins s \<and> left s = bs @ left s' \<and>
    (e = None \<and> length bs = n \<or>
     (\<exists>x \<in> fins s. length bs < n \<and> left s' = [] \<and>
        e = Some (if bs \<noteq> [] \<and> x = EOF then ErrUnexpectedEOF else x)))"
    using read_full_loop_spec [of s "[]" n "Suc n"] assms(1) by (simp add: ReadFull_def)
  then have e: "e = None" and n: "length bs = n" using assms(2) by auto
  from spec have l: "left s = bs @ left s'" by blast
  have eq: "ReadFull ops s n = (take n (left s), None, s')" using r e n by (simp add: l)
  have "left s' = drop n (left s)" using n by (simp add: l)
  with spec show thesis by (intro that [OF eq]) blast+
qed

text \<open>Too few bytes: all of them are consumed and an error is reported.\<close>

lemma ReadFull_short:
  assumes "ok s" "length (left s) < n"
  obtains s' x where "x \<in> fins s" "ok s'" "left s' = []" "fins s' \<subseteq> fins s"
    and "ReadFull ops s n =
      (left s, Some (if left s \<noteq> [] \<and> x = EOF then ErrUnexpectedEOF else x), s')"
proof -
  obtain bs e s' where r: "ReadFull ops s n = (bs, e, s')" by (cases "ReadFull ops s n")
  then have spec: "ok s' \<and> fins s' \<subseteq> fins s \<and> left s = bs @ left s' \<and>
    (e = None \<and> length bs = n \<or>
     (\<exists>x \<in> fins s. length bs < n \<and> left s' = [] \<and>
        e = Some (if bs \<noteq> [] \<and> x = EOF then ErrUnexpectedEOF else x)))"
    using read_full_loop_spec [of s "[]" n "Suc n"] assms(1) by (simp add: ReadFull_def)
  then have l: "left s = bs @ left s'" and "left s' = []" using assms(2) by auto
  then have bs: "bs = left s" by simp
  have "length bs \<noteq> n" using assms(2) unfolding bs by simp
  with spec obtain x where "x \<in> fins s"
    and "e = Some (if left s \<noteq> [] \<and> x = EOF then ErrUnexpectedEOF else x)"
    unfolding bs by blast
  with r have "ReadFull ops s n =
      (left s, Some (if left s \<noteq> [] \<and> x = EOF then ErrUnexpectedEOF else x), s')"
    unfolding bs by simp
  with spec \<open>x \<in> fins s\<close> \<open>left s' = []\<close> show thesis by (intro that) blast+
qed

lemma ReadAll_ok:
  assumes "ok s" "length (left s) < fuel"
  obtains s' x where "x \<in> fins s" "ok s'" "left s' = []" "fins s' \<subseteq> fins s"
    and "ReadAll ops fuel s acc = (acc @ left s, if x = EOF then None else Some x, s')"
proof -
  have "\<exists>s' x. x \<in> fins s \<and> ok s' \<and> left s' = [] \<and> fins s' \<subseteq> fins s \<and>
      ReadAll ops fuel s acc = (acc @ left s, if x = EOF then None else Some x, s')"
    using assms
  proof (induction fuel arbitrary: s acc)
    case 0
    then show ?case by simp
  next
    case (Suc fuel)
    obtain bs e s1 where rd: "op_read ops s 512 = (bs, e, s1)"
      by (cases "op_read ops s 512") auto
    note laws = read_laws [OF Suc.prems(1) rd]
    show ?case
    proof (cases e)
      case None
      then have "bs \<noteq> []" using read_progress [OF Suc.prems(1)] rd by simp
      then have "length (left s1) < fuel" using laws(2) Suc.prems(2) by (cases bs) auto
      from Suc.IH [OF laws(1) this, of "acc @ bs"] obtain s' x
        where "x \<in> fins s1" "ok s'" "left s' = []" "fins s' \<subseteq> fins s1"
          "ReadAll ops fuel s1 (acc @ bs) = (acc @ left s, if x = EOF then None else Some x, s')"
        using laws(2) by auto
      then show ?thesis
        using rd None laws(4) by (intro exI [of _ s'] exI [of _ x]) auto
    next
      case (Some x)
      then show ?thesis
        using rd laws read_end [OF Suc.prems(1)] by auto
    qed
  qed
  then show thesis using that by blast
qed

lemma discard_loop_spec:
  assumes "ok s" "n < fuel" "discard_loop ops fuel s n w = (w', e, s')"
  shows "ok s' \<and> fins s' \<subseteq> fins s \<and> left s' = drop (w' - w) (left s) \<and>
    w' = w + min n (length (left s)) \<and>
    (n \<le> length (left s) \<or> (\<exists>x \<in> fins s. e = (if x = EOF then None else Some x)))"
  using assms
proof (induction fuel arbitrary: s n w)
  case 0
  then show ?case by simp
next
  case (Suc fuel)
  show ?case
  proof (cases "n = 0")
    case True
    then show ?thesis using Suc.prems by auto
  next
    case False
    obtain bs e1 s1 where rd: "op_read ops s (min 8192 n) = (bs, e1, s1)"
      by (cases "op_read ops s (min 8192 n)") auto
    note laws = read_laws [OF Suc.prems(1) rd]
    have len: "length bs \<le> n" using laws(3) by simp
    show ?thesis
    proof (cases e1)
      case None
      then have "bs \<noteq> []" using read_progress [OF Suc.prems(1)] rd False by simp
      then have fuel: "n - length bs < fuel" using Suc.prems(2) False by (cases bs) auto
      have step: "discard_loop ops fuel s1 (n - length bs) (w + length bs) = (w', e, s')"
        using Suc.prems(3) False rd None by simp
      from Suc.IH [OF laws(1) fuel step] show ?thesis
        using laws(2,4) len by auto
    next
      case (Some x)
      then have "left s1 = []" "x \<in> fins s"
        using read_end [OF Suc.prems(1)] rd by blast+
      then show ?thesis
        using Suc.prems(3) False rd Some laws len by auto
    qed
  qed
qed

lemma CopyN_enough:
  assumes "ok s" "0 \<le> n" "nat n \<le> length (left s)"
  obtains s' where "CopyN ops s n = (n, None, s')" "ok s'" "left s' = drop (nat n) (left s)"
    and "fins s' \<subseteq> fins s"
proof -
  obtain w e s' where d: "discard_loop ops (Suc (nat n)) s (nat n) 0 = (w, e, s')"
    by (cases "discard_loop ops (Suc (nat n)) s (nat n) 0")
  note spec = discard_loop_spec [OF assms(1) _ d]
  then have "w = nat n" using assms by simp
  then have "CopyN ops s n = (n, None, s')" using d assms by (simp add: CopyN_def)
  then show thesis using that spec \<open>w = nat n\<close> by simp
qed

lemma CopyN_short:
  assumes "ok s" "length (left s) < nat n"
  obtains s' x where "x \<in> fins s" "ok s'" "left s' = []" "fins s' \<subseteq> fins s"
    and "CopyN ops s n = (int (length (left s)), Some x, s')"
proof -
  obtain w e s' where d: "discard_loop ops (Suc (nat n)) s (nat n) 0 = (w, e, s')"
    by (cases "discard_loop ops (Suc (nat n)) s (nat n) 0")
  note spec = discard_loop_spec [OF assms(1) _ d]
  then have w: "w = length (left s)" using assms by simp
  obtain x where x: "x \<in> fins s" "e = (if x = EOF then None else Some x)"
    using spec assms by auto
  have "CopyN ops s n = (int w, Some x, s')"
    using d w x assms by (auto simp: CopyN_def)
  then show thesis using that spec w x by simp
qed

end

lemma io_readerI:
  assumes "\<And>s n bs e s'. ok s \<Longrightarrow> op_read ops s n = (bs, e, s') \<Longrightarrow>
      ok s' \<and> left s = bs @ left s' \<and> length bs \<le> n \<and> fins s' \<subseteq> fins s \<and>
      (e = None \<longrightarrow> 0 < n \<longrightarrow> bs \<noteq> []) \<and> (\<forall>x. e = Some x \<longrightarrow> left s' = [] \<and> x \<in> fins s)"
  shows "io_reader ops ok left fins"
  by unfold_locales (use assms in blast)+

text \<open>A non-positive count skips nothing and reports no error, whatever the reader is.\<close>

lemma CopyN_nonpos: "n \<le> 0 \<Longrightarrow> CopyN ops s n = (0, None, s)"
  by (auto simp: CopyN_def)

text \<open>The exact results for readers whose only error is \<open>EOF\<close>.\<close>

context io_reader
begin

lemma ReadFull_exact:
  assumes "ok s" "fins s \<subseteq> {EOF}"
  obtains s' where "ReadFull ops s n =
      (take n (left s), if n \<le> length (left s) then None else Some (if left s = [] then EOF else ErrUnexpectedEOF), s')"
    and "ok s'" "fins s' \<subseteq> {EOF}" "left s' = drop n (left s)"
proof (cases "n \<le> length (left s)")
  case True
  obtain s' where "ReadFull ops s n = (take n (left s), None, s')" "ok s'" "left s' = drop n (left s)" "fins s' \<subseteq> fins s"
    by (rule ReadFull_ok [OF assms(1) True])
  then show thesis using that [of s'] True assms(2) by auto
next
  case False
  then have "length (left s) < n" by simp
  then obtain s' x where "x \<in> fins s" "ok s'" "left s' = []" "fins s' \<subseteq> fins s"
      "ReadFull ops s n = (left s, Some (if left s \<noteq> [] \<and> x = EOF then ErrUnexpectedEOF else x), s')"
    by (rule ReadFull_short [OF assms(1)])
  moreover from this have "x = EOF" using assms(2) by auto
  ultimately show thesis using that [of s'] False assms(2) by auto
qed

lemma CopyN_exact:
  assumes "ok s" "fins s \<subseteq> {EOF}"
  obtains s' where "CopyN ops s n =
      (int (min (nat n) (length (left s))), if n \<le> int (length (left s)) then None else Some EOF, s')"
    and "ok s'" "fins s' \<subseteq> {EOF}" "left s' = drop (nat n) (left s)"
proof (cases "n \<le> 0")
  case True
  then show thesis using that [of s] CopyN_nonpos [OF True, of ops s] assms by simp
next
  case False
  show thesis
  proof (cases "nat n \<le> length (left s)")
    case True
    obtain s' where "CopyN ops s n = (n, None, s')" "ok s'" "left s' = drop (nat n) (left s)" "fins s' \<subseteq> fins s"
      using False by (rule_tac CopyN_enough [OF assms(1) _ True]) auto
    then show thesis using that [of s'] True False assms(2) by auto
  next
    case short: False
    then have "length (left s) < nat n" by simp
    then obtain s' x where "x \<in> fins s" "ok s'" "left s' = []" "fins s' \<subseteq> fins s"
        "CopyN ops s n = (int (length (left s)), Some x, s')"
      by (rule CopyN_short [OF assms(1)])
    moreover from this have "x = EOF" using assms(2) by auto
    ultimately show thesis using that [of s'] short False assms(2) by auto
  qed
qed

end

text \<open>
  Readers that may be able to seek: a relative seek forward skips that many of the bytes left, a
  failing seek does nothing, and a reader that can report its position can move forward.
\<close>

locale io_seeker = io_reader +
  fixes pos :: "'a \<Rightarrow> int"
  assumes seek_ok: "op_seek ops = Some sk \<Longrightarrow> ok s \<Longrightarrow> 0 \<le> k \<Longrightarrow> sk s k = (Inr p, s') \<Longrightarrow>
      ok s' \<and> left s' = drop (nat k) (left s) \<and> fins s' \<subseteq> fins s \<and> p = pos s + k \<and> pos s' = p"
    and seek_err: "op_seek ops = Some sk \<Longrightarrow> sk s k = (Inl x, s') \<Longrightarrow> s' = s"
    and seek_works: "op_seek ops = Some sk \<Longrightarrow> ok s \<Longrightarrow> sk s 0 = (Inr p, s') \<Longrightarrow> 0 \<le> k \<Longrightarrow>
      \<exists>q s''. sk s' k = (Inr q, s'')"

section \<open>The writer contract\<close>

locale io_writer =
  fixes wops :: "'w io_writer_ops"
    and out :: "'w \<Rightarrow> byte list"
  assumes write_out: "op_write wops w bs = (n, e, w') \<Longrightarrow>
      n \<le> length bs \<and> out w' = out w @ take n bs \<and> (e = None \<longrightarrow> n = length bs)"
begin

lemma write_full: "op_write wops w bs = (n, None, w') \<Longrightarrow> n = length bs \<and> out w' = out w @ bs"
  using write_out by fastforce

end

text \<open>Writers that never fail.\<close>

locale reliable_writer = io_writer +
  assumes never_fails: "fst (snd (op_write wops w bs)) = None"
begin

lemma write_ok:
  obtains w' where "op_write wops w bs = (length bs, None, w')" "out w' = out w @ bs"
proof -
  obtain n e w' where "op_write wops w bs = (n, e, w')" by (cases "op_write wops w bs")
  moreover from this have "e = None" using never_fails [of w bs] by simp
  ultimately show thesis using write_full [of w bs n w'] that by simp
qed

end

section \<open>bytes.Reader and bytes.Buffer\<close>

record bytes_reader =
  br_data :: "byte list"
  br_off :: nat

definition bytes_reader_Read :: "bytes_reader \<Rightarrow> nat \<Rightarrow> byte list \<times> go_error option \<times> bytes_reader" where
  "bytes_reader_Read s n =
     (if length (br_data s) \<le> br_off s then ([], Some EOF, s)
      else let bs = take n (drop (br_off s) (br_data s))
           in (bs, None, s\<lparr>br_off := br_off s + length bs\<rparr>))"

definition bytes_reader_Seek :: "bytes_reader \<Rightarrow> int \<Rightarrow> int result \<times> bytes_reader" where
  "bytes_reader_Seek s k =
     (let a = int (br_off s) + k
      in if a < 0 then (Inl (ErrMsg ''bytes.Reader.Seek: negative position''), s)
         else (Inr a, s\<lparr>br_off := nat a\<rparr>))"

definition bytes_ops :: "bytes_reader io_reader_ops" where
  "bytes_ops = \<lparr>op_read = bytes_reader_Read, op_seek = Some bytes_reader_Seek\<rparr>"

text \<open>The same reader behind an interface that hides \<^verbatim>\<open>Seek\<close>.\<close>

definition stream_ops :: "bytes_reader io_reader_ops" where
  "stream_ops = \<lparr>op_read = bytes_reader_Read, op_seek = None\<rparr>"

definition new_bytes_reader :: "byte list \<Rightarrow> bytes_reader" where
  "new_bytes_reader bs = \<lparr>br_data = bs, br_off = 0\<rparr>"

definition bytes_left :: "bytes_reader \<Rightarrow> byte list" where
  "bytes_left s = drop (br_off s) (br_data s)"

lemma bytes_left_new [simp]: "bytes_left (new_bytes_reader bs) = bs"
  by (simp add: bytes_left_def new_bytes_reader_def)

lemma bytes_left_read:
  "bytes_reader_Read s n = (bs, e, s') \<Longrightarrow>
     bytes_left s = bs @ bytes_left s' \<and> length bs \<le> n \<and> (e = None \<longrightarrow> 0 < n \<longrightarrow> bs \<noteq> []) \<and>
     (\<forall>x. e = Some x \<longrightarrow> bytes_left s' = [] \<and> x = EOF)"
  by (auto simp: bytes_reader_Read_def bytes_left_def Let_def min_def add.commute [of "br_off s"]
      drop_drop [symmetric] simp del: drop_drop split: if_splits)

interpretation bytes: io_seeker bytes_ops "\<lambda>_. True" bytes_left "\<lambda>_. {EOF}" "\<lambda>s. int (br_off s)"
proof (intro io_seeker.intro io_readerI io_seeker_axioms.intro)
  fix s n bs e s'
  assume "op_read bytes_ops s n = (bs, e, s')"
  then show "True \<and> bytes_left s = bs @ bytes_left s' \<and> length bs \<le> n \<and> {EOF} \<subseteq> {EOF} \<and>
      (e = None \<longrightarrow> 0 < n \<longrightarrow> bs \<noteq> []) \<and> (\<forall>x. e = Some x \<longrightarrow> bytes_left s' = [] \<and> x \<in> {EOF})"
    using bytes_left_read by (auto simp: bytes_ops_def)
next
  fix sk s k p s'
  assume "op_seek bytes_ops = Some sk" "0 \<le> k" "sk s k = (Inr p, s')"
  then show "True \<and> bytes_left s' = drop (nat k) (bytes_left s) \<and> {EOF} \<subseteq> {EOF} \<and>
      p = int (br_off s) + k \<and> int (br_off s') = p"
    by (auto simp: bytes_ops_def bytes_reader_Seek_def bytes_left_def Let_def drop_drop
        nat_add_distrib ac_simps split: if_splits)
next
  fix sk s k x s'
  assume "op_seek bytes_ops = Some sk" "sk s k = (Inl x, s')"
  then show "s' = s" by (auto simp: bytes_ops_def bytes_reader_Seek_def Let_def split: if_splits)
next
  fix sk s and k p :: int and s'
  assume "op_seek bytes_ops = Some sk" "0 \<le> k"
  then show "\<exists>q s''. sk s' k = (Inr q, s'')" by (auto simp: bytes_ops_def bytes_reader_Seek_def Let_def)
qed

interpretation stream: io_seeker stream_ops "\<lambda>_. True" bytes_left "\<lambda>_. {EOF}" "\<lambda>s. 0"
proof (intro io_seeker.intro io_readerI io_seeker_axioms.intro)
  fix s n bs e s'
  assume "op_read stream_ops s n = (bs, e, s')"
  then show "True \<and> bytes_left s = bs @ bytes_left s' \<and> length bs \<le> n \<and> {EOF} \<subseteq> {EOF} \<and>
      (e = None \<longrightarrow> 0 < n \<longrightarrow> bs \<noteq> []) \<and> (\<forall>x. e = Some x \<longrightarrow> bytes_left s' = [] \<and> x \<in> {EOF})"
    using bytes_left_read by (auto simp: stream_ops_def)
qed (simp_all add: stream_ops_def)

definition buffer_Write :: "byte list \<Rightarrow> byte list \<Rightarrow> nat \<times> go_error option \<times> byte list" where
  "buffer_Write w bs = (length bs, None, w @ bs)"

definition buffer_ops :: "byte list io_writer_ops" where
  "buffer_ops = \<lparr>op_write = buffer_Write\<rparr>"

interpretation buffer: reliable_writer buffer_ops "\<lambda>w. w"
  by unfold_locales (auto simp: buffer_ops_def buffer_Write_def)

end
