(* ===== verification/Tar_Sparse.thy ===== *)
theory Tar_Sparse
  imports Tar_Common Go_IO
begin

text \<open>
  The file readers of \<^verbatim>\<open>tar/reader.go\<close>: \<^verbatim>\<open>regFileReader\<close>, which
  limits a reader to the data section of one entry, and \<^verbatim>\<open>sparseFileReader\<close>, which
  expands a sparse file by filling its holes with zeros.

  In Go both hold a pointer to the reader of the archive, which \<^verbatim>\<open>tar.Reader\<close> holds
  too. In the model the state of that shared reader is passed to each call and returned from
  it, next to the state of the file reader itself. The reader inside a
  \<^verbatim>\<open>sparseFileReader\<close> is always a \<^verbatim>\<open>regFileReader\<close>, of which only the
  number of unread bytes is state.
\<close>

section \<open>Definitions\<close>

definition regFileReader_Read ::
    "'r io_reader_ops \<Rightarrow> 'r \<Rightarrow> int \<Rightarrow> nat \<Rightarrow> byte list \<times> go_error option \<times> 'r \<times> int" where
  "regFileReader_Read ops r nb n =
     (if nb = 0 then ([], Some EOF, r, nb)
      else if nb < 0 then ([], Some (Panic ''slice bounds out of range''), r, nb)
      else
        let n' = (if nb < int n then nat nb else n)
        in case op_read ops r n' of
             (bs, e, r') \<Rightarrow>
               let nb' = nb - int (length bs)
               in (bs, if e = Some EOF \<and> 0 < nb' then Some ErrUnexpectedEOF else e, r', nb'))"

record sparseEntry =
  se_offset :: int
  se_numBytes :: int

record sparseFileReader =
  sfr_nb :: int
  sfr_sp :: "sparseEntry list"
  sfr_pos :: int
  sfr_total :: int

abbreviation se_end :: "sparseEntry \<Rightarrow> int" where
  "se_end s \<equiv> i64 (se_offset s + se_numBytes s)"

text \<open>The validation loop of \<^verbatim>\<open>newSparseFileReader\<close>; the option is the entry before.\<close>

fun valid_sparse :: "int \<Rightarrow> sparseEntry option \<Rightarrow> sparseEntry list \<Rightarrow> bool" where
  "valid_sparse tot prev [] = True"
| "valid_sparse tot prev (s # sp) =
     (if se_offset s < 0 \<or> se_numBytes s < 0 then False
      else if i64 (9223372036854775807 - se_numBytes s) < se_offset s then False
      else if tot < se_end s then False
      else if (case prev of None \<Rightarrow> False | Some p \<Rightarrow> se_offset s < se_end p) then False
      else valid_sparse tot (Some s) sp)"

definition newSparseFileReader :: "int \<Rightarrow> sparseEntry list \<Rightarrow> int \<Rightarrow> sparseFileReader result" where
  "newSparseFileReader nb sp tot =
     (if tot < 0 then Inl ErrHeader
      else if \<not> valid_sparse tot None sp then Inl ErrHeader
      else Inr \<lparr>sfr_nb = nb, sfr_sp = sp, sfr_pos = 0, sfr_total = tot\<rparr>)"

text \<open>\<open>readHole\<close> yields the zeros it stores at the front of the buffer of length \<open>n\<close>.\<close>

definition readHole :: "sparseFileReader \<Rightarrow> nat \<Rightarrow> int \<Rightarrow> byte list \<times> sparseFileReader" where
  "readHole sfr n endOffset =
     (let n64 = i64 (endOffset - sfr_pos sfr);
          n64 = (if int n < n64 then int n else n64)
      in (replicate (nat n64) 0, sfr\<lparr>sfr_pos := i64 (sfr_pos sfr + n64)\<rparr>))"

definition skip_empty :: "sparseEntry list \<Rightarrow> sparseEntry list" where
  "skip_empty sp = dropWhile (\<lambda>s. se_numBytes s = 0) sp"

definition sparseFileReader_Read ::
    "'r io_reader_ops \<Rightarrow> 'r \<Rightarrow> sparseFileReader \<Rightarrow> nat
      \<Rightarrow> byte list \<times> go_error option \<times> 'r \<times> sparseFileReader" where
  "sparseFileReader_Read ops r sfr0 n =
     (let sfr = sfr0\<lparr>sfr_sp := skip_empty (sfr_sp sfr0)\<rparr>
      in case sfr_sp sfr of
           [] \<Rightarrow>
             if sfr_pos sfr < sfr_total sfr
             then (case readHole sfr n (sfr_total sfr) of (bs, sfr') \<Rightarrow> (bs, None, r, sfr'))
             else ([], Some EOF, r, sfr)
         | s # sp \<Rightarrow>
             if sfr_pos sfr < se_offset s
             then (case readHole sfr n (se_offset s) of (bs, sfr') \<Rightarrow> (bs, None, r, sfr'))
             else
               let endPos = se_end s;
                   bytesLeft = i64 (endPos - sfr_pos sfr);
                   n' = (if bytesLeft < int n then nat bytesLeft else n)
               in if bytesLeft < 0 then ([], Some (Panic ''slice bounds out of range''), r, sfr)
                  else case regFileReader_Read ops r (sfr_nb sfr) n' of
                    (bs, e, r', nb') \<Rightarrow>
                      let pos' = i64 (sfr_pos sfr + int (length bs));
                          e' = (if e = Some EOF then
                                  if pos' < endPos then Some ErrUnexpectedEOF
                                  else if pos' < sfr_total sfr then None
                                  else e
                                else e)
                      in (bs, e', r',
                          sfr\<lparr>sfr_nb := nb', sfr_pos := pos',
                              sfr_sp := if pos' = endPos then sp else s # sp\<rparr>))"

section \<open>The regular file reader keeps the reader contract\<close>

definition reg_ops :: "'r io_reader_ops \<Rightarrow> ('r \<times> int) io_reader_ops" where
  "reg_ops ops =
     \<lparr>op_read = (\<lambda>(r, nb) n. case regFileReader_Read ops r nb n of (bs, e, r', nb') \<Rightarrow> (bs, e, (r', nb'))),
      op_seek = None\<rparr>"

definition reg_ok :: "('r \<Rightarrow> bool) \<Rightarrow> 'r \<times> int \<Rightarrow> bool" where
  "reg_ok ok s \<longleftrightarrow> ok (fst s) \<and> 0 \<le> snd s"

definition reg_left :: "('r \<Rightarrow> byte list) \<Rightarrow> 'r \<times> int \<Rightarrow> byte list" where
  "reg_left left s = take (nat (snd s)) (left (fst s))"

definition reg_fins :: "('r \<Rightarrow> byte list) \<Rightarrow> ('r \<Rightarrow> go_error set) \<Rightarrow> 'r \<times> int \<Rightarrow> go_error set" where
  "reg_fins left fins s =
     (if snd s \<le> int (length (left (fst s))) then insert EOF (fins (fst s))
      else insert ErrUnexpectedEOF (fins (fst s) - {EOF}))"

context io_reader
begin

lemma regFileReader_Read_laws:
  assumes "ok r" "0 \<le> nb" "regFileReader_Read ops r nb n = (bs, e, r', nb')"
  shows "ok r'" "nb' = nb - int (length bs)" "0 \<le> nb'" "length bs \<le> n" "left r = bs @ left r'"
    and "fins r' \<subseteq> fins r" and "e = None \<Longrightarrow> 0 < n \<Longrightarrow> bs \<noteq> []"
    and "e = Some x \<Longrightarrow> (nb' = 0 \<or> left r' = []) \<and> x \<in> reg_fins left fins (r, nb)"
proof -
  have "ok r' \<and> nb' = nb - int (length bs) \<and> 0 \<le> nb' \<and> length bs \<le> n \<and> left r = bs @ left r' \<and>
    fins r' \<subseteq> fins r \<and> (e = None \<longrightarrow> 0 < n \<longrightarrow> bs \<noteq> []) \<and>
    (\<forall>x. e = Some x \<longrightarrow> (nb' = 0 \<or> left r' = []) \<and> x \<in> reg_fins left fins (r, nb))"
  proof (cases "nb = 0")
    case True
    then show ?thesis using assms by (auto simp: regFileReader_Read_def reg_fins_def)
  next
    case False
    define n' where "n' = (if nb < int n then nat nb else n)"
    obtain bs1 e1 r1 where rd: "op_read ops r n' = (bs1, e1, r1)" by (cases "op_read ops r n'") auto
    note laws = read_laws [OF assms(1) rd]
    have res: "bs = bs1" "r' = r1" "nb' = nb - int (length bs1)"
        "e = (if e1 = Some EOF \<and> 0 < nb' then Some ErrUnexpectedEOF else e1)"
      using assms False rd by (auto simp: regFileReader_Read_def Let_def n'_def [symmetric])
    have n': "n' \<le> n" "int n' \<le> nb" "0 < n \<longrightarrow> 0 < n'" using assms(2) False by (auto simp: n'_def)
    have "e1 = None \<longrightarrow> 0 < n \<longrightarrow> bs1 \<noteq> []" using read_progress [OF assms(1)] rd n' by blast
    moreover have "left r1 = [] \<and> x \<in> fins r" if "e1 = Some x" for x
      using read_end [OF assms(1)] rd that by blast
    moreover have "length (left r) = length bs1 + length (left r1)" using laws(2) by simp
    ultimately show ?thesis
      using laws n' res by (auto simp: reg_fins_def split: if_splits)
  qed
  then show "ok r'" "nb' = nb - int (length bs)" "0 \<le> nb'" "length bs \<le> n" "left r = bs @ left r'"
    and "fins r' \<subseteq> fins r" and "e = None \<Longrightarrow> 0 < n \<Longrightarrow> bs \<noteq> []"
    and "e = Some x \<Longrightarrow> (nb' = 0 \<or> left r' = []) \<and> x \<in> reg_fins left fins (r, nb)"
    by blast+
qed

lemma reg_reader: "io_reader (reg_ops ops) (reg_ok ok) (reg_left left) (reg_fins left fins)"
proof (rule io_readerI)
  fix s :: "'r \<times> int" and n bs e s'
  assume "reg_ok ok s" and rd: "op_read (reg_ops ops) s n = (bs, e, s')"
  obtain r nb r' nb' where s: "s = (r, nb)" "s' = (r', nb')" by fastforce
  have okr: "ok r" "0 \<le> nb" using \<open>reg_ok ok s\<close> by (simp_all add: reg_ok_def s)
  have "regFileReader_Read ops r nb n = (bs, e, r', nb')"
    using rd by (auto simp: reg_ops_def s split: prod.splits)
  note laws = regFileReader_Read_laws [OF okr this]
  have len: "length (left r) = length bs + length (left r')" using laws(5) by simp
  have "reg_left left s = bs @ reg_left left s'"
    using laws(2,3,5) by (simp add: reg_left_def s nat_diff_distrib)
  moreover have "reg_fins left fins s' \<subseteq> reg_fins left fins s"
    using laws(2,6) len by (auto simp: reg_fins_def s)
  ultimately show "reg_ok ok s' \<and> reg_left left s = bs @ reg_left left s' \<and> length bs \<le> n \<and>
      reg_fins left fins s' \<subseteq> reg_fins left fins s \<and> (e = None \<longrightarrow> 0 < n \<longrightarrow> bs \<noteq> []) \<and>
      (\<forall>x. e = Some x \<longrightarrow> reg_left left s' = [] \<and> x \<in> reg_fins left fins s)"
    using laws by (auto simp: reg_ok_def reg_left_def s)
qed

end

section \<open>What a sparse file contains\<close>

text \<open>
  The specification of the expansion: from position \<open>pos\<close> on, the file is a hole up to the
  next fragment, the bytes of the fragment taken from the data \<open>D\<close>, and so on, and zeros up
  to the total size after the last fragment. If the data ends inside a fragment, the content
  ends there.
\<close>

fun sparse_view :: "sparseEntry list \<Rightarrow> int \<Rightarrow> int \<Rightarrow> byte list \<Rightarrow> byte list" where
  "sparse_view [] pos tot D = replicate (nat (tot - pos)) 0"
| "sparse_view (s # sp) pos tot D =
     (let fin = se_offset s + se_numBytes s; need = nat (fin - max pos (se_offset s))
      in replicate (nat (se_offset s - pos)) 0 @
         (if length D < need then D else take need D @ sparse_view sp fin tot (drop need D)))"

text \<open>The number of data bytes the fragments still ask for.\<close>

fun sparse_need :: "sparseEntry list \<Rightarrow> int \<Rightarrow> int" where
  "sparse_need [] pos = 0"
| "sparse_need (s # sp) pos =
     se_offset s + se_numBytes s - max pos (se_offset s) + sparse_need sp (se_offset s + se_numBytes s)"

text \<open>Fragments in order, without overlap, between \<open>lo\<close> and the total size.\<close>

fun sparse_chain :: "int \<Rightarrow> int \<Rightarrow> sparseEntry list \<Rightarrow> bool" where
  "sparse_chain lo tot [] \<longleftrightarrow> lo \<le> tot"
| "sparse_chain lo tot (s # sp) \<longleftrightarrow>
     lo \<le> se_offset s \<and> 0 \<le> se_numBytes s \<and> sparse_chain (se_offset s + se_numBytes s) tot sp"

lemma sparse_chain_le: "sparse_chain lo tot sp \<Longrightarrow> lo \<le> tot"
  by (induction sp arbitrary: lo) fastforce+

lemma sparse_chain_weaken: "sparse_chain lo tot sp \<Longrightarrow> lo' \<le> lo \<Longrightarrow> sparse_chain lo' tot sp"
  by (cases sp) auto

lemma sparse_need_nonneg: "sparse_chain lo tot sp \<Longrightarrow> 0 \<le> sparse_need sp lo"
  by (induction sp arbitrary: lo) auto

lemma sparse_need_base: "sparse_chain lo tot sp \<Longrightarrow> pos \<le> lo \<Longrightarrow> sparse_need sp pos = sparse_need sp lo"
  by (cases sp) auto

lemma sparse_view_hole:
  assumes "sparse_chain lo tot sp" "pos \<le> lo"
  shows "sparse_view sp pos tot D = replicate (nat (lo - pos)) 0 @ sparse_view sp lo tot D"
proof (cases sp)
  case Nil
  have "nat (tot - pos) = nat (lo - pos) + nat (tot - lo)" using assms Nil by auto
  then show ?thesis using Nil by (simp add: replicate_add)
next
  case (Cons s sp')
  have "nat (se_offset s - pos) = nat (lo - pos) + nat (se_offset s - lo)" using assms Cons by auto
  moreover have "max pos (se_offset s) = max lo (se_offset s)" using assms Cons by auto
  ultimately show ?thesis using Cons by (simp add: replicate_add Let_def)
qed

lemma sparse_view_end: "sparse_chain tot tot sp \<Longrightarrow> sparse_view sp tot tot D = []"
proof (induction sp)
  case (Cons s sp)
  then have "se_offset s = tot" "se_numBytes s = 0"
    using sparse_chain_le [of "se_offset s + se_numBytes s" tot sp] by auto
  then show ?case using Cons by simp
qed simp

lemma sparse_need_end: "sparse_chain tot tot sp \<Longrightarrow> sparse_need sp tot = 0"
proof (induction sp)
  case (Cons s sp)
  then have "se_offset s = tot" "se_numBytes s = 0"
    using sparse_chain_le [of "se_offset s + se_numBytes s" tot sp] by auto
  then show ?case using Cons by simp
qed simp

text \<open>
  The state of a sparse reader: the position is not past the end of the first fragment, which is
  not used up unless it is empty, and the rest is a chain.
\<close>

definition sparse_inv :: "sparseFileReader \<Rightarrow> bool" where
  "sparse_inv s \<longleftrightarrow> 0 \<le> sfr_pos s \<and> sfr_total s < 9223372036854775808 \<and>
     (case sfr_sp s of
        [] \<Rightarrow> sfr_pos s \<le> sfr_total s
      | e # sp \<Rightarrow>
          0 \<le> se_offset e \<and> 0 \<le> se_numBytes e \<and>
          (sfr_pos s \<le> se_offset e \<or> sfr_pos s < se_offset e + se_numBytes e) \<and>
          sparse_chain (se_offset e + se_numBytes e) (sfr_total s) sp)"

lemma skip_empty_inv:
  assumes "sparse_inv s"
  shows "sparse_inv (s\<lparr>sfr_sp := skip_empty (sfr_sp s)\<rparr>)"
    and "sparse_view (skip_empty (sfr_sp s)) (sfr_pos s) (sfr_total s) D =
      sparse_view (sfr_sp s) (sfr_pos s) (sfr_total s) D"
    and "sparse_need (skip_empty (sfr_sp s)) (sfr_pos s) = sparse_need (sfr_sp s) (sfr_pos s)"
proof -
  have "sparse_inv (s\<lparr>sfr_sp := skip_empty sp\<rparr>) \<and>
      sparse_view (skip_empty sp) (sfr_pos s) (sfr_total s) D = sparse_view sp (sfr_pos s) (sfr_total s) D \<and>
      sparse_need (skip_empty sp) (sfr_pos s) = sparse_need sp (sfr_pos s)"
    if "sparse_inv (s\<lparr>sfr_sp := sp\<rparr>)" for sp
    using that
  proof (induction sp)
    case Nil
    then show ?case by (simp add: skip_empty_def)
  next
    case (Cons e sp)
    show ?case
    proof (cases "se_numBytes e = 0")
      case False
      then show ?thesis using Cons.prems by (simp add: skip_empty_def)
    next
      case True
      then have pos: "sfr_pos s \<le> se_offset e" "0 \<le> se_offset e" "0 \<le> sfr_pos s"
          "sfr_total s < 9223372036854775808"
        and chain: "sparse_chain (se_offset e) (sfr_total s) sp"
        using Cons.prems by (auto simp: sparse_inv_def)
      have "sparse_inv (s\<lparr>sfr_sp := sp\<rparr>)"
        using pos chain sparse_chain_le [OF chain]
        by (cases sp) (auto simp: sparse_inv_def)
      note IH = Cons.IH [OF this]
      have "skip_empty (e # sp) = skip_empty sp" using True by (simp add: skip_empty_def)
      moreover have "sparse_view (e # sp) (sfr_pos s) (sfr_total s) D = sparse_view sp (sfr_pos s) (sfr_total s) D"
        using True pos sparse_view_hole [OF chain pos(1)] by (simp add: Let_def)
      moreover have "sparse_need (e # sp) (sfr_pos s) = sparse_need sp (sfr_pos s)"
        using True pos sparse_need_base [OF chain pos(1)] by simp
      ultimately show ?thesis using IH by simp
    qed
  qed
  from this [of "sfr_sp s"] assms
  show "sparse_inv (s\<lparr>sfr_sp := skip_empty (sfr_sp s)\<rparr>)"
    and "sparse_view (skip_empty (sfr_sp s)) (sfr_pos s) (sfr_total s) D =
      sparse_view (sfr_sp s) (sfr_pos s) (sfr_total s) D"
    and "sparse_need (skip_empty (sfr_sp s)) (sfr_pos s) = sparse_need (sfr_sp s) (sfr_pos s)"
    by simp_all
qed

text \<open>Consuming part of a fragment.\<close>

lemma sparse_view_fragment:
  assumes "se_offset e \<le> pos" "pos + int (length bs) \<le> se_offset e + se_numBytes e"
  shows "sparse_view (e # sp) pos tot (bs @ D) =
    bs @ (if pos + int (length bs) = se_offset e + se_numBytes e
          then sparse_view sp (se_offset e + se_numBytes e) tot D
          else sparse_view (e # sp) (pos + int (length bs)) tot D)"
proof -
  define need where "need = nat (se_offset e + se_numBytes e - pos)"
  have le: "length bs \<le> need" using assms by (simp add: need_def)
  have need': "nat (se_offset e + se_numBytes e - (pos + int (length bs))) = need - length bs"
    using assms by (simp add: need_def)
  have mx: "max pos (se_offset e) = pos"
    "max (pos + int (length bs)) (se_offset e) = pos + int (length bs)" using assms by auto
  have eq: "pos + int (length bs) = se_offset e + se_numBytes e \<longleftrightarrow> length bs = need"
    using assms(2) unfolding need_def by (auto simp: nat_eq_iff2)
  show ?thesis
    using assms(1) le by (auto simp: Let_def mx need' need_def [symmetric] eq)
qed

lemma sparse_view_before:
  assumes "pos \<le> pos'" "pos' \<le> se_offset e"
  shows "sparse_view (e # sp) pos tot D = replicate (nat (pos' - pos)) 0 @ sparse_view (e # sp) pos' tot D"
proof -
  have "nat (se_offset e - pos) = nat (pos' - pos) + nat (se_offset e - pos')" using assms by auto
  moreover have "max pos (se_offset e) = max pos' (se_offset e)" using assms by auto
  ultimately show ?thesis by (simp add: replicate_add Let_def)
qed

lemma readHole_spec:
  assumes "0 \<le> sfr_pos s" "sfr_pos s < endOff" "endOff < 9223372036854775808"
  shows "readHole s n endOff =
    (let k = min n (nat (endOff - sfr_pos s))
     in (replicate k 0, s\<lparr>sfr_pos := sfr_pos s + int k\<rparr>))"
proof -
  have "in_i64 (endOff - sfr_pos s)" using assms by (simp add: in_i64_def)
  moreover have "in_i64 (sfr_pos s + k)" if "0 \<le> k" "k \<le> endOff - sfr_pos s" for k
    using assms that by (simp add: in_i64_def)
  ultimately show ?thesis
    using assms by (auto simp: readHole_def Let_def min_def)
qed

section \<open>The sparse file reader keeps the reader contract\<close>

definition sparse_ops :: "'r io_reader_ops \<Rightarrow> ('r \<times> sparseFileReader) io_reader_ops" where
  "sparse_ops ops =
     \<lparr>op_read = (\<lambda>(r, sfr) n. case sparseFileReader_Read ops r sfr n of
                    (bs, e, r', sfr') \<Rightarrow> (bs, e, (r', sfr'))),
      op_seek = None\<rparr>"

text \<open>The archive still holds the whole data section of the entry.\<close>

definition sparse_ok :: "('r \<Rightarrow> bool) \<Rightarrow> ('r \<Rightarrow> byte list) \<Rightarrow> ('r \<Rightarrow> go_error set)
    \<Rightarrow> 'r \<times> sparseFileReader \<Rightarrow> bool" where
  "sparse_ok ok left fins s \<longleftrightarrow> ok (fst s) \<and> fins (fst s) \<subseteq> {EOF} \<and> sparse_inv (snd s) \<and>
     0 \<le> sfr_nb (snd s) \<and> sfr_nb (snd s) \<le> int (length (left (fst s)))"

definition sparse_left :: "('r \<Rightarrow> byte list) \<Rightarrow> 'r \<times> sparseFileReader \<Rightarrow> byte list" where
  "sparse_left left s =
     sparse_view (sfr_sp (snd s)) (sfr_pos (snd s)) (sfr_total (snd s))
       (take (nat (sfr_nb (snd s))) (left (fst s)))"

definition sparse_fins :: "'r \<times> sparseFileReader \<Rightarrow> go_error set" where
  "sparse_fins s =
     (if sparse_need (sfr_sp (snd s)) (sfr_pos (snd s)) \<le> sfr_nb (snd s) then {EOF} else {ErrUnexpectedEOF})"

text \<open>What one call of \<^verbatim>\<open>Read\<close> has to do, from state \<open>(r, s)\<close> to \<open>(r', s')\<close>.\<close>

definition sparse_step :: "('r \<Rightarrow> bool) \<Rightarrow> ('r \<Rightarrow> byte list) \<Rightarrow> ('r \<Rightarrow> go_error set) \<Rightarrow>
    'r \<times> sparseFileReader \<Rightarrow> nat \<Rightarrow> byte list \<Rightarrow> go_error option \<Rightarrow> 'r \<times> sparseFileReader \<Rightarrow> bool" where
  "sparse_step ok left fins s n bs e s' \<longleftrightarrow>
     sparse_ok ok left fins s' \<and> sparse_left left s = bs @ sparse_left left s' \<and> length bs \<le> n \<and>
     sparse_fins s' \<subseteq> sparse_fins s \<and> (e = None \<longrightarrow> 0 < n \<longrightarrow> bs \<noteq> []) \<and>
     (\<forall>x. e = Some x \<longrightarrow> sparse_left left s' = [] \<and> x \<in> sparse_fins s)"

lemmas sparse_step_defs = sparse_step_def sparse_ok_def sparse_left_def sparse_fins_def

lemma sparse_step_hole:
  assumes "sparse_ok ok left fins (r, s)" "sfr_pos s < endOff"
    and "endOff = (case sfr_sp s of [] \<Rightarrow> sfr_total s | e # _ \<Rightarrow> se_offset e)"
    and "readHole s n endOff = (bs, s')"
  shows "sparse_step ok left fins (r, s) n bs None (r, s')"
proof -
  define k where "k = min n (nat (endOff - sfr_pos s))"
  have inv: "sparse_inv s" "0 \<le> sfr_pos s" using assms(1) by (auto simp: sparse_ok_def sparse_inv_def)
  have "endOff \<le> sfr_total s"
    using inv assms(2,3)
    by (auto simp: sparse_inv_def split: list.splits dest!: sparse_chain_le)
  then have "endOff < 9223372036854775808" using inv by (simp add: sparse_inv_def)
  then have res: "bs = replicate k 0" "s' = s\<lparr>sfr_pos := sfr_pos s + int k\<rparr>"
    using assms(4) readHole_spec [OF inv(2) assms(2)] by (simp_all add: k_def Let_def)
  have k: "int k \<le> endOff - sfr_pos s" "k \<le> n" "0 < n \<longrightarrow> 0 < k"
    using assms(2) by (auto simp: k_def)
  show ?thesis
  proof (cases "sfr_sp s")
    case Nil
    have "nat (sfr_total s - sfr_pos s) = k + nat (sfr_total s - (sfr_pos s + int k))"
      using k Nil assms(3) by simp
    then show ?thesis
      using assms(1,3) Nil k res by (auto simp: sparse_step_defs sparse_inv_def replicate_add)
  next
    case (Cons e sp)
    then have before: "sfr_pos s + int k \<le> se_offset e" using k assms(3) by simp
    have mx: "max (sfr_pos s + int k) (se_offset e) = max (sfr_pos s) (se_offset e)"
      using before by auto
    show ?thesis
      using assms(1) Cons k res before sparse_view_before [of "sfr_pos s" "sfr_pos s + int k" e sp]
      by (auto simp: sparse_step_defs sparse_inv_def mx simp del: sparse_view.simps)
  qed
qed

context io_reader
begin

lemma sparse_step_fragment:
  assumes ok: "sparse_ok ok left fins (r, s)" and sp: "sfr_sp s = e # sp"
    and pos: "se_offset e \<le> sfr_pos s" "se_numBytes e \<noteq> 0"
    and rd: "regFileReader_Read ops r (sfr_nb s) (min n (nat (se_offset e + se_numBytes e - sfr_pos s)))
        = (bs, x, r', nb')"
    and fin: "fin = se_offset e + se_numBytes e" and pos': "pos' = sfr_pos s + int (length bs)"
  shows "sparse_step ok left fins (r, s) n bs
    (if x = Some EOF then if pos' < fin then Some ErrUnexpectedEOF
       else if pos' < sfr_total s then None else x else x)
    (r', s\<lparr>sfr_nb := nb', sfr_pos := pos', sfr_sp := if pos' = fin then sp else e # sp\<rparr>)"
    and "pos' \<le> fin" "fin \<le> sfr_total s"
proof -
  define D' where "D' = take (nat nb') (left r')"
  have inv: "ok r" "fins r \<subseteq> {EOF}" "0 \<le> sfr_nb s" "sfr_nb s \<le> int (length (left r))"
      "0 \<le> sfr_pos s" "sfr_total s < 9223372036854775808" "sfr_pos s < fin"
      and chain: "sparse_chain fin (sfr_total s) sp" and e: "0 \<le> se_offset e" "0 \<le> se_numBytes e"
    using ok sp pos fin by (auto simp: sparse_ok_def sparse_inv_def)
  note laws = regFileReader_Read_laws [OF inv(1,3) rd]
  have len: "length (left r) = length bs + length (left r')" using laws(5) by simp
  have nb': "0 \<le> nb'" "nb' \<le> int (length (left r'))" using laws(2,3) inv(4) len by auto
  have D: "take (nat (sfr_nb s)) (left r) = bs @ D'"
    using laws(2,3,5) by (simp add: D'_def nat_diff_distrib)
  have bl: "length bs \<le> n" "pos' \<le> fin" using laws(4) inv(7) pos' fin by auto
  then show "pos' \<le> fin" by simp
  show fin_le: "fin \<le> sfr_total s" by (rule sparse_chain_le [OF chain])
  have x: "x = Some EOF \<and> nb' = 0" if "x = Some y" for y
    using laws(8) [OF that] inv(2,4) nb' that by (auto simp: reg_fins_def)
  have view: "sparse_view (e # sp) (sfr_pos s) (sfr_total s) (bs @ D') =
      bs @ (if pos' = fin then sparse_view sp fin (sfr_total s) D'
            else sparse_view (e # sp) pos' (sfr_total s) D')"
    using sparse_view_fragment [OF pos(1), of bs sp "sfr_total s" D'] bl(2) by (simp add: pos' fin)
  have need: "sparse_need (e # sp) (sfr_pos s) - sfr_nb s =
      sparse_need (if pos' = fin then sp else e # sp) pos' - nb'"
    using pos(1) laws(2) bl(2) by (auto simp: pos' fin max_def)
  have D0: "D' = []" if "nb' = 0" using that by (simp add: D'_def)
  have short: "sparse_view (e # sp) pos' (sfr_total s) [] = []" if "pos' < fin"
    using that pos(1) by (auto simp: pos' fin Let_def max_def)
  have tail: "sparse_view sp fin (sfr_total s) D' = []" "sparse_need sp fin = 0" if "fin = sfr_total s"
    using chain that sparse_view_end sparse_need_end by auto
  have pn: "0 \<le> sparse_need sp fin" by (rule sparse_need_nonneg [OF chain])
  have prog: "bs \<noteq> []" if "x = None" "0 < n" using laws(7) that inv(7) fin by simp
  have prog': "bs \<noteq> []" if "pos' = fin" using that inv(7) by (auto simp: pos')
  let ?s' = "s\<lparr>sfr_nb := nb', sfr_pos := pos', sfr_sp := if pos' = fin then sp else e # sp\<rparr>"
  have "sparse_inv ?s'"
    using inv chain e bl(2) fin_le sparse_chain_le [OF chain] pos'
    by (cases sp) (auto simp: sparse_inv_def fin)
  then have okq: "sparse_ok ok left fins (r', ?s')"
    using laws(1,6) inv(2) nb' by (simp add: sparse_ok_def)
  have lq: "sparse_left left (r, s) = bs @ sparse_left left (r', ?s')"
    using view by (auto simp: sparse_left_def sp D D'_def simp del: sparse_view.simps)
  have fq: "sparse_fins (r', ?s') \<subseteq> sparse_fins (r, s)"
    using need by (auto simp: sparse_fins_def sp simp del: sparse_need.simps)
  have e1: "sparse_left left (r', ?s') = [] \<and> ErrUnexpectedEOF \<in> sparse_fins (r, s)"
    if "x = Some EOF" "pos' < fin"
  proof -
    have "nb' = 0" using x that(1) by blast
    then have "sparse_left left (r', ?s') = []"
      using short D0 that(2) by (simp add: sparse_left_def del: sparse_view.simps)
    moreover have "sfr_nb s < sparse_need (e # sp) (sfr_pos s)"
      using laws(2) pn that(2) \<open>nb' = 0\<close> pos(1) by (auto simp: pos' fin max_def)
    ultimately show ?thesis by (simp add: sparse_fins_def sp del: sparse_need.simps)
  qed
  have e2: "sparse_left left (r', ?s') = [] \<and> EOF \<in> sparse_fins (r, s)"
    if "x = Some EOF" "\<not> pos' < fin" "\<not> pos' < sfr_total s"
  proof -
    have p: "pos' = fin" "fin = sfr_total s" using that(2,3) bl(2) fin_le by auto
    have "sparse_left left (r', ?s') = []"
      using tail(1) p by (simp add: sparse_left_def D'_def)
    moreover have "sparse_need (e # sp) (sfr_pos s) \<le> sfr_nb s"
      using need tail(2) p nb' by (simp del: sparse_need.simps)
    ultimately show ?thesis by (simp add: sparse_fins_def sp del: sparse_need.simps)
  qed
  show "sparse_step ok left fins (r, s) n bs
    (if x = Some EOF then if pos' < fin then Some ErrUnexpectedEOF
       else if pos' < sfr_total s then None else x else x) (r', ?s')"
    unfolding sparse_step_def
  proof (intro conjI okq lq bl(1) fq impI allI)
    assume "(if x = Some EOF then if pos' < fin then Some ErrUnexpectedEOF
       else if pos' < sfr_total s then None else x else x) = None" "0 < n"
    then show "bs \<noteq> []" using prog prog' bl(2) by (cases x) (auto split: if_splits)
  next
    fix y
    assume y: "(if x = Some EOF then if pos' < fin then Some ErrUnexpectedEOF
       else if pos' < sfr_total s then None else x else x) = Some y"
    have xe: "x = Some EOF" using x [of y] y by (cases "x = Some EOF") simp_all
    have "sparse_left left (r', ?s') = [] \<and> y \<in> sparse_fins (r, s)"
    proof (cases "pos' < fin")
      case True
      with y xe have "y = ErrUnexpectedEOF" by simp
      then show ?thesis using e1 [OF xe True] by blast
    next
      case False
      with y xe have "y = EOF" "\<not> pos' < sfr_total s" by (simp_all split: if_splits)
      then show ?thesis using e2 [OF xe False] by blast
    qed
    then show "sparse_left left (r', ?s') = []" "y \<in> sparse_fins (r, s)" by blast+
  qed
qed

lemma sparse_Read_step:
  assumes ok: "sparse_ok ok left fins (r, s)" and sk: "skip_empty (sfr_sp s) = sfr_sp s"
    and rd: "sparseFileReader_Read ops r s n = (bs, x, r', s')"
  shows "sparse_step ok left fins (r, s) n bs x (r', s')"
proof -
  have self: "s\<lparr>sfr_sp := skip_empty (sfr_sp s)\<rparr> = s" using sk by simp
  note rd' = rd [unfolded sparseFileReader_Read_def self Let_def]
  show ?thesis
proof (cases "sfr_sp s")
  case Nil
  show ?thesis
  proof (cases "sfr_pos s < sfr_total s")
    case True
    then have "readHole s n (sfr_total s) = (bs, s')" "x = None" "r' = r"
      using rd' Nil by (auto split: prod.splits)
    then show ?thesis using sparse_step_hole [OF ok True] Nil by simp
  next
    case False
    then show ?thesis
      using rd' Nil ok by (auto simp: sparse_step_defs sparse_inv_def)
  qed
next
  case (Cons e sp)
  have inv: "sparse_inv s" using ok by (simp add: sparse_ok_def)
  have fin: "0 \<le> se_offset e" "0 \<le> se_numBytes e" "se_offset e + se_numBytes e < 9223372036854775808"
      "0 \<le> sfr_pos s"
    using inv Cons by (auto simp: sparse_inv_def dest!: sparse_chain_le)
  have ne: "se_numBytes e \<noteq> 0"
    using sk unfolding Cons skip_empty_def by (metis dropWhile_eq_self_iff list.discI list.sel(1))
  show ?thesis
  proof (cases "sfr_pos s < se_offset e")
    case True
    then have "readHole s n (se_offset e) = (bs, s')" "x = None" "r' = r"
      using rd' Cons by (auto split: prod.splits)
    then show ?thesis using sparse_step_hole [OF ok True] Cons by simp
  next
    case False
    define need where "need = se_offset e + se_numBytes e - sfr_pos s"
    have need: "0 \<le> need" using inv Cons False by (auto simp: sparse_inv_def need_def)
    have w: "i64 (se_offset e + se_numBytes e) = se_offset e + se_numBytes e" "i64 need = need"
      using fin need by (auto simp: in_i64_def need_def)
    have w2: "i64 (se_end e - sfr_pos s) = need" using w by (simp add: need_def)
    have nn: "\<not> need < 0" using need by simp
    have mn: "(if need < int n then nat need else n) = min n (nat need)" using need by auto
    obtain bs1 x1 r1 nb1 where rd1: "regFileReader_Read ops r (sfr_nb s) (min n (nat need)) = (bs1, x1, r1, nb1)"
      by (cases "regFileReader_Read ops r (sfr_nb s) (min n (nat need))") auto
    note frag = sparse_step_fragment [OF ok Cons _ ne rd1 [unfolded need_def] refl refl]
    have "sfr_pos s + int (length bs1) \<le> se_offset e + se_numBytes e" using frag(2) False by simp
    then have w': "i64 (sfr_pos s + int (length bs1)) = sfr_pos s + int (length bs1)"
      using fin by (intro i64_id) (auto simp: in_i64_def)
    show ?thesis
      using frag(1) False rd' [unfolded Cons list.case if_not_P [OF False],
          unfolded w2 mn rd1 prod.case if_not_P [OF nn], unfolded w w']
      by (auto simp only: prod.inject not_less)
  qed
qed
qed

lemma sparse_reader:
  "io_reader (sparse_ops ops) (sparse_ok ok left fins) (sparse_left left) sparse_fins"
proof (rule io_readerI)
  fix q :: "'r \<times> sparseFileReader" and n bs x q'
  assume ok0: "sparse_ok ok left fins q" and rd0: "op_read (sparse_ops ops) q n = (bs, x, q')"
  obtain r s0 r' s' where q: "q = (r, s0)" "q' = (r', s')" by (cases q, cases q') auto
  define s where "s = s0\<lparr>sfr_sp := skip_empty (sfr_sp s0)\<rparr>"
  have inv0: "sparse_inv s0" using ok0 by (simp add: sparse_ok_def q)
  note skip = skip_empty_inv [OF inv0]
  have ok: "sparse_ok ok left fins (r, s)" using ok0 skip(1) by (simp add: sparse_ok_def q s_def)
  have same: "sparse_left left q = sparse_left left (r, s)" "sparse_fins q = sparse_fins (r, s)"
    by (simp_all add: sparse_left_def sparse_fins_def q s_def skip(2,3))
  have rd: "sparseFileReader_Read ops r s0 n = (bs, x, r', s')"
    using rd0 by (auto simp: sparse_ops_def q split: prod.splits)
  have "sparse_step ok left fins (r, s) n bs x (r', s')"
    using rd by (intro sparse_Read_step [OF ok])
      (simp_all add: s_def sparseFileReader_Read_def skip_empty_def)
  then show "sparse_ok ok left fins q' \<and> sparse_left left q = bs @ sparse_left left q' \<and>
      length bs \<le> n \<and> sparse_fins q' \<subseteq> sparse_fins q \<and> (x = None \<longrightarrow> 0 < n \<longrightarrow> bs \<noteq> []) \<and>
      (\<forall>y. x = Some y \<longrightarrow> sparse_left left q' = [] \<and> y \<in> sparse_fins q)"
    unfolding same by (simp add: sparse_step_def q)
qed

end

section \<open>Building a sparse reader, and reading all of it\<close>

lemma valid_sparse_prev:
  assumes "in_i64 tot" "0 \<le> lo" "lo \<le> tot" "\<forall>s \<in> set sp. in_i64 (se_offset s) \<and> in_i64 (se_numBytes s)"
    and "lo = (case prev of None \<Rightarrow> 0 | Some p \<Rightarrow> se_end p)"
  shows "valid_sparse tot prev sp \<longleftrightarrow> sparse_chain lo tot sp"
  using assms
proof (induction sp arbitrary: prev lo)
  case (Cons s sp)
  have rng: "in_i64 (se_offset s)" "in_i64 (se_numBytes s)" using Cons.prems(4) by auto
  have chain: "sparse_chain (se_offset s + se_numBytes s) tot sp \<Longrightarrow> se_offset s + se_numBytes s \<le> tot"
    by (rule sparse_chain_le)
  show ?case
  proof (cases "0 \<le> se_offset s \<and> 0 \<le> se_numBytes s \<and> se_offset s + se_numBytes s \<le> tot")
    case True
    then have fin: "se_end s = se_offset s + se_numBytes s"
        "i64 (9223372036854775807 - se_numBytes s) = 9223372036854775807 - se_numBytes s"
        "\<not> 9223372036854775807 - se_numBytes s < se_offset s" "\<not> tot < se_offset s + se_numBytes s"
        "\<not> (se_offset s < 0 \<or> se_numBytes s < 0)"
      using Cons.prems(1) by (auto simp: in_i64_def)
    have IH: "valid_sparse tot (Some s) sp \<longleftrightarrow> sparse_chain (se_offset s + se_numBytes s) tot sp"
      by (rule Cons.IH) (use Cons.prems(1,4) True fin(1) in simp_all)
    have "valid_sparse tot prev (s # sp) \<longleftrightarrow> lo \<le> se_offset s \<and> valid_sparse tot (Some s) sp"
      unfolding valid_sparse.simps fin(1,2) if_not_P [OF fin(3)] if_not_P [OF fin(4)] if_not_P [OF fin(5)]
      using True Cons.prems(5) by (cases prev) auto
    then show ?thesis using IH True by simp
  next
    case False
    have no: "\<not> sparse_chain lo tot (s # sp)"
      using False chain Cons.prems(2) by auto
    have "se_offset s < 0 \<or> se_numBytes s < 0 \<or>
        i64 (9223372036854775807 - se_numBytes s) < se_offset s \<or> tot < se_end s"
    proof (rule ccontr)
      assume *: "\<not> ?thesis"
      then have "i64 (9223372036854775807 - se_numBytes s) = 9223372036854775807 - se_numBytes s"
        using rng by (intro i64_id) (auto simp: in_i64_def)
      then have "in_i64 (se_offset s + se_numBytes s)" using * by (auto simp: in_i64_def)
      then show False using * False by simp
    qed
    then have "\<not> valid_sparse tot prev (s # sp)" unfolding valid_sparse.simps by presburger
    with no show ?thesis by blast
  qed
qed auto

lemma newSparseFileReader_ok:
  assumes "in_i64 tot" "\<forall>s \<in> set sp. in_i64 (se_offset s) \<and> in_i64 (se_numBytes s)"
    and "newSparseFileReader nb sp tot = Inr sfr"
  shows "sparse_chain 0 tot sp \<and> sfr = \<lparr>sfr_nb = nb, sfr_sp = sp, sfr_pos = 0, sfr_total = tot\<rparr> \<and> sparse_inv sfr"
proof -
  have "sparse_chain 0 tot sp" and sfr: "sfr = \<lparr>sfr_nb = nb, sfr_sp = sp, sfr_pos = 0, sfr_total = tot\<rparr>"
    using assms valid_sparse_prev [of tot 0 sp None] by (auto simp: newSparseFileReader_def split: if_splits)
  then show ?thesis
    using assms(1) by (cases sp) (auto simp: sparse_inv_def in_i64_def)
qed

text \<open>
  C28. \<^verbatim>\<open>newSparseFileReader\<close> accepts a sparse map exactly when the total size is not
  negative and the fragments are non-negative, in ascending order, do not overlap and end within
  the total size; no sum of two 64-bit values can wrap around and let a bad map pass. Otherwise
  the answer is \<open>ErrHeader\<close>. An accepted map gives a reader at position 0.
\<close>

theorem newSparseFileReader_iff:
  assumes "in_i64 tot" "\<forall>s \<in> set sp. in_i64 (se_offset s) \<and> in_i64 (se_numBytes s)"
  shows "newSparseFileReader nb sp tot =
    (if 0 \<le> tot \<and> sparse_chain 0 tot sp
     then Inr \<lparr>sfr_nb = nb, sfr_sp = sp, sfr_pos = 0, sfr_total = tot\<rparr> else Inl ErrHeader)"
  using assms valid_sparse_prev [of tot 0 sp None] by (auto simp: newSparseFileReader_def)

theorem newSparseFileReader_iff_witness:
  "newSparseFileReader 3 [\<lparr>se_offset = 2, se_numBytes = 3\<rparr>] 7 =
     Inr \<lparr>sfr_nb = 3, sfr_sp = [\<lparr>se_offset = 2, se_numBytes = 3\<rparr>], sfr_pos = 0, sfr_total = 7\<rparr> \<and>
   newSparseFileReader 3 [\<lparr>se_offset = 9223372036854775807, se_numBytes = 3\<rparr>] 7 = Inl ErrHeader"
  using newSparseFileReader_iff [of 7 "[\<lparr>se_offset = 2, se_numBytes = 3\<rparr>]" 3]
    newSparseFileReader_iff [of 7 "[\<lparr>se_offset = 9223372036854775807, se_numBytes = 3\<rparr>]" 3]
  by (simp add: in_i64_def)

text \<open>
  C22. Reading an accepted sparse file to its end, from any archive reader that keeps the
  \<^verbatim>\<open>io.Reader\<close> contract and however it chops up its data, yields exactly the expansion
  of the data section: the fragments' bytes at their offsets and zeros everywhere else up to the
  total size. If the data section is too short for the fragments, the reader ends with
  \<open>ErrUnexpectedEOF\<close> after the bytes it had; otherwise it ends with a clean end of file. The
  loop ends for every fuel larger than the expansion.
\<close>

theorem sparse_read_all:
  assumes "io_reader ops ok left fins" "ok r" "fins r \<subseteq> {EOF}" "0 \<le> nb" "nb \<le> int (length (left r))"
    and "in_i64 tot" "\<forall>s \<in> set sp. in_i64 (se_offset s) \<and> in_i64 (se_numBytes s)"
    and "newSparseFileReader nb sp tot = Inr sfr"
    and "length (sparse_view sp 0 tot (take (nat nb) (left r))) < fuel"
  shows "\<exists>q. ReadAll (sparse_ops ops) fuel (r, sfr) [] =
    (sparse_view sp 0 tot (take (nat nb) (left r)),
     if sparse_need sp 0 \<le> nb then None else Some ErrUnexpectedEOF, q)"
proof -
  from assms(1) have rd: "io_reader (sparse_ops ops) (sparse_ok ok left fins) (sparse_left left) sparse_fins"
    by (rule io_reader.sparse_reader)
  have sfr: "sfr = \<lparr>sfr_nb = nb, sfr_sp = sp, sfr_pos = 0, sfr_total = tot\<rparr>" "sparse_inv sfr"
    using newSparseFileReader_ok [OF assms(6-8)] by auto
  have "sparse_ok ok left fins (r, sfr)" using sfr assms(2-5) by (simp add: sparse_ok_def)
  then obtain q x where "x \<in> sparse_fins (r, sfr)"
    and "ReadAll (sparse_ops ops) fuel (r, sfr) [] =
      ([] @ sparse_left left (r, sfr), if x = EOF then None else Some x, q)"
    by (rule io_reader.ReadAll_ok [OF rd, where fuel = fuel]) (use assms(9) in \<open>simp add: sparse_left_def sfr(1)\<close>)
  then show ?thesis by (auto simp: sparse_left_def sparse_fins_def sfr(1) split: if_splits)
qed

theorem sparse_read_all_witness:
  "\<exists>sfr q. newSparseFileReader 3 [\<lparr>se_offset = 2, se_numBytes = 3\<rparr>] 7 = Inr sfr \<and>
    ReadAll (sparse_ops bytes_ops) 8 (new_bytes_reader [65, 66, 67, 68], sfr) [] =
      ([0, 0, 65, 66, 67, 0, 0], None, q)"
proof -
  let ?sp = "[\<lparr>se_offset = 2, se_numBytes = 3\<rparr>]"
  let ?sfr = "\<lparr>sfr_nb = 3, sfr_sp = ?sp, sfr_pos = 0, sfr_total = 7\<rparr>"
  have new: "newSparseFileReader 3 ?sp 7 = Inr ?sfr"
    by (simp add: newSparseFileReader_def i64_def)
  have view: "sparse_view ?sp 0 7 [65, 66, 67] = [0, 0, 65, 66, 67, 0, 0]"
    by (simp add: numeral_2_eq_2 numeral_3_eq_3)
  show ?thesis
    using sparse_read_all [OF bytes.io_reader_axioms TrueI, where r = "new_bytes_reader [65, 66, 67, 68]"
      and nb = 3 and tot = 7 and sp = ?sp and sfr = ?sfr and fuel = 8]
      new view by (auto simp: in_i64_def)
qed

end
