(* ===== verification/Tar_Pax.thy ===== *)
theory Tar_Pax
  imports Tar_Sparse
begin

text \<open>
  The parts of \<^verbatim>\<open>tar/reader.go\<close> that interpret extended headers: \<^verbatim>\<open>parsePAX\<close>
  (the records of a PAX header, with the sparse maps of format 0.0 turned into those of format
  0.1), \<^verbatim>\<open>mergePAX\<close> (their effect on a header), and the readers of the sparse maps of
  formats 0.1 and 1.0.

  A Go map is an association list with distinct keys. Go does not fix the order in which a map
  is iterated; the model iterates in the order of the list, and theorem \<open>mergePAX_order\<close>
  shows that the order does not matter.
\<close>

section \<open>Keywords\<close>

definition paxAtime :: gostring where "paxAtime = str ''atime''"
definition paxCtime :: gostring where "paxCtime = str ''ctime''"
definition paxGid :: gostring where "paxGid = str ''gid''"
definition paxGname :: gostring where "paxGname = str ''gname''"
definition paxLinkpath :: gostring where "paxLinkpath = str ''linkpath''"
definition paxMtime :: gostring where "paxMtime = str ''mtime''"
definition paxPath :: gostring where "paxPath = str ''path''"
definition paxSize :: gostring where "paxSize = str ''size''"
definition paxUid :: gostring where "paxUid = str ''uid''"
definition paxUname :: gostring where "paxUname = str ''uname''"
definition paxXattr :: gostring where "paxXattr = str ''SCHILY.xattr.''"
definition paxNone :: gostring where "paxNone = []"

definition paxGNUSparseNumBlocks :: gostring where "paxGNUSparseNumBlocks = str ''GNU.sparse.numblocks''"
definition paxGNUSparseOffset :: gostring where "paxGNUSparseOffset = str ''GNU.sparse.offset''"
definition paxGNUSparseNumBytes :: gostring where "paxGNUSparseNumBytes = str ''GNU.sparse.numbytes''"
definition paxGNUSparseMap :: gostring where "paxGNUSparseMap = str ''GNU.sparse.map''"
definition paxGNUSparseName :: gostring where "paxGNUSparseName = str ''GNU.sparse.name''"
definition paxGNUSparseMajor :: gostring where "paxGNUSparseMajor = str ''GNU.sparse.major''"
definition paxGNUSparseMinor :: gostring where "paxGNUSparseMinor = str ''GNU.sparse.minor''"
definition paxGNUSparseSize :: gostring where "paxGNUSparseSize = str ''GNU.sparse.size''"
definition paxGNUSparseRealSize :: gostring where "paxGNUSparseRealSize = str ''GNU.sparse.realsize''"

lemmas pax_keys = paxAtime_def paxCtime_def paxGid_def paxGname_def paxLinkpath_def paxMtime_def
  paxPath_def paxSize_def paxUid_def paxUname_def paxXattr_def paxNone_def
  paxGNUSparseNumBlocks_def paxGNUSparseOffset_def paxGNUSparseNumBytes_def paxGNUSparseMap_def
  paxGNUSparseName_def paxGNUSparseMajor_def paxGNUSparseMinor_def paxGNUSparseSize_def
  paxGNUSparseRealSize_def

section \<open>Merging extended headers\<close>

text \<open>\<open>set_num f (x, err)\<close> stores a parsed number and turns its error into \<open>ErrHeader\<close>.\<close>

definition set_num :: "(int \<Rightarrow> Header) \<Rightarrow> int \<times> num_error option \<Rightarrow> Header result" where
  "set_num f r = (case r of (x, None) \<Rightarrow> Inr (f x) | (x, Some _) \<Rightarrow> Inl ErrHeader)"

definition set_time :: "(gotime \<Rightarrow> Header) \<Rightarrow> gotime result \<Rightarrow> Header result" where
  "set_time f r = (case r of Inr t \<Rightarrow> Inr (f t) | Inl _ \<Rightarrow> Inl ErrHeader)"

text \<open>The body of the loop of \<^verbatim>\<open>mergePAX\<close> for one key and value.\<close>

definition merge_record :: "gostring \<Rightarrow> gostring \<Rightarrow> Header \<Rightarrow> Header result" where
  "merge_record k v hdr =
     (if k = paxPath then Inr (hdr\<lparr>h_Name := v\<rparr>)
      else if k = paxLinkpath then Inr (hdr\<lparr>h_Linkname := v\<rparr>)
      else if k = paxUname then Inr (hdr\<lparr>h_Uname := v\<rparr>)
      else if k = paxGname then Inr (hdr\<lparr>h_Gname := v\<rparr>)
      else if k = paxUid then set_num (\<lambda>x. hdr\<lparr>h_Uid := x\<rparr>) (ParseInt v 10)
      else if k = paxGid then set_num (\<lambda>x. hdr\<lparr>h_Gid := x\<rparr>) (ParseInt v 10)
      else if k = paxAtime then set_time (\<lambda>t. hdr\<lparr>h_AccessTime := t\<rparr>) (parsePAXTime v)
      else if k = paxMtime then set_time (\<lambda>t. hdr\<lparr>h_ModTime := t\<rparr>) (parsePAXTime v)
      else if k = paxCtime then set_time (\<lambda>t. hdr\<lparr>h_ChangeTime := t\<rparr>) (parsePAXTime v)
      else if k = paxSize then set_num (\<lambda>x. hdr\<lparr>h_Size := x\<rparr>) (ParseInt v 10)
      else if HasPrefix k paxXattr then
        let xs = (case h_Xattrs hdr of None \<Rightarrow> [] | Some xs \<Rightarrow> xs)
        in Inr (hdr\<lparr>h_Xattrs := Some (AList.update (drop (length paxXattr) k) v xs)\<rparr>)
      else Inr hdr)"

fun mergePAX :: "Header \<Rightarrow> gomap \<Rightarrow> Header result" where
  "mergePAX hdr [] = Inr hdr"
| "mergePAX hdr ((k, v) # headers) =
     (case merge_record k v hdr of Inl e \<Rightarrow> Inl e | Inr hdr' \<Rightarrow> mergePAX hdr' headers)"

section \<open>Parsing extended headers\<close>

text \<open>
  The loop of \<^verbatim>\<open>parsePAX\<close> over the text of the header. A panic in
  \<^verbatim>\<open>parsePAXRecord\<close> is not an error the caller sees, it stays a panic.
\<close>

function parse_records :: "gostring \<Rightarrow> gostring list \<Rightarrow> gomap \<Rightarrow> (gostring list \<times> gomap) result" where
  "parse_records sbuf sparseMap extHdrs =
     (if sbuf = [] then Inr (sparseMap, extHdrs)
      else case parsePAXRecord sbuf of
        Inl (Panic m) \<Rightarrow> Inl (Panic m)
      | Inl e \<Rightarrow> Inl ErrHeader
      | Inr (key, val, residual) \<Rightarrow>
          if key = paxGNUSparseOffset \<or> key = paxGNUSparseNumBytes then
            if (length sparseMap mod 2 = 0 \<and> key \<noteq> paxGNUSparseOffset) \<or>
               (length sparseMap mod 2 = 1 \<and> key \<noteq> paxGNUSparseNumBytes) \<or> 44 \<in> set val
            then Inl ErrHeader
            else parse_records residual (sparseMap @ [val]) extHdrs
          else
            parse_records residual sparseMap
              (if val \<noteq> [] then AList.update key val extHdrs else AList.delete key extHdrs))"
  by pat_completeness auto

termination
  by (relation "measure (\<lambda>(s, _). length s)") (auto dest: parsePAXRecord_less)

declare parse_records.simps [simp del]

definition parsePAX :: "'r io_reader_ops \<Rightarrow> nat \<Rightarrow> 'r \<Rightarrow> gomap result \<times> 'r" where
  "parsePAX ops fuel r =
     (case ReadAll ops fuel r [] of
        (buf, Some e, r') \<Rightarrow> (Inl e, r')
      | (buf, None, r') \<Rightarrow>
          (case parse_records buf [] [] of
             Inl e \<Rightarrow> Inl e
           | Inr (sparseMap, extHdrs) \<Rightarrow>
               Inr (if sparseMap \<noteq> [] then AList.update paxGNUSparseMap (Join sparseMap 44) extHdrs
                    else extHdrs), r'))"

section \<open>Sparse maps of format 0.1\<close>

text \<open>The value of a missing key is the empty string.\<close>

definition get_key :: "gomap \<Rightarrow> gostring \<Rightarrow> gostring" where
  "get_key m k = (case map_of m k of None \<Rightarrow> [] | Some v \<Rightarrow> v)"

text \<open>The loop that turns pairs of numerals into sparse entries.\<close>

fun parse_entries :: "gostring list \<Rightarrow> sparseEntry list result" where
  "parse_entries (a # b # ws) =
     (case ParseInt a 10 of
        (_, Some _) \<Rightarrow> Inl ErrHeader
      | (offset, None) \<Rightarrow>
          case ParseInt b 10 of
            (_, Some _) \<Rightarrow> Inl ErrHeader
          | (numBytes, None) \<Rightarrow>
              case parse_entries ws of
                Inl e \<Rightarrow> Inl e
              | Inr sp \<Rightarrow> Inr (\<lparr>se_offset = offset, se_numBytes = numBytes\<rparr> # sp))"
| "parse_entries _ = Inr []"

text \<open>The number of entries as both readers of a map check it.\<close>

definition parse_count :: "gostring \<Rightarrow> int option" where
  "parse_count s =
     (case ParseInt s 10 of
        (_, Some _) \<Rightarrow> None
      | (n, None) \<Rightarrow> if n < 0 \<or> i64 (2 * n) < n then None else Some n)"

definition readGNUSparseMap0x1 :: "gomap \<Rightarrow> sparseEntry list result" where
  "readGNUSparseMap0x1 extHdrs =
     (case parse_count (get_key extHdrs paxGNUSparseNumBlocks) of
        None \<Rightarrow> Inl ErrHeader
      | Some numEntries \<Rightarrow>
          let sparseMap = Split (get_key extHdrs paxGNUSparseMap) 44
          in if int (length sparseMap) \<noteq> i64 (2 * numEntries) then Inl ErrHeader
             else parse_entries sparseMap)"

section \<open>Sparse maps of format 1.0\<close>

text \<open>
  \<^verbatim>\<open>feedTokens\<close>: blocks are read until the buffer holds enough newlines. The fuel
  bounds the number of blocks; one more than the bytes left in the reader is enough, since
  every block takes 512 of them.
\<close>

fun feedTokens :: "'r io_reader_ops \<Rightarrow> nat \<Rightarrow> int \<Rightarrow> 'r \<Rightarrow> int \<Rightarrow> byte list
    \<Rightarrow> go_error option \<times> 'r \<times> int \<times> byte list" where
  "feedTokens ops fuel cnt r cntNewline buf =
     (if cntNewline < cnt then
        case fuel of
          0 \<Rightarrow> (Some NoProgress, r, cntNewline, buf)
        | Suc fuel' \<Rightarrow>
            case ReadFull ops r 512 of
              (blk, Some e, r') \<Rightarrow>
                (Some (if e = EOF then ErrUnexpectedEOF else e), r', cntNewline, buf)
            | (blk, None, r') \<Rightarrow>
                feedTokens ops fuel' cnt r'
                  (cntNewline + int (length (filter (\<lambda>c. c = 10) blk))) (buf @ blk)
      else (None, r, cntNewline, buf))"

declare feedTokens.simps [simp del]

text \<open>\<^verbatim>\<open>nextToken\<close>: without a newline the token is all of the buffer, cut by one byte.\<close>

definition nextToken :: "byte list \<Rightarrow> (gostring \<times> byte list) result" where
  "nextToken buf =
     (case IndexByte buf 10 of
        Some i \<Rightarrow> Inr (take i buf, drop (i + 1) buf)
      | None \<Rightarrow> if buf = [] then Inl (Panic ''slice bounds out of range'') else Inr (butlast buf, []))"

fun token_entries :: "nat \<Rightarrow> byte list \<Rightarrow> sparseEntry list result" where
  "token_entries 0 buf = Inr []"
| "token_entries (Suc n) buf =
     (case nextToken buf of
        Inl e \<Rightarrow> Inl e
      | Inr (a, buf1) \<Rightarrow>
          case ParseInt a 10 of
            (_, Some _) \<Rightarrow> Inl ErrHeader
          | (offset, None) \<Rightarrow>
              case nextToken buf1 of
                Inl e \<Rightarrow> Inl e
              | Inr (b, buf2) \<Rightarrow>
                  case ParseInt b 10 of
                    (_, Some _) \<Rightarrow> Inl ErrHeader
                  | (numBytes, None) \<Rightarrow>
                      case token_entries n buf2 of
                        Inl e \<Rightarrow> Inl e
                      | Inr sp \<Rightarrow> Inr (\<lparr>se_offset = offset, se_numBytes = numBytes\<rparr> # sp))"

definition readGNUSparseMap1x0 :: "'r io_reader_ops \<Rightarrow> nat \<Rightarrow> 'r \<Rightarrow> sparseEntry list result \<times> 'r" where
  "readGNUSparseMap1x0 ops fuel r =
     (case feedTokens ops fuel 1 r 0 [] of
        (Some e, r1, _, _) \<Rightarrow> (Inl e, r1)
      | (None, r1, cnt, buf) \<Rightarrow>
          case nextToken buf of
            Inl e \<Rightarrow> (Inl e, r1)
          | Inr (tok, buf1) \<Rightarrow>
              case parse_count tok of
                None \<Rightarrow> (Inl ErrHeader, r1)
              | Some numEntries \<Rightarrow>
                  case feedTokens ops fuel (i64 (2 * numEntries)) r1 (cnt - 1) buf1 of
                    (Some e, r2, _, _) \<Rightarrow> (Inl e, r2)
                  | (None, r2, _, buf2) \<Rightarrow> (token_entries (nat numEntries) buf2, r2))"

section \<open>The effect of merging\<close>

abbreviation xattrs :: "Header \<Rightarrow> gostring \<Rightarrow> gostring option" where
  "xattrs h \<equiv> map_of (case h_Xattrs h of None \<Rightarrow> [] | Some xs \<Rightarrow> xs)"

text \<open>\<open>override m k conv old\<close>: the converted value of the key if it is there, else the old value.\<close>

definition override :: "(gostring \<Rightarrow> gostring option) \<Rightarrow> gostring \<Rightarrow> (gostring \<Rightarrow> 'a) \<Rightarrow> 'a \<Rightarrow> 'a" where
  "override m k conv old = (case m k of None \<Rightarrow> old | Some v \<Rightarrow> conv v)"

definition num_of :: "gostring \<Rightarrow> int" where
  "num_of v = fst (ParseInt v 10)"

definition time_of :: "gostring \<Rightarrow> gotime" where
  "time_of v = (case parsePAXTime v of Inr t \<Rightarrow> t | Inl _ \<Rightarrow> zero_time)"

text \<open>A record whose value has to be a number or a time and is none.\<close>

definition bad_record :: "gostring \<Rightarrow> gostring \<Rightarrow> bool" where
  "bad_record k v \<longleftrightarrow>
     k \<in> {paxUid, paxGid, paxSize} \<and> snd (ParseInt v 10) \<noteq> None \<or>
     k \<in> {paxAtime, paxMtime, paxCtime} \<and> (\<exists>e. parsePAXTime v = Inl e)"

lemma set_num_Inr: "set_num f r = Inr h \<longleftrightarrow> snd r = None \<and> h = f (fst r)"
  by (cases r; cases "snd r") (auto simp: set_num_def)

lemma set_time_Inr: "set_time f r = Inr h \<longleftrightarrow> (\<exists>t. r = Inr t \<and> h = f t)"
  by (cases r) (auto simp: set_time_def)

lemma pax_keys_distinct:
  "distinct [paxPath, paxLinkpath, paxUname, paxGname, paxUid, paxGid, paxAtime, paxMtime, paxCtime, paxSize]"
  "\<forall>k \<in> {paxPath, paxLinkpath, paxUname, paxGname, paxUid, paxGid, paxAtime, paxMtime, paxCtime, paxSize}.
     \<not> HasPrefix k paxXattr"
  by (simp_all add: pax_keys HasPrefix_def)

text \<open>The header that a record which is accepted gives.\<close>

definition merged :: "gostring \<Rightarrow> gostring \<Rightarrow> Header \<Rightarrow> Header" where
  "merged k v h =
     (if k = paxPath then h\<lparr>h_Name := v\<rparr> else if k = paxLinkpath then h\<lparr>h_Linkname := v\<rparr>
      else if k = paxUname then h\<lparr>h_Uname := v\<rparr> else if k = paxGname then h\<lparr>h_Gname := v\<rparr>
      else if k = paxUid then h\<lparr>h_Uid := num_of v\<rparr> else if k = paxGid then h\<lparr>h_Gid := num_of v\<rparr>
      else if k = paxAtime then h\<lparr>h_AccessTime := time_of v\<rparr> else if k = paxMtime then h\<lparr>h_ModTime := time_of v\<rparr>
      else if k = paxCtime then h\<lparr>h_ChangeTime := time_of v\<rparr> else if k = paxSize then h\<lparr>h_Size := num_of v\<rparr>
      else if HasPrefix k paxXattr then
        h\<lparr>h_Xattrs := Some (AList.update (drop (length paxXattr) k) v (case h_Xattrs h of None \<Rightarrow> [] | Some xs \<Rightarrow> xs))\<rparr>
      else h)"

lemma set_num_value: "set_num f (ParseInt v 10) = Inr h \<Longrightarrow> h = f (num_of v)"
  by (simp add: set_num_Inr num_of_def)

lemma set_time_value: "set_time f (parsePAXTime v) = Inr h \<Longrightarrow> h = f (time_of v)"
  by (auto simp: set_time_Inr time_of_def)

lemma if_Inr:
  "(if c then x else y) = Inr h \<Longrightarrow> (x = Inr h \<Longrightarrow> h = x') \<Longrightarrow> (y = Inr h \<Longrightarrow> h = y') \<Longrightarrow> h = (if c then x' else y')"
  by (cases c) simp_all

lemma merge_record_merged: "merge_record k v h = Inr h1 \<Longrightarrow> h1 = merged k v h"
  unfolding merge_record_def merged_def Let_def
  by (elim if_Inr set_num_value set_time_value) simp_all

lemma merge_record_fields:
  assumes "merge_record k v h = Inr h1"
  shows "h_Name h1 = (if k = paxPath then v else h_Name h)"
    and "h_Linkname h1 = (if k = paxLinkpath then v else h_Linkname h)"
    and "h_Uname h1 = (if k = paxUname then v else h_Uname h)"
    and "h_Gname h1 = (if k = paxGname then v else h_Gname h)"
    and "h_Uid h1 = (if k = paxUid then num_of v else h_Uid h)"
    and "h_Gid h1 = (if k = paxGid then num_of v else h_Gid h)"
    and "h_Size h1 = (if k = paxSize then num_of v else h_Size h)"
    and "h_AccessTime h1 = (if k = paxAtime then time_of v else h_AccessTime h)"
    and "h_ModTime h1 = (if k = paxMtime then time_of v else h_ModTime h)"
    and "h_ChangeTime h1 = (if k = paxCtime then time_of v else h_ChangeTime h)"
    and "xattrs h1 = (if HasPrefix k paxXattr then (xattrs h)(drop (length paxXattr) k \<mapsto> v) else xattrs h)"
    and "h_Mode h1 = h_Mode h" "h_Typeflag h1 = h_Typeflag h"
    and "h_Devmajor h1 = h_Devmajor h" "h_Devminor h1 = h_Devminor h"
  unfolding merge_record_merged [OF assms] merged_def using pax_keys_distinct by (simp_all add: update_conv')

lemma merge_record_bad: "merge_record k v h = Inl e \<Longrightarrow> e = ErrHeader \<and> bad_record k v"
  by (auto simp: merge_record_def bad_record_def set_num_def set_time_def Let_def
      split: if_splits option.splits prod.splits sum.splits)

lemma merge_record_good: "merge_record k v h = Inr h1 \<Longrightarrow> \<not> bad_record k v"
  using pax_keys_distinct(1)
  by (auto simp: merge_record_def bad_record_def set_num_Inr set_time_Inr split: if_splits)

lemma override_Cons:
  "k \<notin> dom m \<Longrightarrow> override m k' conv (if k = k' then conv v else old) = override (m(k \<mapsto> v)) k' conv old"
  by (auto simp: override_def split: option.splits)

lemma map_of_notin: "k \<notin> set (map fst kvs) \<Longrightarrow> k \<notin> dom (map_of kvs)"
  by (simp add: dom_map_of_conv_image_fst)

lemma xattr_key: "HasPrefix k paxXattr \<Longrightarrow> paxXattr @ drop (length paxXattr) k = k"
  unfolding HasPrefix_def by (metis append_take_drop_id)

lemma HasPrefix_append [simp]: "HasPrefix (p @ a) p"
  by (simp add: HasPrefix_def)

lemma mergePAX_Inr:
  assumes "mergePAX h kvs = Inr h'" "distinct (map fst kvs)"
  shows "h_Name h' = override (map_of kvs) paxPath id (h_Name h) \<and>
     h_Linkname h' = override (map_of kvs) paxLinkpath id (h_Linkname h) \<and>
     h_Uname h' = override (map_of kvs) paxUname id (h_Uname h) \<and>
     h_Gname h' = override (map_of kvs) paxGname id (h_Gname h) \<and>
     h_Uid h' = override (map_of kvs) paxUid num_of (h_Uid h) \<and>
     h_Gid h' = override (map_of kvs) paxGid num_of (h_Gid h) \<and>
     h_Size h' = override (map_of kvs) paxSize num_of (h_Size h) \<and>
     h_AccessTime h' = override (map_of kvs) paxAtime time_of (h_AccessTime h) \<and>
     h_ModTime h' = override (map_of kvs) paxMtime time_of (h_ModTime h) \<and>
     h_ChangeTime h' = override (map_of kvs) paxCtime time_of (h_ChangeTime h) \<and>
     (\<forall>a. xattrs h' a = override (map_of kvs) (paxXattr @ a) Some (xattrs h a)) \<and>
     h_Mode h' = h_Mode h \<and> h_Typeflag h' = h_Typeflag h \<and>
     h_Devmajor h' = h_Devmajor h \<and> h_Devminor h' = h_Devminor h"
  using assms
proof (induction kvs arbitrary: h)
  case Nil
  then show ?case by (simp add: override_def)
next
  case (Cons kv kvs)
  obtain k v where kv: "kv = (k, v)" by fastforce
  obtain h1 where h1: "merge_record k v h = Inr h1" "mergePAX h1 kvs = Inr h'"
    using Cons.prems(1) by (auto simp: kv split: sum.splits)
  have new: "k \<notin> dom (map_of kvs)" using Cons.prems(2) by (intro map_of_notin) (auto simp: kv)
  have xa: "xattrs h1 a = (if k = paxXattr @ a then Some v else xattrs h a)" for a
    using merge_record_fields(11) [OF h1(1)] xattr_key [of k] by auto
  have id: "override m k' id (if k = k' then v else old) = override m k' id (if k = k' then id v else old)"
    for m k' and old :: gostring by simp
  note IH = Cons.IH [OF h1(2)]
  note f = merge_record_fields [OF h1(1)]
  show ?case
    using IH Cons.prems(2)
    unfolding kv f(1-10) f(12-) xa id override_Cons [OF new] map_of.simps fst_conv snd_conv
      list.map distinct.simps
    by blast
qed

lemma mergePAX_Inl: "mergePAX h kvs = Inl e \<Longrightarrow> e = ErrHeader \<and> (\<exists>(k, v) \<in> set kvs. bad_record k v)"
  by (induction kvs arbitrary: h) (fastforce split: sum.splits dest: merge_record_bad)+

lemma mergePAX_good: "mergePAX h kvs = Inr h' \<Longrightarrow> (k, v) \<in> set kvs \<Longrightarrow> \<not> bad_record k v"
  by (induction kvs arbitrary: h) (auto split: sum.splits dest: merge_record_good)

text \<open>
  C23. What \<^verbatim>\<open>mergePAX\<close> does to a header: each field that has a PAX keyword gets the
  value of that keyword when it is present, numbers and times converted, and keeps its old value
  otherwise; the keywords with the xattr prefix extend the extended attributes; all other fields
  stay. It fails, and only with \<open>ErrHeader\<close>, exactly when some number or time does not parse.
\<close>

theorem mergePAX_spec:
  assumes "distinct (map fst kvs)"
  shows "if \<exists>(k, v) \<in> set kvs. bad_record k v then mergePAX h kvs = Inl ErrHeader
    else \<exists>h'. mergePAX h kvs = Inr h' \<and>
     h_Name h' = override (map_of kvs) paxPath id (h_Name h) \<and>
     h_Linkname h' = override (map_of kvs) paxLinkpath id (h_Linkname h) \<and>
     h_Uname h' = override (map_of kvs) paxUname id (h_Uname h) \<and>
     h_Gname h' = override (map_of kvs) paxGname id (h_Gname h) \<and>
     h_Uid h' = override (map_of kvs) paxUid num_of (h_Uid h) \<and>
     h_Gid h' = override (map_of kvs) paxGid num_of (h_Gid h) \<and>
     h_Size h' = override (map_of kvs) paxSize num_of (h_Size h) \<and>
     h_AccessTime h' = override (map_of kvs) paxAtime time_of (h_AccessTime h) \<and>
     h_ModTime h' = override (map_of kvs) paxMtime time_of (h_ModTime h) \<and>
     h_ChangeTime h' = override (map_of kvs) paxCtime time_of (h_ChangeTime h) \<and>
     (\<forall>a. xattrs h' a = override (map_of kvs) (paxXattr @ a) Some (xattrs h a)) \<and>
     h_Mode h' = h_Mode h \<and> h_Typeflag h' = h_Typeflag h \<and>
     h_Devmajor h' = h_Devmajor h \<and> h_Devminor h' = h_Devminor h"
proof (cases "mergePAX h kvs")
  case (Inl e)
  then show ?thesis using mergePAX_Inl [OF Inl] by auto
next
  case (Inr h')
  then have "\<not> (\<exists>(k, v) \<in> set kvs. bad_record k v)" using mergePAX_good [OF Inr] by auto
  then show ?thesis using mergePAX_Inr [OF Inr assms] Inr by simp
qed

theorem mergePAX_spec_witness:
  "\<exists>h'. mergePAX new_Header [(paxPath, str ''p''), (paxUid, str ''7'')] = Inr h' \<and>
     h_Name h' = str ''p'' \<and> h_Uid h' = 7 \<and> h_Gid h' = 0"
proof -
  have num: "ParseInt (str ''7'') 10 = (7, None)"
    by (simp add: ParseInt_def ParseUint_def digit_val_def)
  have "\<not> (\<exists>(k, v) \<in> set [(paxPath, str ''p''), (paxUid, str ''7'')]. bad_record k v)"
    by (simp add: bad_record_def num [simplified]) (simp add: pax_keys)
  moreover have "distinct (map fst [(paxPath, str ''p''), (paxUid, str ''7'')])"
    by (simp add: pax_keys)
  ultimately show ?thesis
    using mergePAX_spec [of "[(paxPath, str ''p''), (paxUid, str ''7'')]" new_Header] num
    by (auto simp: override_def num_of_def new_Header_def pax_keys simp del: mergePAX.simps)
qed

text \<open>
  C29. The order in which Go happens to iterate the map of extended headers does not matter: two
  iterations of the same map fail alike or give headers that agree in every field, the extended
  attributes as maps.
\<close>

theorem mergePAX_order:
  assumes "set kvs = set kvs'" "distinct (map fst kvs)" "distinct (map fst kvs')"
  shows "case (mergePAX h kvs, mergePAX h kvs') of
      (Inl e, Inl e') \<Rightarrow> e = e'
    | (Inr a, Inr b) \<Rightarrow> a\<lparr>h_Xattrs := None\<rparr> = b\<lparr>h_Xattrs := None\<rparr> \<and> xattrs a = xattrs b
    | _ \<Rightarrow> False"
proof -
  have map: "map_of kvs = map_of kvs'" using assms by (simp add: map_of_inject_set)
  show ?thesis
  proof (cases "mergePAX h kvs")
    case (Inl e)
    note l = mergePAX_Inl [OF Inl]
    then obtain e' where "mergePAX h kvs' = Inl e'"
      using mergePAX_good [of h kvs'] assms(1) by (cases "mergePAX h kvs'") auto
    then show ?thesis using mergePAX_Inl [of h kvs'] Inl l by simp
  next
    case (Inr a)
    then obtain b where b: "mergePAX h kvs' = Inr b"
      using mergePAX_Inl [of h kvs'] mergePAX_good [OF Inr] assms(1) by (cases "mergePAX h kvs'") auto
    have "xattrs a = xattrs b"
      using mergePAX_Inr [OF Inr assms(2)] mergePAX_Inr [OF b assms(3)] map by (intro ext) simp
    moreover have "a\<lparr>h_Xattrs := None\<rparr> = b\<lparr>h_Xattrs := None\<rparr>"
      using mergePAX_Inr [OF Inr assms(2)] mergePAX_Inr [OF b assms(3)] map by (intro Header.equality) simp_all
    ultimately show ?thesis using Inr b by simp
  qed
qed
theorem mergePAX_order_witness:
  "(\<exists>a b. mergePAX new_Header [(paxPath, str ''p''), (paxUname, str ''u'')] = Inr a \<and>
     mergePAX new_Header [(paxUname, str ''u''), (paxPath, str ''p'')] = Inr b \<and> h_Name a = h_Name b)"
proof -
  let ?k = "[(paxPath, str ''p''), (paxUname, str ''u'')]"
  let ?k' = "[(paxUname, str ''u''), (paxPath, str ''p'')]"
  have "set ?k = set ?k'" "distinct (map fst ?k)" "distinct (map fst ?k')" by (auto simp: pax_keys)
  from mergePAX_order [OF this, of new_Header] show ?thesis
    by (simp add: merge_record_def pax_keys)
qed

section \<open>Reading back what was written\<close>

text \<open>A record that \<^verbatim>\<open>parsePAX\<close> stores as it stands.\<close>

definition plain_record :: "gostring \<times> gostring \<Rightarrow> bool" where
  "plain_record kv \<longleftrightarrow>
     fst kv \<noteq> [] \<and> 61 \<notin> set (fst kv) \<and> snd kv \<noteq> [] \<and> length (fst kv) + length (snd kv) < 2 ^ 62 \<and>
     fst kv \<noteq> paxGNUSparseOffset \<and> fst kv \<noteq> paxGNUSparseNumBytes"

definition pax_body :: "gomap \<Rightarrow> gostring" where
  "pax_body kvs = concat (map (\<lambda>(k, v). formatPAXRecord k v) kvs)"

lemma formatPAXRecord_nonempty [simp]: "formatPAXRecord k v \<noteq> []"
  by (simp add: formatPAXRecord_def Let_def pax_line_def)

lemma update_new: "k \<notin> fst ` set m \<Longrightarrow> AList.update k v m = m @ [(k, v)]"
  by (induction m) auto

lemma parse_records_plain:
  assumes "\<forall>kv \<in> set kvs. plain_record kv" "distinct (map fst (m @ kvs))"
  shows "parse_records (pax_body kvs) sm m = Inr (sm, m @ kvs)"
  using assms
proof (induction kvs arbitrary: m)
  case Nil
  then show ?case by (simp add: pax_body_def parse_records.simps)
next
  case (Cons kv kvs)
  obtain k v where kv: "kv = (k, v)" by fastforce
  have p: "plain_record (k, v)" using Cons.prems(1) by (simp add: kv)
  have body: "pax_body (kv # kvs) = formatPAXRecord k v @ pax_body kvs" by (simp add: pax_body_def kv)
  have rec: "parsePAXRecord (pax_body (kv # kvs)) = Inr (k, v, pax_body kvs)"
    unfolding body using p by (intro parsePAXRecord_line) (simp_all add: plain_record_def)
  have ne: "pax_body (kv # kvs) \<noteq> []" by (simp add: body)
  have "AList.update k v m = m @ [(k, v)]" using Cons.prems(2) by (intro update_new) (auto simp: kv)
  then have "parse_records (pax_body (kv # kvs)) sm m = parse_records (pax_body kvs) sm (m @ [(k, v)])"
    using p ne rec by (subst parse_records.simps) (simp add: plain_record_def)
  then show ?case using Cons.IH [of "m @ [kv]"] Cons.prems by (simp add: kv)
qed

context io_reader
begin

lemma parsePAX_read:
  assumes "ok r" "fins r \<subseteq> {EOF}" "length (left r) < fuel"
  obtains r' where "ok r'" "left r' = []" "fins r' \<subseteq> fins r"
    and "parsePAX ops fuel r =
      (case parse_records (left r) [] [] of
         Inl e \<Rightarrow> Inl e
       | Inr (sm, ext) \<Rightarrow> Inr (if sm \<noteq> [] then AList.update paxGNUSparseMap (Join sm 44) ext else ext), r')"
proof -
  obtain r' x where "x \<in> fins r" "ok r'" "left r' = []" "fins r' \<subseteq> fins r"
    and all: "ReadAll ops fuel r [] = ([] @ left r, if x = EOF then None else Some x, r')"
    using assms by (rule_tac ReadAll_ok [OF assms(1,3), of "[]"])
  moreover from this have "x = EOF" using assms(2) by auto
  ultimately show thesis using that by (simp add: parsePAX_def)
qed

end


text \<open>
  C24. Round trip of an extended header: from any reader that delivers the records written for
  a map, \<^verbatim>\<open>parsePAX\<close> returns that map and leaves nothing unread. The keys are those a
  writer uses: non-empty, distinct, without equals sign and none of the two sparse keys that are
  collected separately; a value is not empty since an empty value deletes its key.
\<close>

theorem parsePAX_roundtrip:
  assumes "io_reader ops ok left fins" "ok r" "fins r \<subseteq> {EOF}" "left r = pax_body kvs"
    and "\<forall>kv \<in> set kvs. plain_record kv" "distinct (map fst kvs)" "length (pax_body kvs) < fuel"
  shows "\<exists>r'. parsePAX ops fuel r = (Inr kvs, r') \<and> left r' = []"
proof -
  have "length (left r) < fuel" using assms(4,7) by simp
  with assms(1-3) obtain r' where "left r' = []" "parsePAX ops fuel r =
      (case parse_records (left r) [] [] of
         Inl e \<Rightarrow> Inl e
       | Inr (sm, ext) \<Rightarrow> Inr (if sm \<noteq> [] then AList.update paxGNUSparseMap (Join sm 44) ext else ext), r')"
    by (rule io_reader.parsePAX_read)
  then show ?thesis
    using parse_records_plain [OF assms(5), of "[]" "[]"] assms(4,6) by simp
qed

theorem parsePAX_roundtrip_witness:
  "\<exists>r'. parsePAX bytes_ops 100 (new_bytes_reader (pax_body [(paxPath, str ''p''), (paxUid, str ''7'')])) =
    (Inr [(paxPath, str ''p''), (paxUid, str ''7'')], r') \<and> bytes_left r' = []"
proof (rule parsePAX_roundtrip [OF bytes.io_reader_axioms TrueI])
  show "\<forall>kv \<in> set [(paxPath, str ''p''), (paxUid, str ''7'')]. plain_record kv"
    by (simp add: plain_record_def pax_keys)
  show "distinct (map fst [(paxPath, str ''p''), (paxUid, str ''7'')])" by (simp add: pax_keys)
  show "length (pax_body [(paxPath, str ''p''), (paxUid, str ''7'')]) < 100"
    by (simp add: pax_body_def formatPAXRecord_def Let_def length_pax_line pax_keys FormatUint_def digits_of.simps)
qed simp_all

section \<open>Sparse maps in PAX headers\<close>

lemma Split_nonempty [simp]: "Split s c \<noteq> []"
  by (induction s) (auto split: list.splits)

lemma Split_word: "c \<notin> set w \<Longrightarrow> Split w c = [w]"
  by (induction w) auto

lemma Split_Cons_sep: "c \<notin> set w \<Longrightarrow> Split (w @ c # s) c = w # Split s c"
  by (induction w) auto

lemma Split_Join: "ws \<noteq> [] \<Longrightarrow> \<forall>w \<in> set ws. c \<notin> set w \<Longrightarrow> Split (Join ws c) c = ws"
  by (induction ws c rule: Join.induct) (auto simp: Split_word Split_Cons_sep)

text \<open>The numerals of a sparse map, offset and length of each fragment in turn.\<close>

definition sparse_numerals :: "sparseEntry list \<Rightarrow> gostring list" where
  "sparse_numerals sp = concat (map (\<lambda>s. [FormatInt 10 (se_offset s), FormatInt 10 (se_numBytes s)]) sp)"

lemma parse_entries_numerals:
  "\<forall>s \<in> set sp. in_i64 (se_offset s) \<and> in_i64 (se_numBytes s) \<Longrightarrow> parse_entries (sparse_numerals sp) = Inr sp"
  by (induction sp) (auto simp: sparse_numerals_def ParseInt_FormatInt)

lemma length_sparse_numerals: "length (sparse_numerals sp) = 2 * length sp"
  by (induction sp) (auto simp: sparse_numerals_def)

lemma FormatInt_not_in: "unat c < 45 \<Longrightarrow> c \<notin> set (FormatInt 10 x)"
  using FormatUint_not_in [of 10 c] by (auto simp: FormatInt_def word_less_nat_alt)

lemma parse_count_FormatInt:
  assumes "0 \<le> n" "n < 4611686018427387904"
  shows "parse_count (FormatInt 10 n) = Some n"
  using assms by (simp add: parse_count_def ParseInt_FormatInt in_i64_def)

text \<open>
  C36. Round trip of the sparse map of format 0.1: the decimal numerals of a non-empty map, joined
  by commas, with the number of its entries, are read back as that map.
\<close>

theorem readGNUSparseMap0x1_roundtrip:
  assumes "sp \<noteq> []" "length sp < 4611686018427387904"
    and "\<forall>s \<in> set sp. in_i64 (se_offset s) \<and> in_i64 (se_numBytes s)"
    and "map_of ext paxGNUSparseNumBlocks = Some (FormatInt 10 (int (length sp)))"
    and "map_of ext paxGNUSparseMap = Some (Join (sparse_numerals sp) 44)"
  shows "readGNUSparseMap0x1 ext = Inr sp"
proof -
  have cnt: "parse_count (FormatInt 10 (int (length sp))) = Some (int (length sp))"
    using assms(2) by (intro parse_count_FormatInt) simp_all
  have ne: "sparse_numerals sp \<noteq> []" using assms(1) by (cases sp) (auto simp: sparse_numerals_def)
  have "\<forall>w \<in> set (sparse_numerals sp). 44 \<notin> set w"
    using FormatInt_not_in [of 44] by (auto simp: sparse_numerals_def)
  with ne have "Split (Join (sparse_numerals sp) 44) 44 = sparse_numerals sp" by (rule Split_Join)
  moreover have "i64 (2 * int (length sp)) = 2 * int (length sp)"
    using assms(2) by (intro i64_id) (simp add: in_i64_def)
  ultimately show ?thesis
    using assms cnt by (simp add: readGNUSparseMap0x1_def get_key_def length_sparse_numerals parse_entries_numerals)
qed

theorem readGNUSparseMap0x1_roundtrip_witness:
  "readGNUSparseMap0x1 [(paxGNUSparseNumBlocks, FormatInt 10 1),
     (paxGNUSparseMap, Join (sparse_numerals [\<lparr>se_offset = 2, se_numBytes = 3\<rparr>]) 44)] =
   Inr [\<lparr>se_offset = 2, se_numBytes = 3\<rparr>]"
  by (rule readGNUSparseMap0x1_roundtrip) (simp_all add: in_i64_def pax_keys)

text \<open>
  A sparse file without any data cannot be represented in format 0.1: the empty map of zero
  entries splits into one empty numeral, and the header is rejected.
\<close>

lemma readGNUSparseMap0x1_empty:
  "readGNUSparseMap0x1 [(paxGNUSparseNumBlocks, str ''0''), (paxGNUSparseMap, [])] = Inl ErrHeader"
  by (simp add: readGNUSparseMap0x1_def get_key_def pax_keys parse_count_def ParseInt_def ParseUint_def
      digit_val_def i64_def)

end
