(* ===== verification/Tar_Reader.thy ===== *)
theory Tar_Reader
  imports Tar_Pax
begin

text \<open>
  The \<^verbatim>\<open>Reader\<close> of \<^verbatim>\<open>tar/reader.go\<close>: its state, \<^verbatim>\<open>Read\<close>,
  \<^verbatim>\<open>skipUnread\<close>, \<^verbatim>\<open>readHeader\<close>, the handlers of regular and sparse files, and
  \<^verbatim>\<open>next\<close> / \<^verbatim>\<open>Next\<close>. The archive is read through the method table
  \<open>ops\<close> of an arbitrary \<^verbatim>\<open>io.Reader\<close>, whose state is the component
  \<open>tr_r\<close>.

  The loops of \<^verbatim>\<open>next\<close> and of the functions it calls take fuel. Each round of a loop
  takes at least one block from the archive, so any fuel larger than the number of bytes left
  is enough, which the theory \<open>Tar_Total\<close> proves.
\<close>

section \<open>State\<close>

text \<open>
  The field \<^verbatim>\<open>curr\<close> is an interface value: nil, a regular or a sparse file reader. A
  failing \<^verbatim>\<open>newSparseFileReader\<close> leaves a nil pointer of type
  \<^verbatim>\<open>*sparseFileReader\<close> in it, which is not the nil interface.
\<close>

datatype curr_reader = CurrNil | CurrReg int | CurrSparse sparseFileReader | CurrSparseNil

record 'r Reader =
  tr_r :: 'r
  tr_pad :: int
  tr_curr :: curr_reader
  tr_blk :: block
  tr_err :: "go_error option"

definition NewReader :: "'r \<Rightarrow> 'r Reader" where
  "NewReader r = \<lparr>tr_r = r, tr_pad = 0, tr_curr = CurrNil, tr_blk = zeroBlock, tr_err = None\<rparr>"

section \<open>Reading file data\<close>

text \<open>The methods of the interface \<^verbatim>\<open>numBytesReader\<close>, by dynamic dispatch.\<close>

definition curr_Read :: "'r io_reader_ops \<Rightarrow> 'r \<Rightarrow> curr_reader \<Rightarrow> nat
    \<Rightarrow> byte list \<times> go_error option \<times> 'r \<times> curr_reader" where
  "curr_Read ops r c n =
     (case c of
        CurrReg nb \<Rightarrow>
          (case regFileReader_Read ops r nb n of (bs, e, r', nb') \<Rightarrow> (bs, e, r', CurrReg nb'))
      | CurrSparse sfr \<Rightarrow>
          (case sparseFileReader_Read ops r sfr n of (bs, e, r', sfr') \<Rightarrow> (bs, e, r', CurrSparse sfr'))
      | _ \<Rightarrow> ([], Some (Panic ''nil pointer dereference''), r, c))"

definition curr_ops :: "'r io_reader_ops \<Rightarrow> ('r \<times> curr_reader) io_reader_ops" where
  "curr_ops ops =
     \<lparr>op_read = (\<lambda>(r, c) n. case curr_Read ops r c n of (bs, e, r', c') \<Rightarrow> (bs, e, (r', c'))),
      op_seek = None\<rparr>"

text \<open>
  \<^verbatim>\<open>numBytes\<close> of the nil sparse file reader is a nil dereference in the code. It is never called
  there: the error that left the nil pointer is stored, and later calls return it (theory \<open>Tar_Total\<close>).
\<close>

fun numBytes :: "curr_reader \<Rightarrow> int" where
  "numBytes (CurrReg nb) = nb"
| "numBytes (CurrSparse sfr) = sfr_nb sfr"
| "numBytes _ = 0"

definition Reader_Read :: "'r io_reader_ops \<Rightarrow> 'r Reader \<Rightarrow> nat
    \<Rightarrow> byte list \<times> go_error option \<times> 'r Reader" where
  "Reader_Read ops tr n =
     (if tr_err tr \<noteq> None then ([], tr_err tr, tr)
      else if tr_curr tr = CurrNil then ([], Some EOF, tr)
      else case curr_Read ops (tr_r tr) (tr_curr tr) n of
        (bs, e, r', c') \<Rightarrow>
          (bs, e, tr\<lparr>tr_r := r', tr_curr := c',
                     tr_err := if e \<noteq> None \<and> e \<noteq> Some EOF then e else tr_err tr\<rparr>))"

definition tr_ops :: "'r io_reader_ops \<Rightarrow> 'r Reader io_reader_ops" where
  "tr_ops ops = \<lparr>op_read = Reader_Read ops, op_seek = None\<rparr>"

section \<open>Skipping\<close>

text \<open>
  The seek of \<^verbatim>\<open>skipUnread\<close>: the number of bytes skipped with it, or the error that
  ends \<^verbatim>\<open>skipUnread\<close>.
\<close>

definition seek_skip :: "'r io_reader_ops \<Rightarrow> 'r \<Rightarrow> int \<Rightarrow> int result \<times> 'r" where
  "seek_skip ops r dataSkip =
     (case op_seek ops of
        None \<Rightarrow> (Inr 0, r)
      | Some sk \<Rightarrow>
          if dataSkip \<le> 1 then (Inr 0, r)
          else case sk r 0 of
            (Inl _, r1) \<Rightarrow> (Inr 0, r1)
          | (Inr pos1, r1) \<Rightarrow>
              case sk r1 (dataSkip - 1) of
                (Inl e, r2) \<Rightarrow> (Inl e, r2)
              | (Inr pos2, r2) \<Rightarrow> (Inr (i64 (pos2 - pos1)), r2))"

definition skipUnread :: "'r io_reader_ops \<Rightarrow> 'r Reader \<Rightarrow> go_error option \<times> 'r Reader" where
  "skipUnread ops tr =
     (let dataSkip = numBytes (tr_curr tr);
          totalSkip = i64 (dataSkip + tr_pad tr);
          tr = tr\<lparr>tr_curr := CurrNil, tr_pad := 0\<rparr>
      in case seek_skip ops (tr_r tr) dataSkip of
           (Inl e, r1) \<Rightarrow> (Some e, tr\<lparr>tr_r := r1\<rparr>)
         | (Inr seekSkipped, r1) \<Rightarrow>
             case CopyN ops r1 (i64 (totalSkip - seekSkipped)) of
               (copySkipped, err, r2) \<Rightarrow>
                 (if err = Some EOF \<and> i64 (seekSkipped + copySkipped) < dataSkip
                  then Some ErrUnexpectedEOF else err,
                  tr\<lparr>tr_r := r2\<rparr>))"

section \<open>Headers\<close>

definition tryParseTime :: "byte list \<Rightarrow> gotime" where
  "tryParseTime b =
     (let (n, err) = parseNumeric None b
      in if hd b \<noteq> 0 \<and> err = None then time_Unix n 0 else zero_time)"

text \<open>The fields every format has.\<close>

definition parse_v7 :: "block \<Rightarrow> Header \<times> parser" where
  "parse_v7 b =
     (let name = parseString (get_field b v7_Name);
          (mode, p) = parseNumeric None (get_field b v7_Mode);
          (uid, p) = parseNumeric p (get_field b v7_UID);
          (gid, p) = parseNumeric p (get_field b v7_GID);
          (sz, p) = parseNumeric p (get_field b v7_Size);
          (mtime, p) = parseNumeric p (get_field b v7_ModTime)
      in (new_Header\<lparr>h_Name := name, h_Mode := mode, h_Uid := uid, h_Gid := gid, h_Size := sz,
            h_ModTime := time_Unix mtime 0, h_Typeflag := hd (get_field b v7_TypeFlag),
            h_Linkname := parseString (get_field b v7_LinkName)\<rparr>, p))"

text \<open>The fields of the later formats: owner names, device numbers, name prefix, times.\<close>

definition parse_ext :: "nat \<Rightarrow> block \<Rightarrow> Header \<times> parser \<Rightarrow> Header \<times> parser" where
  "parse_ext format b hp =
     (let (hdr, p) = hp;
          hdr = hdr\<lparr>h_Uname := parseString (get_field b ustar_UserName),
                    h_Gname := parseString (get_field b ustar_GroupName)\<rparr>;
          (hdr, p) =
            (if h_Typeflag hdr = TypeChar \<or> h_Typeflag hdr = TypeBlock then
               let (major, p) = parseNumeric p (get_field b ustar_DevMajor);
                   (minor, p) = parseNumeric p (get_field b ustar_DevMinor)
               in (hdr\<lparr>h_Devmajor := major, h_Devminor := minor\<rparr>, p)
             else (hdr, p));
          (prefix, hdr, p) =
            (if format = formatUSTAR then (parseString (get_field b ustar_Prefix), hdr, p)
             else if format = formatSTAR then
               let (atime, p) = parseNumeric p (get_field b star_AccessTime);
                   (ctime, p) = parseNumeric p (get_field b star_ChangeTime)
               in (parseString (get_field b star_Prefix),
                   hdr\<lparr>h_AccessTime := time_Unix atime 0, h_ChangeTime := time_Unix ctime 0\<rparr>, p)
             else if format = formatGNU then
               ([], hdr\<lparr>h_AccessTime := tryParseTime (get_field b gnu_AccessTime),
                        h_ChangeTime := tryParseTime (get_field b gnu_ChangeTime)\<rparr>, p)
             else ([], hdr, p))
      in (if prefix \<noteq> [] then hdr\<lparr>h_Name := prefix @ [47] @ h_Name hdr\<rparr> else hdr, p))"

definition parse_header :: "block \<Rightarrow> Header result" where
  "parse_header b =
     (let format = GetFormat b
      in if format = formatUnknown then Inl ErrHeader
         else
           let (hdr, p) = (if formatV7 < format then parse_ext format b (parse_v7 b) else parse_v7 b)
           in case p of None \<Rightarrow> Inr hdr | Some e \<Rightarrow> Inl e)"

text \<open>\<^verbatim>\<open>io.ReadFull(tr.r, tr.blk[:])\<close>: the bytes read replace the front of the buffer.\<close>

definition read_block :: "'r io_reader_ops \<Rightarrow> 'r Reader \<Rightarrow> go_error option \<times> 'r Reader" where
  "read_block ops tr =
     (case ReadFull ops (tr_r tr) 512 of
        (bs, e, r') \<Rightarrow> (e, tr\<lparr>tr_r := r', tr_blk := copy_into (tr_blk tr) bs\<rparr>))"

definition readHeader :: "'r io_reader_ops \<Rightarrow> 'r Reader \<Rightarrow> Header result \<times> 'r Reader" where
  "readHeader ops tr =
     (case read_block ops tr of
        (Some e, tr1) \<Rightarrow> (Inl e, tr1)
      | (None, tr1) \<Rightarrow>
          if tr_blk tr1 = zeroBlock then
            case read_block ops tr1 of
              (Some e, tr2) \<Rightarrow> (Inl e, tr2)
            | (None, tr2) \<Rightarrow> (Inl (if tr_blk tr2 = zeroBlock then EOF else ErrHeader), tr2)
          else (parse_header (tr_blk tr1), tr1))"

section \<open>Regular and sparse files\<close>

definition handleRegularFile :: "Header \<Rightarrow> 'r Reader \<Rightarrow> go_error option \<times> 'r Reader" where
  "handleRegularFile hdr tr =
     (let nb = (if isHeaderOnlyType (h_Typeflag hdr) then 0 else h_Size hdr)
      in if nb < 0 then (Some ErrHeader, tr)
         else (None, tr\<lparr>tr_pad := (- nb) AND (blockSize - 1), tr_curr := CurrReg nb\<rparr>))"

fun old_sparse_entries :: "byte list \<Rightarrow> nat list \<Rightarrow> sparseEntry list \<Rightarrow> sparseEntry list result" where
  "old_sparse_entries s [] sp = Inr sp"
| "old_sparse_entries s (i # is) sp =
     (if hd (node_Offset (Entry s i)) = 0 then Inr sp
      else
        let (offset, p) = parseNumeric None (node_Offset (Entry s i));
            (numBytes, p) = parseNumeric p (node_NumBytes (Entry s i))
        in case p of
             Some e \<Rightarrow> Inl e
           | None \<Rightarrow> old_sparse_entries s is (sp @ [\<lparr>se_offset = offset, se_numBytes = numBytes\<rparr>]))"

text \<open>The outer loop of \<^verbatim>\<open>readOldGNUSparseMap\<close>: one round per sparse array.\<close>

fun old_sparse_loop :: "'r io_reader_ops \<Rightarrow> nat \<Rightarrow> byte list \<Rightarrow> sparseEntry list \<Rightarrow> 'r Reader
    \<Rightarrow> sparseEntry list result \<times> 'r Reader" where
  "old_sparse_loop ops fuel s sp tr =
     (case old_sparse_entries s [0..<MaxEntries s] sp of
        Inl e \<Rightarrow> (Inl e, tr)
      | Inr sp' \<Rightarrow>
          if 0 < hd (IsExtended s) then
            case fuel of
              0 \<Rightarrow> (Inl NoProgress, tr)
            | Suc fuel' \<Rightarrow>
                case read_block ops tr of
                  (Some e, tr1) \<Rightarrow> (Inl (if e = EOF then ErrUnexpectedEOF else e), tr1)
                | (None, tr1) \<Rightarrow> old_sparse_loop ops fuel' (tr_blk tr1) sp' tr1
          else (Inr sp', tr))"

declare old_sparse_loop.simps [simp del]

definition readOldGNUSparseMap :: "'r io_reader_ops \<Rightarrow> nat \<Rightarrow> Header \<Rightarrow> 'r Reader
    \<Rightarrow> (Header \<times> sparseEntry list) result \<times> 'r Reader" where
  "readOldGNUSparseMap ops fuel hdr tr =
     (if GetFormat (tr_blk tr) \<noteq> formatGNU then (Inl ErrHeader, tr)
      else
        let (sz, p) = parseNumeric None (get_field (tr_blk tr) gnu_RealSize)
        in case p of
             Some e \<Rightarrow> (Inl e, tr)
           | None \<Rightarrow>
               case old_sparse_loop ops fuel (get_field (tr_blk tr) gnu_Sparse) [] tr of
                 (Inl e, tr1) \<Rightarrow> (Inl e, tr1)
               | (Inr sp, tr1) \<Rightarrow> (Inr (hdr\<lparr>h_Size := sz\<rparr>, sp), tr1))"

text \<open>The format indicated by the PAX headers; \<open>None\<close> for none or an unknown one.\<close>

definition sparse_format :: "gomap \<Rightarrow> gostring option" where
  "sparse_format headers =
     (let fmt =
        (case (map_of headers paxGNUSparseMajor, map_of headers paxGNUSparseMinor) of
           (Some major, Some minor) \<Rightarrow> Some (major @ [46] @ minor)
         | _ \<Rightarrow>
             if map_of headers paxGNUSparseName \<noteq> None \<and> map_of headers paxGNUSparseMap \<noteq> None
             then Some (str ''0.1'')
             else if map_of headers paxGNUSparseSize \<noteq> None then Some (str ''0.0'')
             else None)
      in case fmt of
           None \<Rightarrow> None
         | Some f \<Rightarrow> if f \<in> {str ''0.0'', str ''0.1'', str ''1.0''} then Some f else None)"

definition sparse_header :: "gomap \<Rightarrow> Header \<Rightarrow> Header result" where
  "sparse_header headers hdr =
     (let hdr = (case map_of headers paxGNUSparseName of None \<Rightarrow> hdr | Some n \<Rightarrow> hdr\<lparr>h_Name := n\<rparr>)
      in case map_of headers paxGNUSparseSize of
           Some s \<Rightarrow> set_num (\<lambda>x. hdr\<lparr>h_Size := x\<rparr>) (ParseInt s 10)
         | None \<Rightarrow>
             case map_of headers paxGNUSparseRealSize of
               Some s \<Rightarrow> set_num (\<lambda>x. hdr\<lparr>h_Size := x\<rparr>) (ParseInt s 10)
             | None \<Rightarrow> Inr hdr)"

definition checkForGNUSparsePAXHeaders :: "'r io_reader_ops \<Rightarrow> nat \<Rightarrow> Header \<Rightarrow> gomap \<Rightarrow> 'r Reader
    \<Rightarrow> (Header \<times> sparseEntry list option) result \<times> 'r Reader" where
  "checkForGNUSparsePAXHeaders ops fuel hdr headers tr =
     (case sparse_format headers of
        None \<Rightarrow> (Inr (hdr, None), tr)
      | Some fmt \<Rightarrow>
          case sparse_header headers hdr of
            Inl e \<Rightarrow> (Inl e, tr)
          | Inr hdr' \<Rightarrow>
              if fmt = str ''1.0'' then
                case readGNUSparseMap1x0 (curr_ops ops) fuel (tr_r tr, tr_curr tr) of
                  (res, (r', c')) \<Rightarrow>
                    (case res of Inl e \<Rightarrow> Inl e | Inr sp \<Rightarrow> Inr (hdr', Some sp),
                     tr\<lparr>tr_r := r', tr_curr := c'\<rparr>)
              else
                (case readGNUSparseMap0x1 headers of Inl e \<Rightarrow> Inl e | Inr sp \<Rightarrow> Inr (hdr', Some sp), tr))"

definition handleSparseFile :: "'r io_reader_ops \<Rightarrow> nat \<Rightarrow> Header \<Rightarrow> gomap \<Rightarrow> 'r Reader
    \<Rightarrow> Header result \<times> 'r Reader" where
  "handleSparseFile ops fuel hdr extHdrs tr =
     (case (if h_Typeflag hdr = TypeGNUSparse then
              case readOldGNUSparseMap ops fuel hdr tr of
                (Inl e, tr1) \<Rightarrow> (Inl e, tr1)
              | (Inr (hdr', sp), tr1) \<Rightarrow> (Inr (hdr', Some sp), tr1)
            else checkForGNUSparsePAXHeaders ops fuel hdr extHdrs tr) of
        (Inl e, tr1) \<Rightarrow> (Inl e, tr1)
      | (Inr (hdr', None), tr1) \<Rightarrow> (Inr hdr', tr1)
      | (Inr (hdr', Some sp), tr1) \<Rightarrow>
          case newSparseFileReader (numBytes (tr_curr tr1)) sp (h_Size hdr') of
            Inl e \<Rightarrow> (Inl e, tr1\<lparr>tr_curr := CurrSparseNil\<rparr>)
          | Inr sfr \<Rightarrow> (Inr hdr', tr1\<lparr>tr_curr := CurrSparse sfr\<rparr>))"

section \<open>Next\<close>

text \<open>A file that is not a meta header: the branch of \<^verbatim>\<open>next\<close> that returns.\<close>

definition finish_file :: "'r io_reader_ops \<Rightarrow> nat \<Rightarrow> Header \<Rightarrow> gomap \<Rightarrow> 'r Reader
    \<Rightarrow> Header result \<times> 'r Reader" where
  "finish_file ops fuel hdr extHdrs tr =
     (case mergePAX hdr extHdrs of
        Inl e \<Rightarrow> (Inl e, tr)
      | Inr hdr' \<Rightarrow>
          case handleRegularFile hdr' tr of
            (Some e, tr1) \<Rightarrow> (Inl e, tr1)
          | (None, tr1) \<Rightarrow> handleSparseFile ops fuel hdr' extHdrs tr1)"

fun Reader_next :: "'r io_reader_ops \<Rightarrow> nat \<Rightarrow> gomap \<Rightarrow> 'r Reader \<Rightarrow> Header result \<times> 'r Reader" where
  "Reader_next ops 0 extHdrs tr = (Inl NoProgress, tr)"
| "Reader_next ops (Suc fuel) extHdrs tr =
     (case skipUnread ops tr of
        (Some e, tr1) \<Rightarrow> (Inl e, tr1)
      | (None, tr1) \<Rightarrow>
          case readHeader ops tr1 of
            (Inl e, tr2) \<Rightarrow> (Inl e, tr2)
          | (Inr hdr, tr2) \<Rightarrow>
              case handleRegularFile hdr tr2 of
                (Some e, tr3) \<Rightarrow> (Inl e, tr3)
              | (None, tr3) \<Rightarrow>
                  if h_Typeflag hdr = TypeXHeader then
                    case parsePAX (tr_ops ops) fuel tr3 of
                      (Inl e, tr4) \<Rightarrow> (Inl e, tr4)
                    | (Inr extHdrs', tr4) \<Rightarrow> Reader_next ops fuel extHdrs' tr4
                  else if h_Typeflag hdr = TypeGNULongName \<or> h_Typeflag hdr = TypeGNULongLink then
                    case ReadAll (tr_ops ops) fuel tr3 [] of
                      (realname, Some e, tr4) \<Rightarrow> (Inl e, tr4)
                    | (realname, None, tr4) \<Rightarrow>
                        Reader_next ops fuel
                          (AList.update (if h_Typeflag hdr = TypeGNULongName then paxPath else paxLinkpath)
                             (parseString realname) extHdrs) tr4
                  else finish_file ops fuel hdr extHdrs tr3)"

text \<open>
  A panic ends the caller's goroutine, so that no later call sees what is stored with it; here it is stored like an
  error.
\<close>

definition Reader_Next :: "'r io_reader_ops \<Rightarrow> nat \<Rightarrow> 'r Reader \<Rightarrow> Header result \<times> 'r Reader" where
  "Reader_Next ops fuel tr =
     (case tr_err tr of
        Some e \<Rightarrow> (Inl e, tr)
      | None \<Rightarrow>
          case Reader_next ops fuel [] tr of
            (Inl e, tr1) \<Rightarrow> (Inl e, tr1\<lparr>tr_err := Some e\<rparr>)
          | (Inr hdr, tr1) \<Rightarrow> (Inr hdr, tr1\<lparr>tr_err := None\<rparr>))"

section \<open>Errors persist\<close>

lemma seek_skip_none: "n \<le> 1 \<Longrightarrow> seek_skip ops r n = (Inr 0, r)"
  by (simp add: seek_skip_def split: option.splits)

lemma skipUnread_nil:
  "tr_curr tr = CurrNil \<Longrightarrow> tr_pad tr = 0 \<Longrightarrow> skipUnread ops tr = (None, tr)"
  by (simp add: skipUnread_def seek_skip_none CopyN_nonpos in_i64_def Let_def)

text \<open>
  C33. Errors of a \<^verbatim>\<open>Reader\<close> are sticky: once \<^verbatim>\<open>Next\<close> has failed, every
  further \<^verbatim>\<open>Next\<close> and \<^verbatim>\<open>Read\<close> gives the same error, without touching
  the archive or delivering data, in every order of calls.
\<close>

theorem Next_error_sticky:
  assumes "Reader_Next ops fuel tr = (Inl e, tr')"
  shows "Reader_Next ops fuel' tr' = (Inl e, tr') \<and> Reader_Read ops tr' n = ([], Some e, tr')"
  using assms by (auto simp: Reader_Next_def Reader_Read_def split: option.splits prod.splits sum.splits)

theorem Next_error_sticky_witness:
  "\<exists>tr'. Reader_Next bytes_ops 1 (NewReader (new_bytes_reader [])) = (Inl EOF, tr') \<and>
    Reader_Next bytes_ops 5 tr' = (Inl EOF, tr') \<and> Reader_Read bytes_ops tr' 3 = ([], Some EOF, tr')"
proof -
  have "ReadFull bytes_ops (new_bytes_reader []) 512 = ([], Some EOF, new_bytes_reader [])"
    unfolding ReadFull_def read_full_loop.simps
    by (simp add: bytes_ops_def bytes_reader_Read_def new_bytes_reader_def)
  then obtain tr' where tr': "Reader_Next bytes_ops 1 (NewReader (new_bytes_reader [])) = (Inl EOF, tr')"
    by (simp add: Reader_Next_def NewReader_def skipUnread_nil readHeader_def read_block_def)
  with Next_error_sticky [OF tr'] show ?thesis by blast
qed

text \<open>Reading errors other than the end of the entry persist as well.\<close>

lemma Read_error_sticky:
  assumes "Reader_Read ops tr n = (bs, Some e, tr')" "e \<noteq> EOF"
  shows "Reader_Next ops fuel tr' = (Inl e, tr') \<and> Reader_Read ops tr' m = ([], Some e, tr')"
  using assms by (auto simp: Reader_Next_def Reader_Read_def split: if_splits prod.splits)

section \<open>The reader of the current entry keeps the reader contract\<close>

text \<open>The bytes the current entry still has, and the way it ends.\<close>

fun curr_left :: "('r \<Rightarrow> byte list) \<Rightarrow> 'r \<times> curr_reader \<Rightarrow> byte list" where
  "curr_left left (r, CurrReg nb) = reg_left left (r, nb)"
| "curr_left left (r, CurrSparse sfr) = sparse_left left (r, sfr)"
| "curr_left left (r, _) = []"

fun curr_ok :: "('r \<Rightarrow> bool) \<Rightarrow> ('r \<Rightarrow> byte list) \<Rightarrow> ('r \<Rightarrow> go_error set) \<Rightarrow> 'r \<times> curr_reader \<Rightarrow> bool" where
  "curr_ok ok left fins (r, CurrReg nb) \<longleftrightarrow> reg_ok ok (r, nb)"
| "curr_ok ok left fins (r, CurrSparse sfr) \<longleftrightarrow> sparse_ok ok left fins (r, sfr)"
| "curr_ok ok left fins (r, _) \<longleftrightarrow> False"

fun curr_fins :: "('r \<Rightarrow> byte list) \<Rightarrow> ('r \<Rightarrow> go_error set) \<Rightarrow> 'r \<times> curr_reader \<Rightarrow> go_error set" where
  "curr_fins left fins (r, CurrReg nb) = reg_fins left fins (r, nb)"
| "curr_fins left fins (r, CurrSparse sfr) = sparse_fins (r, sfr)"
| "curr_fins left fins (r, _) = {}"

definition tr_ok :: "('r \<Rightarrow> bool) \<Rightarrow> ('r \<Rightarrow> byte list) \<Rightarrow> ('r \<Rightarrow> go_error set) \<Rightarrow> 'r Reader \<Rightarrow> bool" where
  "tr_ok ok left fins tr \<longleftrightarrow>
     tr_err tr = None \<longrightarrow> tr_curr tr = CurrNil \<or> curr_ok ok left fins (tr_r tr, tr_curr tr)"

definition tr_left :: "('r \<Rightarrow> byte list) \<Rightarrow> 'r Reader \<Rightarrow> byte list" where
  "tr_left left tr = (if tr_err tr = None then curr_left left (tr_r tr, tr_curr tr) else [])"

definition tr_fins :: "('r \<Rightarrow> byte list) \<Rightarrow> ('r \<Rightarrow> go_error set) \<Rightarrow> 'r Reader \<Rightarrow> go_error set" where
  "tr_fins left fins tr =
     (case tr_err tr of
        Some e \<Rightarrow> {e}
      | None \<Rightarrow> if tr_curr tr = CurrNil then {EOF} else curr_fins left fins (tr_r tr, tr_curr tr))"

text \<open>
  What reading the entry never changes: the padding, where the archive continues after the data
  section, and by how much the archive is longer than the data section.
\<close>

definition tr_frame :: "('r \<Rightarrow> bool) \<Rightarrow> ('r \<Rightarrow> byte list) \<Rightarrow> int \<Rightarrow> byte list \<Rightarrow> int \<Rightarrow> 'r Reader \<Rightarrow> bool" where
  "tr_frame ok left p rest d tr \<longleftrightarrow>
     ok (tr_r tr) \<and> 0 \<le> numBytes (tr_curr tr) \<and> tr_pad tr = p \<and>
     drop (nat (numBytes (tr_curr tr))) (left (tr_r tr)) = rest \<and>
     int (length (left (tr_r tr))) - numBytes (tr_curr tr) = d"

context io_reader
begin

lemma curr_reader: "io_reader (curr_ops ops) (curr_ok ok left fins) (curr_left left) (curr_fins left fins)"
proof (rule io_readerI)
  fix s :: "'r \<times> curr_reader" and n bs e s'
  assume ok: "curr_ok ok left fins s" and rd: "op_read (curr_ops ops) s n = (bs, e, s')"
  obtain r c r' c' where s: "s = (r, c)" "s' = (r', c')" by (cases s, cases s') auto
  show "curr_ok ok left fins s' \<and> curr_left left s = bs @ curr_left left s' \<and> length bs \<le> n \<and>
      curr_fins left fins s' \<subseteq> curr_fins left fins s \<and> (e = None \<longrightarrow> 0 < n \<longrightarrow> bs \<noteq> []) \<and>
      (\<forall>x. e = Some x \<longrightarrow> curr_left left s' = [] \<and> x \<in> curr_fins left fins s)"
  proof (cases c)
    case (CurrReg nb)
    then obtain nb' where nb': "c' = CurrReg nb'" "op_read (reg_ops ops) (r, nb) n = (bs, e, (r', nb'))"
      using rd by (auto simp: s curr_ops_def curr_Read_def reg_ops_def split: prod.splits)
    have "reg_ok ok (r, nb)" using ok by (simp add: s CurrReg)
    note laws = io_reader.read_laws [OF reg_reader this nb'(2)]
    show ?thesis
      using laws io_reader.read_progress [OF reg_reader \<open>reg_ok ok (r, nb)\<close>] nb'
        io_reader.read_end [OF reg_reader \<open>reg_ok ok (r, nb)\<close>]
      by (simp add: s CurrReg) blast
  next
    case (CurrSparse sfr)
    then obtain sfr' where sfr': "c' = CurrSparse sfr'" "op_read (sparse_ops ops) (r, sfr) n = (bs, e, (r', sfr'))"
      using rd by (auto simp: s curr_ops_def curr_Read_def sparse_ops_def split: prod.splits)
    have "sparse_ok ok left fins (r, sfr)" using ok by (simp add: s CurrSparse)
    note laws = io_reader.read_laws [OF sparse_reader this sfr'(2)]
    show ?thesis
      using laws io_reader.read_progress [OF sparse_reader \<open>sparse_ok ok left fins (r, sfr)\<close>] sfr'
        io_reader.read_end [OF sparse_reader \<open>sparse_ok ok left fins (r, sfr)\<close>]
      by (simp add: s CurrSparse) blast
  qed (use ok s in auto)
qed

lemma tr_reader: "io_reader (tr_ops ops) (tr_ok ok left fins) (tr_left left) (tr_fins left fins)"
proof (rule io_readerI)
  fix tr :: "'r Reader" and n bs e tr'
  assume ok: "tr_ok ok left fins tr" and rd: "op_read (tr_ops ops) tr n = (bs, e, tr')"
  have rd': "Reader_Read ops tr n = (bs, e, tr')" using rd by (simp add: tr_ops_def)
  show "tr_ok ok left fins tr' \<and> tr_left left tr = bs @ tr_left left tr' \<and> length bs \<le> n \<and>
      tr_fins left fins tr' \<subseteq> tr_fins left fins tr \<and> (e = None \<longrightarrow> 0 < n \<longrightarrow> bs \<noteq> []) \<and>
      (\<forall>x. e = Some x \<longrightarrow> tr_left left tr' = [] \<and> x \<in> tr_fins left fins tr)"
  proof (cases "tr_err tr = None \<and> tr_curr tr \<noteq> CurrNil")
    case False
    then show ?thesis
      using rd' ok by (auto simp: Reader_Read_def tr_ok_def tr_left_def tr_fins_def)
  next
    case True
    then have okc: "curr_ok ok left fins (tr_r tr, tr_curr tr)" using ok by (simp add: tr_ok_def)
    obtain r' c' where c': "op_read (curr_ops ops) (tr_r tr, tr_curr tr) n = (bs, e, (r', c'))"
        and tr': "tr' = tr\<lparr>tr_r := r', tr_curr := c', tr_err := if e \<noteq> None \<and> e \<noteq> Some EOF then e else None\<rparr>"
      using rd' True by (auto simp: Reader_Read_def curr_ops_def split: prod.splits)
    note laws = io_reader.read_laws [OF curr_reader okc c']
    have okc': "c' \<noteq> CurrNil" using laws(1) by auto
    have prog: "e = None \<Longrightarrow> 0 < n \<Longrightarrow> bs \<noteq> []"
      using io_reader.read_progress [OF curr_reader okc] c' by blast
    have fin: "e = Some x \<Longrightarrow> curr_left left (r', c') = [] \<and> x \<in> curr_fins left fins (tr_r tr, tr_curr tr)" for x
      using io_reader.read_end [OF curr_reader okc] c' by blast
    show ?thesis
    proof (cases "e \<noteq> None \<and> e \<noteq> Some EOF")
      case True
      then show ?thesis
        using \<open>tr_err tr = None \<and> tr_curr tr \<noteq> CurrNil\<close> laws(2,3) fin
        by (auto simp: tr' tr_ok_def tr_left_def tr_fins_def)
    next
      case False
      then show ?thesis
        using \<open>tr_err tr = None \<and> tr_curr tr \<noteq> CurrNil\<close> laws(1,3,4) laws(2) [symmetric] fin prog okc'
        by (auto simp: tr' tr_ok_def tr_left_def tr_fins_def)
    qed
  qed
qed

lemma reg_frame:
  assumes "ok r" "0 \<le> nb" "regFileReader_Read ops r nb n = (bs, e, r', nb')"
  shows "drop (nat nb') (left r') = drop (nat nb) (left r)"
    and "int (length (left r')) - nb' = int (length (left r)) - nb"
proof -
  note laws = regFileReader_Read_laws [OF assms]
  have "nat nb = length bs + nat nb'" using laws(2,3) by simp
  then show "drop (nat nb') (left r') = drop (nat nb) (left r)" by (simp add: laws(5))
  show "int (length (left r')) - nb' = int (length (left r)) - nb" using laws(2) by (simp add: laws(5))
qed

lemma curr_frame:
  assumes "ok r" "0 \<le> numBytes c" "curr_Read ops r c n = (bs, e, r', c')"
  shows "ok r' \<and> 0 \<le> numBytes c' \<and> drop (nat (numBytes c')) (left r') = drop (nat (numBytes c)) (left r) \<and>
    int (length (left r')) - numBytes c' = int (length (left r)) - numBytes c"
proof (cases c)
  case (CurrReg nb)
  then obtain nb' where "regFileReader_Read ops r nb n = (bs, e, r', nb')" "c' = CurrReg nb'"
    using assms(3) by (auto simp: curr_Read_def split: prod.splits)
  then show ?thesis
    using assms(1,2) reg_frame [of r nb n bs e r' nb'] regFileReader_Read_laws(1,3) [of r nb n bs e r' nb']
    by (simp add: CurrReg)
next
  case (CurrSparse s)
  then obtain s' where rd: "sparseFileReader_Read ops r s n = (bs, e, r', s')" "c' = CurrSparse s'"
    using assms(3) by (auto simp: curr_Read_def split: prod.splits)
  have "(r' = r \<and> sfr_nb s' = sfr_nb s) \<or> (\<exists>m e'. regFileReader_Read ops r (sfr_nb s) m = (bs, e', r', sfr_nb s'))"
    using rd(1) unfolding sparseFileReader_Read_def Let_def readHole_def
    by (fastforce split: list.splits if_splits prod.splits)
  then show ?thesis
    using assms(1,2) reg_frame [of r "sfr_nb s" _ bs _ r' "sfr_nb s'"]
      regFileReader_Read_laws(1,3) [of r "sfr_nb s" _ bs _ r' "sfr_nb s'"]
    by (auto simp: CurrSparse rd(2))
qed (use assms in \<open>auto simp: curr_Read_def\<close>)

lemma tr_frame_Read:
  assumes "tr_frame ok left p rest d tr" "Reader_Read ops tr n = (bs, e, tr')"
  shows "tr_frame ok left p rest d tr'"
  using assms curr_frame [of "tr_r tr" "tr_curr tr" n bs e]
  by (auto simp: tr_frame_def Reader_Read_def split: if_splits prod.splits)

end

section \<open>Skipping the rest of an entry\<close>

context io_seeker
begin

lemma seek_skip_spec:
  assumes "ok r" "0 \<le> nb" "nb < 9223372036854775808"
  obtains k r1 where "seek_skip ops r nb = (Inr k, r1)" "ok r1" "left r1 = drop (nat k) (left r)"
    and "fins r1 \<subseteq> fins r" "0 \<le> k" "k = 0 \<or> k \<le> nb - 1"
proof (cases "op_seek ops = None \<or> nb \<le> 1")
  case True
  then have "seek_skip ops r nb = (Inr 0, r)" by (auto simp: seek_skip_def split: option.splits)
  then show thesis using that assms by simp
next
  case False
  then obtain sk where sk: "op_seek ops = Some sk" "1 < nb" by auto
  show thesis
  proof (cases "fst (sk r 0)")
    case (Inl e)
    then obtain r1 where "sk r 0 = (Inl e, r1)" by (cases "sk r 0") auto
    moreover from seek_err [OF sk(1) this] have "r1 = r" .
    ultimately have "seek_skip ops r nb = (Inr 0, r)" using sk by (simp add: seek_skip_def)
    then show thesis using that assms by simp
  next
    case (Inr p)
    then obtain r1 where r1: "sk r 0 = (Inr p, r1)" by (cases "sk r 0") auto
    note a = seek_ok [OF sk(1) assms(1) order.refl r1]
    obtain q r2 where r2: "sk r1 (nb - 1) = (Inr q, r2)"
      using seek_works [OF sk(1) assms(1) r1, of "nb - 1"] sk(2) by auto
    have b: "ok r2 \<and> left r2 = drop (nat (nb - 1)) (left r1) \<and> fins r2 \<subseteq> fins r1 \<and> q = pos r1 + (nb - 1)"
      using seek_ok [OF sk(1) _ _ r2] a sk(2) by simp
    have "i64 (q - p) = nb - 1" using a b assms(3) sk(2) by (simp add: in_i64_def)
    then have "seek_skip ops r nb = (Inr (nb - 1), r2)" using sk r1 r2 by (simp add: seek_skip_def)
    then show thesis using that [of "nb - 1" r2] a b sk(2) by auto
  qed
qed

lemma skipUnread_spec:
  assumes "ok (tr_r tr)" "fins (tr_r tr) \<subseteq> {EOF}" "nb = numBytes (tr_curr tr)"
    and "0 \<le> nb" "0 \<le> tr_pad tr" "nb + tr_pad tr < 9223372036854775808"
  obtains r' where "ok r'" "fins r' \<subseteq> fins (tr_r tr)"
    and "left r' = drop (nat (nb + tr_pad tr)) (left (tr_r tr))"
    and "skipUnread ops tr =
      (if int (length (left (tr_r tr))) < nb then Some ErrUnexpectedEOF
       else if int (length (left (tr_r tr))) < nb + tr_pad tr then Some EOF else None,
       tr\<lparr>tr_curr := CurrNil, tr_pad := 0, tr_r := r'\<rparr>)"
proof -
  let ?tr = "tr\<lparr>tr_curr := CurrNil, tr_pad := 0\<rparr>" and ?L = "left (tr_r tr)"
  define total where "total = nb + tr_pad tr"
  have nb: "nb < 9223372036854775808" using assms(5,6) by simp
  obtain k r1 where k: "seek_skip ops (tr_r tr) nb = (Inr k, r1)" "ok r1" "left r1 = drop (nat k) ?L"
      "fins r1 \<subseteq> fins (tr_r tr)" "0 \<le> k" "k = 0 \<or> k \<le> nb - 1"
    by (rule seek_skip_spec [OF assms(1,4) nb])
  have w: "i64 total = total" "i64 (total - k) = total - k"
    using assms(4-6) k(5,6) by (auto simp: total_def in_i64_def)
  have tot: "k \<le> total" using k(5,6) assms(4,5) by (auto simp: total_def)
  have res: "skipUnread ops tr =
      (case CopyN ops r1 (total - k) of
         (c, err, r2) \<Rightarrow>
           (if err = Some EOF \<and> i64 (k + c) < nb then Some ErrUnexpectedEOF else err, ?tr\<lparr>tr_r := r2\<rparr>))"
    using w k(1) by (simp add: skipUnread_def Let_def assms(3) [symmetric] total_def)
  show thesis
  proof (cases "total \<le> int (length ?L)")
    case True
    then have "nat (total - k) \<le> length (left r1)" using k(3,5) tot by simp
    with k(2) tot obtain r2 where r2: "CopyN ops r1 (total - k) = (total - k, None, r2)" "ok r2"
        "left r2 = drop (nat (total - k)) (left r1)" "fins r2 \<subseteq> fins r1"
      by (rule_tac CopyN_enough [of r1 "total - k"]) auto
    have "nat k + nat (total - k) = nat total" using tot k(5) by simp
    then have "left r2 = drop (nat total) ?L" using r2(3) k(3) by (simp add: add.commute)
    then show thesis
      using that [of r2] r2 res True k(4) assms(5) by (simp add: total_def)
  next
    case False
    then have "length (left r1) < nat (total - k)" using k(3,5,6) assms(4,5) by (auto simp: total_def)
    with k(2) obtain r2 x where r2: "x \<in> fins r1" "ok r2" "left r2 = []" "fins r2 \<subseteq> fins r1"
        "CopyN ops r1 (total - k) = (int (length (left r1)), Some x, r2)"
      by (rule CopyN_short)
    have x: "x = EOF" using r2(1) k(4) assms(2) by auto
    have "in_i64 (k + int (length (left r1)))"
      using False k(3,5,6) assms(4-6) by (auto simp: in_i64_def total_def)
    then have "i64 (k + int (length (left r1))) < nb \<longleftrightarrow> int (length ?L) < nb"
      using k(3,5,6) assms(4) by auto
    moreover have "left r2 = drop (nat total) ?L" using r2(3) False by simp
    ultimately show thesis
      using that [of r2] r2 res False k(4) x by (simp add: total_def)
  qed
qed

end

section \<open>Positions in the archive\<close>

context io_reader
begin

lemma strengthen:
  assumes "\<And>s n bs e s'. ok s \<Longrightarrow> I s \<Longrightarrow> op_read ops s n = (bs, e, s') \<Longrightarrow> I s'"
  shows "io_reader ops (\<lambda>s. ok s \<and> I s) left fins"
proof (rule io_readerI)
  fix s n bs e s'
  assume s: "ok s \<and> I s" and rd: "op_read ops s n = (bs, e, s')"
  then have ok: "ok s" by simp
  show "(ok s' \<and> I s') \<and> left s = bs @ left s' \<and> length bs \<le> n \<and> fins s' \<subseteq> fins s \<and>
      (e = None \<longrightarrow> 0 < n \<longrightarrow> bs \<noteq> []) \<and> (\<forall>x. e = Some x \<longrightarrow> left s' = [] \<and> x \<in> fins s)"
    using assms [OF ok _ rd] s read_laws [OF ok rd] read_progress [OF ok] read_end [OF ok] rd by blast
qed

end

text \<open>
  The next header, or the end of the archive, is the first of the bytes \<open>L\<close>: the rest of the
  current entry and its padding are all there and lie before \<open>L\<close>.
\<close>

definition positioned :: "('r \<Rightarrow> bool) \<Rightarrow> ('r \<Rightarrow> byte list) \<Rightarrow> ('r \<Rightarrow> go_error set) \<Rightarrow> byte list \<Rightarrow> 'r Reader \<Rightarrow> bool" where
  "positioned ok left fins L tr \<longleftrightarrow>
     tr_err tr = None \<and> length (tr_blk tr) = 512 \<and> ok (tr_r tr) \<and> fins (tr_r tr) \<subseteq> {EOF} \<and>
     0 \<le> numBytes (tr_curr tr) \<and> 0 \<le> tr_pad tr \<and> numBytes (tr_curr tr) + tr_pad tr < 9223372036854775808 \<and>
     numBytes (tr_curr tr) + tr_pad tr \<le> int (length (left (tr_r tr))) \<and>
     drop (nat (numBytes (tr_curr tr) + tr_pad tr)) (left (tr_r tr)) = L"

definition at_block :: "('r \<Rightarrow> bool) \<Rightarrow> ('r \<Rightarrow> byte list) \<Rightarrow> ('r \<Rightarrow> go_error set) \<Rightarrow> byte list \<Rightarrow> 'r Reader \<Rightarrow> bool" where
  "at_block ok left fins L tr \<longleftrightarrow>
     tr_err tr = None \<and> length (tr_blk tr) = 512 \<and> ok (tr_r tr) \<and> fins (tr_r tr) \<subseteq> {EOF} \<and> left (tr_r tr) = L"

text \<open>The state after a header: \<open>nb\<close> bytes of data and their padding are to come, then \<open>L\<close> minus them.\<close>

definition at_data :: "('r \<Rightarrow> bool) \<Rightarrow> ('r \<Rightarrow> byte list) \<Rightarrow> ('r \<Rightarrow> go_error set) \<Rightarrow> int \<Rightarrow> byte list \<Rightarrow> 'r Reader \<Rightarrow> bool" where
  "at_data ok left fins nb L tr \<longleftrightarrow>
     at_block ok left fins L tr \<and> tr_curr tr = CurrReg nb \<and> tr_pad tr = (- nb) mod 512"

lemma pad_and_mod: "(- nb) AND (blockSize - 1) = (- nb) mod (512 :: int)"
proof -
  have "(- nb) AND mask 9 = (- nb) mod 2 ^ 9" by (simp only: take_bit_eq_mask [symmetric] take_bit_eq_mod)
  then show ?thesis by (simp add: mask_eq_exp_minus_1)
qed

lemma handleRegularFile_ok:
  assumes "at_block ok left fins L tr" "nb = (if isHeaderOnlyType (h_Typeflag hdr) then 0 else h_Size hdr)" "0 \<le> nb"
  obtains tr' where "handleRegularFile hdr tr = (None, tr')" "at_data ok left fins nb L tr'" "tr_blk tr' = tr_blk tr"
proof -
  have "handleRegularFile hdr tr = (None, tr\<lparr>tr_pad := (- nb) mod 512, tr_curr := CurrReg nb\<rparr>)"
    unfolding handleRegularFile_def assms(2) [symmetric] Let_def pad_and_mod using assms(3) by simp
  then show thesis
    using assms(1) by (intro that [of "tr\<lparr>tr_pad := (- nb) mod 512, tr_curr := CurrReg nb\<rparr>"])
      (simp_all add: at_data_def at_block_def)
qed

lemma at_data_block: "at_data ok left fins nb L tr \<Longrightarrow> at_block ok left fins L tr"
  by (simp add: at_data_def)

context io_seeker
begin

lemma skip_positioned:
  assumes "positioned ok left fins L tr"
  obtains tr' where "skipUnread ops tr = (None, tr')" "at_block ok left fins L tr'" 
proof -
  let ?nb = "numBytes (tr_curr tr)"
  have p: "ok (tr_r tr)" "fins (tr_r tr) \<subseteq> {EOF}" "0 \<le> ?nb" "0 \<le> tr_pad tr" "?nb + tr_pad tr < 9223372036854775808"
      "?nb + tr_pad tr \<le> int (length (left (tr_r tr)))" "drop (nat (?nb + tr_pad tr)) (left (tr_r tr)) = L"
      "tr_err tr = None" "length (tr_blk tr) = 512"
    using assms by (auto simp: positioned_def)
  obtain r' where "ok r'" "fins r' \<subseteq> fins (tr_r tr)" "left r' = drop (nat (?nb + tr_pad tr)) (left (tr_r tr))"
      "skipUnread ops tr =
      (if int (length (left (tr_r tr))) < ?nb then Some ErrUnexpectedEOF
       else if int (length (left (tr_r tr))) < ?nb + tr_pad tr then Some EOF else None,
       tr\<lparr>tr_curr := CurrNil, tr_pad := 0, tr_r := r'\<rparr>)"
    by (rule skipUnread_spec [OF p(1,2) refl p(3-5)])
  then show thesis
    using p by (intro that [of "tr\<lparr>tr_curr := CurrNil, tr_pad := 0, tr_r := r'\<rparr>"]) (auto simp: at_block_def)
qed

lemma read_block_ok:
  assumes "at_block ok left fins (B @ L) tr" "length B = 512"
  obtains tr' where "read_block ops tr = (None, tr')" "at_block ok left fins L tr'" "tr_blk tr' = B"
proof -
  have p: "ok (tr_r tr)" "512 \<le> length (left (tr_r tr))" "length (tr_blk tr) = 512" "left (tr_r tr) = B @ L"
    using assms by (auto simp: at_block_def)
  obtain r' where "ReadFull ops (tr_r tr) 512 = (take 512 (left (tr_r tr)), None, r')"
      "ok r'" "left r' = drop 512 (left (tr_r tr))" "fins r' \<subseteq> fins (tr_r tr)"
    by (rule ReadFull_ok [OF p(1,2)])
  then show thesis
    using p(3,4) assms
    by (intro that [of "tr\<lparr>tr_r := r', tr_blk := B\<rparr>"]) (auto simp: read_block_def copy_into_def at_block_def)
qed

lemma readHeader_block:
  assumes "at_block ok left fins (B @ L) tr" "length B = 512" "B \<noteq> zeroBlock"
  obtains tr' where "readHeader ops tr = (parse_header B, tr')" "at_block ok left fins L tr'" "tr_blk tr' = B"
proof -
  obtain tr' where "read_block ops tr = (None, tr')" "at_block ok left fins L tr'" "tr_blk tr' = B"
    by (rule read_block_ok [OF assms(1,2)])
  then show thesis using that assms(3) by (simp add: readHeader_def)
qed

lemma readHeader_end:
  assumes "at_block ok left fins (zeroBlock @ zeroBlock @ L) tr"
  obtains tr' where "readHeader ops tr = (Inl EOF, tr')"
proof -
  have len: "length zeroBlock = 512" by (simp add: zeroBlock_def)
  obtain tr1 where tr1: "read_block ops tr = (None, tr1)" "at_block ok left fins (zeroBlock @ L) tr1" "tr_blk tr1 = zeroBlock"
    by (rule read_block_ok [OF assms len])
  obtain tr2 where "read_block ops tr1 = (None, tr2)" "tr_blk tr2 = zeroBlock"
    by (rule read_block_ok [OF tr1(2) len])
  then show thesis using that tr1 by (simp add: readHeader_def)
qed

lemma parse_zeroBlock: "parse_header zeroBlock = Inl ErrHeader"
  by (simp add: parse_header_def GetFormat_zeroBlock)

text \<open>One round of \<^verbatim>\<open>next\<close> up to the dispatch on the type of the header.\<close>

lemma next_dispatch:
  assumes "positioned ok left fins (B @ L) tr" "length B = 512" "parse_header B = Inr hdr"
    and "nb = (if isHeaderOnlyType (h_Typeflag hdr) then 0 else h_Size hdr)" "0 \<le> nb"
  obtains tr1 tr2 tr3 where "skipUnread ops tr = (None, tr1)" "readHeader ops tr1 = (Inr hdr, tr2)"
    and "handleRegularFile hdr tr2 = (None, tr3)" "at_data ok left fins nb L tr3" "tr_blk tr3 = B"
proof -
  have nz: "B \<noteq> zeroBlock" using assms(3) parse_zeroBlock by auto
  obtain tr1 where tr1: "skipUnread ops tr = (None, tr1)" "at_block ok left fins (B @ L) tr1"
    by (rule skip_positioned [OF assms(1)])
  obtain tr2 where tr2: "readHeader ops tr1 = (parse_header B, tr2)" "at_block ok left fins L tr2" "tr_blk tr2 = B"
    by (rule readHeader_block [OF tr1(2) assms(2) nz])
  obtain tr3 where "handleRegularFile hdr tr2 = (None, tr3)" "at_data ok left fins nb L tr3" "tr_blk tr3 = tr_blk tr2"
    by (rule handleRegularFile_ok [OF tr2(2) assms(4,5)])
  then show thesis using that [OF tr1(1)] tr2 assms(3) by simp
qed

text \<open>A file that is no sparse file.\<close>

lemma next_file:
  assumes "positioned ok left fins (B @ L) tr" "length B = 512" "parse_header B = Inr hdr"
    and "0 \<le> h_Size hdr" "h_Typeflag hdr \<notin> {TypeXHeader, TypeGNULongName, TypeGNULongLink, TypeGNUSparse}"
    and "mergePAX hdr ext = Inr hdr'" "h_Typeflag hdr' = h_Typeflag hdr" "sparse_format ext = None"
    and "nb = (if isHeaderOnlyType (h_Typeflag hdr') then 0 else h_Size hdr')" "0 \<le> nb"
  obtains tr' where "Reader_next ops (Suc fuel) ext tr = (Inr hdr', tr')" "at_data ok left fins nb L tr'"
proof -
  have z: "0 \<le> (if isHeaderOnlyType (h_Typeflag hdr) then 0 else h_Size hdr)" using assms(4) by simp
  obtain tr1 tr2 tr3 where st: "skipUnread ops tr = (None, tr1)" "readHeader ops tr1 = (Inr hdr, tr2)"
      "handleRegularFile hdr tr2 = (None, tr3)"
      "at_data ok left fins (if isHeaderOnlyType (h_Typeflag hdr) then 0 else h_Size hdr) L tr3"
    by (rule next_dispatch [OF assms(1-3) refl z])
  obtain tr4 where tr4: "handleRegularFile hdr' tr3 = (None, tr4)" "at_data ok left fins nb L tr4"
    by (rule handleRegularFile_ok [OF at_data_block [OF st(4)] assms(9,10)])
  have "finish_file ops fuel hdr ext tr3 = (Inr hdr', tr4)"
    using tr4(1) assms(5-8) by (simp add: finish_file_def handleSparseFile_def checkForGNUSparsePAXHeaders_def)
  then show thesis using that [OF _ tr4(2)] st assms(5) by simp
qed

end

section \<open>Reading an entry and going on\<close>

text \<open>A state in which the current entry, of which a part may have been read, is followed by \<open>L\<close>.\<close>

definition in_entry :: "('r \<Rightarrow> bool) \<Rightarrow> ('r \<Rightarrow> byte list) \<Rightarrow> ('r \<Rightarrow> go_error set) \<Rightarrow> int \<Rightarrow> byte list \<Rightarrow> 'r Reader \<Rightarrow> bool" where
  "in_entry ok left fins p L tr \<longleftrightarrow>
     tr_frame ok left p (replicate (nat p) 0 @ L) (p + int (length L)) tr \<and> 0 \<le> p \<and>
     (\<exists>nb. tr_curr tr = CurrReg nb \<and> nb + p < 9223372036854775808) \<and> tr_err tr = None \<and>
     length (tr_blk tr) = 512 \<and> fins (tr_r tr) \<subseteq> {EOF}"

lemma at_data_entry:
  assumes "at_data ok left fins (int (length D)) (D @ replicate (nat p) 0 @ L) tr"
    and "p = (- int (length D)) mod 512" "int (length D) + 512 \<le> 9223372036854775808"
  shows "in_entry ok left fins p L tr"
proof -
  have "0 \<le> p" "p < 512" using assms(2) by simp_all
  then show ?thesis
    using assms by (auto simp: at_data_def at_block_def in_entry_def tr_frame_def)
qed

lemma in_entry_positioned: "in_entry ok left fins p L tr \<Longrightarrow> positioned ok left fins L tr"
proof -
  assume a: "in_entry ok left fins p L tr"
  then obtain nb where nb: "tr_curr tr = CurrReg nb" "nb + p < 9223372036854775808" "0 \<le> p" "0 \<le> nb" "tr_pad tr = p"
      and dr: "drop (nat nb) (left (tr_r tr)) = replicate (nat p) 0 @ L"
      and len: "int (length (left (tr_r tr))) - nb = p + int (length L)"
    by (auto simp: in_entry_def tr_frame_def)
  have "drop (nat (nb + p)) (left (tr_r tr)) = drop (nat p) (drop (nat nb) (left (tr_r tr)))"
    using nb(3,4) by (simp add: nat_add_distrib add.commute)
  then have "drop (nat (nb + p)) (left (tr_r tr)) = L" using dr by simp
  then show ?thesis
    using a nb len by (auto simp: positioned_def in_entry_def tr_frame_def)
qed

context io_reader
begin

lemma in_entry_reader: "io_reader (tr_ops ops) (in_entry ok left fins p L) (tr_left left) (\<lambda>_. {EOF})"
proof (rule io_readerI)
  fix tr :: "'r Reader" and n bs e tr'
  assume a: "in_entry ok left fins p L tr" and rd: "op_read (tr_ops ops) tr n = (bs, e, tr')"
  then obtain nb where c: "tr_curr tr = CurrReg nb" "nb + p < 9223372036854775808" "tr_err tr = None"
      "0 \<le> nb" "ok (tr_r tr)" "fins (tr_r tr) \<subseteq> {EOF}" "int (length (left (tr_r tr))) - nb = p + int (length L)"
      "0 \<le> p" "length (tr_blk tr) = 512"
    by (auto simp: in_entry_def tr_frame_def)
  have ok: "tr_ok ok left fins tr" using c by (simp add: tr_ok_def reg_ok_def)
  have fin: "tr_fins left fins tr \<subseteq> {EOF}" using c by (auto simp: tr_fins_def reg_fins_def)
  have rd': "Reader_Read ops tr n = (bs, e, tr')" using rd by (simp add: tr_ops_def)
  have frame: "tr_frame ok left p (replicate (nat p) 0 @ L) (p + int (length L)) tr'"
    using tr_frame_Read [OF _ rd'] a by (auto simp: in_entry_def)
  note laws = io_reader.read_laws [OF tr_reader ok rd]
  have e: "e = Some x \<Longrightarrow> tr_left left tr' = [] \<and> x = EOF" for x
    using io_reader.read_end [OF tr_reader ok, of n bs x tr'] rd fin by auto
  obtain r' nb' where reg: "regFileReader_Read ops (tr_r tr) nb n = (bs, e, r', nb')"
      and tr': "tr' = tr\<lparr>tr_r := r', tr_curr := CurrReg nb', tr_err := None\<rparr>"
  proof -
    have "(if e \<noteq> None \<and> e \<noteq> Some EOF then e else tr_err tr) = None" using e c(3) by (cases e) auto
    then show thesis using that rd' c(1,3) by (auto simp: Reader_Read_def curr_Read_def split: prod.splits)
  qed
  note rlaws = regFileReader_Read_laws [OF c(5,4) reg]
  have "in_entry ok left fins p L tr'"
    using frame c rlaws(2,6) by (auto simp: in_entry_def tr')
  then show "in_entry ok left fins p L tr' \<and> tr_left left tr = bs @ tr_left left tr' \<and> length bs \<le> n \<and>
      {EOF} \<subseteq> {EOF} \<and> (e = None \<longrightarrow> 0 < n \<longrightarrow> bs \<noteq> []) \<and> (\<forall>x. e = Some x \<longrightarrow> tr_left left tr' = [] \<and> x \<in> {EOF})"
    using laws(2,3) e io_reader.read_progress [OF tr_reader ok] rd by auto
qed

end

lemma in_entry_left:
  assumes "at_data ok left fins (int (length D)) (D @ R) tr"
  shows "tr_left left tr = D"
  using assms by (simp add: at_data_def at_block_def tr_left_def reg_left_def)

context io_seeker
begin

text \<open>A PAX header changes the extended headers for the rest of the call.\<close>

lemma next_pax:
  assumes "positioned ok left fins (B @ T @ replicate (nat p) 0 @ L) tr" "length B = 512" "parse_header B = Inr hdr"
    and "h_Typeflag hdr = TypeXHeader" "h_Size hdr = int (length T)" "p = (- int (length T)) mod 512"
    and "int (length T) + 512 \<le> 9223372036854775808" "length T < fuel" "parse_records T [] [] = Inr ([], kvs)"
  obtains tr' where "Reader_next ops (Suc fuel) ext tr = Reader_next ops fuel kvs tr'" "positioned ok left fins L tr'"
proof -
  have nb: "int (length T) = (if isHeaderOnlyType (h_Typeflag hdr) then 0 else h_Size hdr)"
    using assms(4,5) by (simp add: isHeaderOnlyType_def)
  obtain tr1 tr2 tr3 where st: "skipUnread ops tr = (None, tr1)" "readHeader ops tr1 = (Inr hdr, tr2)"
      "handleRegularFile hdr tr2 = (None, tr3)"
      "at_data ok left fins (int (length T)) (T @ replicate (nat p) 0 @ L) tr3"
    by (rule next_dispatch [OF assms(1-3) nb]) auto
  have ent: "in_entry ok left fins p L tr3" by (rule at_data_entry [OF st(4) assms(6,7)])
  have tl: "tr_left left tr3 = T" by (rule in_entry_left [OF st(4)])
  obtain tr4 where tr4: "in_entry ok left fins p L tr4"
      "parsePAX (tr_ops ops) fuel tr3 =
      (case parse_records (tr_left left tr3) [] [] of
         Inl e \<Rightarrow> Inl e
       | Inr (sm, ext) \<Rightarrow> Inr (if sm \<noteq> [] then AList.update paxGNUSparseMap (Join sm 44) ext else ext), tr4)"
    using ent assms(8) tl by (rule_tac io_reader.parsePAX_read [OF in_entry_reader [of p L], of tr3 fuel]) auto
  have "parsePAX (tr_ops ops) fuel tr3 = (Inr kvs, tr4)" using tr4(2) tl assms(9) by simp
  then have "Reader_next ops (Suc fuel) ext tr = Reader_next ops fuel kvs tr4"
    using st assms(4) by simp
  then show thesis using that in_entry_positioned [OF tr4(1)] by blast
qed

end

end
