(* ===== verification/Tar_Writer.thy ===== *)
theory Tar_Writer
  imports Tar_Pax "HOL-Library.List_Lexorder"
begin

text \<open>
  The \<^verbatim>\<open>Writer\<close> of \<^verbatim>\<open>tar/writer.go\<close>, over the method table of an arbitrary
  \<^verbatim>\<open>io.Writer\<close>. The closures \<^verbatim>\<open>formatString\<close> and \<^verbatim>\<open>formatNumeric\<close>
  of \<^verbatim>\<open>writeHeader\<close> share the header buffer, the formatter, the map of PAX headers and
  the flag \<^verbatim>\<open>usedBinary\<close>; these four are the record \<open>fmt_state\<close> that the
  formatting steps pass on.

  \<^verbatim>\<open>writeHeader\<close> calls \<^verbatim>\<open>writePAXHeader\<close>, which calls \<^verbatim>\<open>writeHeader\<close>
  again with \<^verbatim>\<open>allowPax\<close> unset, which never calls \<^verbatim>\<open>writePAXHeader\<close>. The model
  has the parts of \<^verbatim>\<open>writeHeader\<close> before and after that call (\<open>begin_header\<close>
  and \<open>finish_header\<close>) as functions of their own, so that no recursion is needed. The
  branch on the constant \<^verbatim>\<open>usePrefix = false\<close> is dead and left out;
  \<^verbatim>\<open>splitUSTARPath\<close>, which only it calls, is modelled on its own.
\<close>

section \<open>State\<close>

record 'w Writer =
  tw_w :: 'w
  tw_err :: "go_error option"
  tw_nb :: int
  tw_pad :: int
  tw_closed :: bool
  tw_usedBinary :: bool
  tw_preferPax :: bool
  tw_hdrBuff :: block
  tw_paxHdrBuff :: block

definition NewWriter :: "'w \<Rightarrow> 'w Writer" where
  "NewWriter w =
     \<lparr>tw_w = w, tw_err = None, tw_nb = 0, tw_pad = 0, tw_closed = False, tw_usedBinary = False,
      tw_preferPax = False, tw_hdrBuff = zeroBlock, tw_paxHdrBuff = zeroBlock\<rparr>"

section \<open>Flush\<close>

text \<open>
  The loop that writes the padding. Its fuel is the number of bytes to write: a writer that
  keeps the contract writes all it is given or reports an error.
\<close>

fun flush_loop :: "'w io_writer_ops \<Rightarrow> nat \<Rightarrow> int \<Rightarrow> 'w \<Rightarrow> go_error option \<times> 'w" where
  "flush_loop wops fuel n w =
     (if n \<le> 0 then (None, w)
      else case fuel of
        0 \<Rightarrow> (Some NoProgress, w)
      | Suc fuel' \<Rightarrow>
          let nr = (if blockSize < n then blockSize else n)
          in case op_write wops w (take (nat nr) zeroBlock) of
               (nw, Some e, w') \<Rightarrow> (Some e, w')
             | (nw, None, w') \<Rightarrow> flush_loop wops fuel' (n - int nw) w')"

declare flush_loop.simps [simp del]

definition Flush :: "'w io_writer_ops \<Rightarrow> 'w Writer \<Rightarrow> go_error option \<times> 'w Writer" where
  "Flush wops tw =
     (if 0 < tw_nb tw then
        (Some (ErrMissedWriting (tw_nb tw)), tw\<lparr>tw_err := Some (ErrMissedWriting (tw_nb tw))\<rparr>)
      else
        let n = i64 (tw_nb tw + tw_pad tw);
            (e, w) = (if tw_err tw = None then flush_loop wops (nat n) n (tw_w tw) else (tw_err tw, tw_w tw))
        in (e, tw\<lparr>tw_w := w, tw_err := e, tw_nb := 0, tw_pad := 0\<rparr>))"

section \<open>Formatting a header\<close>

definition minTime :: gotime where "minTime = time_Unix 0 0"
definition maxTime :: gotime where "maxTime = time_Unix 8589934591 0"

record fmt_state =
  fs_header :: block
  fs_err :: formatter
  fs_paxHeaders :: gomap
  fs_usedBinary :: bool

definition header_String :: "field \<Rightarrow> gostring \<Rightarrow> gostring \<Rightarrow> fmt_state \<Rightarrow> fmt_state" where
  "header_String fd s paxKeyword fs =
     (let b = get_field (fs_header fs) fd;
          needsPaxHeader = ((paxKeyword \<noteq> paxNone \<and> length b < length s) \<or> \<not> isASCII s);
          pax = (if needsPaxHeader then AList.update paxKeyword s (fs_paxHeaders fs) else fs_paxHeaders fs);
          s = toASCII s;
          s = (if length b < length s then take (length b) s else s);
          (f, b) = formatString (fs_err fs) b s
      in fs\<lparr>fs_header := put_field (fs_header fs) fd b, fs_err := f, fs_paxHeaders := pax\<rparr>)"

definition header_Octal :: "field \<Rightarrow> int \<Rightarrow> fmt_state \<Rightarrow> fmt_state" where
  "header_Octal fd x fs =
     (let (f, b) = formatOctal (fs_err fs) (get_field (fs_header fs) fd) x
      in fs\<lparr>fs_header := put_field (fs_header fs) fd b, fs_err := f\<rparr>)"

definition header_Numeric :: "bool \<Rightarrow> field \<Rightarrow> int \<Rightarrow> gostring \<Rightarrow> fmt_state \<Rightarrow> fmt_state" where
  "header_Numeric preferPax fd x paxKeyword fs =
     (let b = get_field (fs_header fs) fd
      in if length (FormatInt 8 x) < length b then header_Octal fd x fs
         else if paxKeyword \<noteq> paxNone \<and> preferPax then
           (header_Octal fd 0 fs)
             \<lparr>fs_paxHeaders := AList.update paxKeyword (FormatInt 10 x) (fs_paxHeaders fs)\<rparr>
         else
           let (f, b) = formatNumeric (fs_err fs) b x
           in fs\<lparr>fs_header := put_field (fs_header fs) fd b, fs_err := f, fs_usedBinary := True\<rparr>)"

definition header_time :: "Header \<Rightarrow> int" where
  "header_time hdr =
     (if \<not> Before (h_ModTime hdr) minTime \<and> \<not> After (h_ModTime hdr) maxTime
      then Unix_of (h_ModTime hdr) else 0)"

text \<open>All fields in the order of the source, starting from a zero block.\<close>

definition format_fields :: "bool \<Rightarrow> bool \<Rightarrow> Header \<Rightarrow> fmt_state" where
  "format_fields preferPax usedBinary hdr =
     (let num = header_Numeric preferPax;
          fs = \<lparr>fs_header = zeroBlock, fs_err = None, fs_paxHeaders = [], fs_usedBinary = usedBinary\<rparr>;
          fs = header_String v7_Name (h_Name hdr) paxPath fs;
          fs = header_Octal v7_Mode (h_Mode hdr) fs;
          fs = num v7_UID (h_Uid hdr) paxUid fs;
          fs = num v7_GID (h_Gid hdr) paxGid fs;
          fs = num v7_Size (h_Size hdr) paxSize fs;
          fs = num v7_ModTime (header_time hdr) paxNone fs;
          fs = fs\<lparr>fs_header := put_field (fs_header fs) v7_TypeFlag [h_Typeflag hdr]\<rparr>;
          fs = header_String v7_LinkName (h_Linkname hdr) paxLinkpath fs;
          fs = header_String ustar_UserName (h_Uname hdr) paxUname fs;
          fs = header_String ustar_GroupName (h_Gname hdr) paxGname fs;
          fs = num ustar_DevMajor (h_Devmajor hdr) paxNone fs
      in num ustar_DevMinor (h_Devminor hdr) paxNone fs)"

section \<open>Writing headers and data\<close>

text \<open>
  \<^verbatim>\<open>writeHeader\<close> up to the check for formatting errors; the PAX headers found so far
  are the result.
\<close>

definition begin_header :: "'w io_writer_ops \<Rightarrow> Header \<Rightarrow> bool \<Rightarrow> 'w Writer \<Rightarrow> gomap result \<times> 'w Writer" where
  "begin_header wops hdr allowPax tw =
     (if tw_closed tw then (Inl ErrWriteAfterClose, tw)
      else
        let tw = (if tw_err tw = None then snd (Flush wops tw) else tw)
        in case tw_err tw of
             Some e \<Rightarrow> (Inl e, tw)
           | None \<Rightarrow>
               let fs = format_fields (tw_preferPax tw) (tw_usedBinary tw) hdr;
                   format = (if fs_usedBinary fs then formatGNU else formatUSTAR)
               in case SetFormat format (fs_header fs) of
                    Inl e \<Rightarrow> (Inl e, tw)
                  | Inr header \<Rightarrow>
                      let tw = tw\<lparr>tw_usedBinary := fs_usedBinary fs\<rparr>;
                          tw = (if allowPax then tw\<lparr>tw_hdrBuff := header\<rparr> else tw\<lparr>tw_paxHdrBuff := header\<rparr>)
                      in case fs_err fs of
                           Some e \<Rightarrow> (Inl e, tw\<lparr>tw_err := Some e\<rparr>)
                         | None \<Rightarrow> (Inr (fs_paxHeaders fs), tw))"

text \<open>The end of \<^verbatim>\<open>writeHeader\<close>: sizes are set and the header block is written.\<close>

definition finish_header :: "'w io_writer_ops \<Rightarrow> Header \<Rightarrow> bool \<Rightarrow> 'w Writer \<Rightarrow> go_error option \<times> 'w Writer" where
  "finish_header wops hdr allowPax tw =
     (let pad = go_rem (blockSize - go_rem (h_Size hdr) blockSize) blockSize;
          tw = tw\<lparr>tw_nb := h_Size hdr, tw_pad := pad\<rparr>
      in case op_write wops (tw_w tw) (if allowPax then tw_hdrBuff tw else tw_paxHdrBuff tw) of
           (n, e, w') \<Rightarrow> (e, tw\<lparr>tw_w := w', tw_err := e\<rparr>))"

definition writeHeader_noPax :: "'w io_writer_ops \<Rightarrow> Header \<Rightarrow> 'w Writer \<Rightarrow> go_error option \<times> 'w Writer" where
  "writeHeader_noPax wops hdr tw =
     (case begin_header wops hdr False tw of
        (Inl e, tw1) \<Rightarrow> (Some e, tw1)
      | (Inr paxHeaders, tw1) \<Rightarrow>
          if paxHeaders \<noteq> [] then (Some ErrInvalidHeader, tw1) else finish_header wops hdr False tw1)"

definition Writer_Write :: "'w io_writer_ops \<Rightarrow> 'w Writer \<Rightarrow> byte list \<Rightarrow> nat \<times> go_error option \<times> 'w Writer" where
  "Writer_Write wops tw b =
     (if tw_closed tw then (0, Some ErrWriteAfterClose, tw)
      else if tw_nb tw < int (length b) \<and> tw_nb tw < 0 then
        (0, Some (Panic ''slice bounds out of range''), tw)
      else
        let overwrite = (tw_nb tw < int (length b));
            b = (if overwrite then take (nat (tw_nb tw)) b else b)
        in case op_write wops (tw_w tw) b of
             (n, e, w') \<Rightarrow>
               let tw = tw\<lparr>tw_w := w', tw_nb := tw_nb tw - int n\<rparr>
               in if e = None \<and> overwrite then (n, Some ErrWriteTooLong, tw)
                  else (n, e, tw\<lparr>tw_err := e\<rparr>))"

definition pax_name :: "Header \<Rightarrow> gostring" where
  "pax_name hdr =
     (let (dir, file) = path_Split (h_Name hdr);
          fullName = path_Join [dir, str ''PaxHeaders.0'', file];
          ascii = toASCII fullName
      in if nameSize < length ascii then take nameSize ascii else ascii)"

definition pax_text :: "gomap \<Rightarrow> gostring" where
  "pax_text paxHeaders = concat (map (\<lambda>k. formatPAXRecord k (get_key paxHeaders k)) (sort (map fst paxHeaders)))"

definition ext_header :: "Header \<Rightarrow> gomap \<Rightarrow> Header" where
  "ext_header hdr paxHeaders =
     new_Header\<lparr>h_Typeflag := TypeXHeader, h_ModTime := h_ModTime hdr, h_Name := pax_name hdr,
                h_Size := int (length (pax_text paxHeaders))\<rparr>"

definition writePAXHeader :: "'w io_writer_ops \<Rightarrow> Header \<Rightarrow> gomap \<Rightarrow> 'w Writer \<Rightarrow> go_error option \<times> 'w Writer" where
  "writePAXHeader wops hdr paxHeaders tw =
     (case writeHeader_noPax wops (ext_header hdr paxHeaders) tw of
        (Some e, tw1) \<Rightarrow> (Some e, tw1)
      | (None, tw1) \<Rightarrow>
          case Writer_Write wops tw1 (pax_text paxHeaders) of
            (n, Some e, tw2) \<Rightarrow> (Some e, tw2)
          | (n, None, tw2) \<Rightarrow> Flush wops tw2)"

text \<open>The records of the extended attributes are added to the PAX headers.\<close>

definition add_xattrs :: "Header \<Rightarrow> gomap \<Rightarrow> gomap" where
  "add_xattrs hdr paxHeaders =
     fold (\<lambda>(k, v) m. AList.update (paxXattr @ k) v m)
       (case h_Xattrs hdr of None \<Rightarrow> [] | Some xs \<Rightarrow> xs) paxHeaders"

definition WriteHeader :: "'w io_writer_ops \<Rightarrow> Header \<Rightarrow> 'w Writer \<Rightarrow> go_error option \<times> 'w Writer" where
  "WriteHeader wops hdr tw =
     (case begin_header wops hdr True tw of
        (Inl e, tw1) \<Rightarrow> (Some e, tw1)
      | (Inr paxHeaders, tw1) \<Rightarrow>
          let paxHeaders = add_xattrs hdr paxHeaders
          in if paxHeaders = [] then finish_header wops hdr True tw1
             else case writePAXHeader wops hdr paxHeaders tw1 of
               (Some e, tw2) \<Rightarrow> (Some e, tw2)
             | (None, tw2) \<Rightarrow> finish_header wops hdr True tw2)"

text \<open>Two zero blocks end the archive.\<close>

definition Close :: "'w io_writer_ops \<Rightarrow> 'w Writer \<Rightarrow> go_error option \<times> 'w Writer" where
  "Close wops tw =
     (if tw_err tw \<noteq> None \<or> tw_closed tw then (tw_err tw, tw)
      else
        let tw = (snd (Flush wops tw))\<lparr>tw_closed := True\<rparr>
        in case tw_err tw of
             Some e \<Rightarrow> (Some e, tw)
           | None \<Rightarrow>
               case op_write wops (tw_w tw) zeroBlock of
                 (n1, Some e, w1) \<Rightarrow> (Some e, tw\<lparr>tw_w := w1, tw_err := Some e\<rparr>)
               | (n1, None, w1) \<Rightarrow>
                   case op_write wops w1 zeroBlock of
                     (n2, e, w2) \<Rightarrow> (e, tw\<lparr>tw_w := w2, tw_err := e\<rparr>))"

section \<open>USTAR paths\<close>

definition splitUSTARPath :: "gostring \<Rightarrow> (gostring \<times> gostring) option" where
  "splitUSTARPath name =
     (if length name \<le> nameSize \<or> \<not> isASCII name then None
      else
        let len = (if prefixSize + 1 < length name then prefixSize + 1
                   else if last name = 47 then length name - 1 else length name)
        in case LastIndexByte (take len name) 47 of
             None \<Rightarrow> None
           | Some i \<Rightarrow>
               let nlen = length name - i - 1; plen = i
               in if i = 0 \<or> nameSize < nlen \<or> nlen = 0 \<or> prefixSize < plen then None
                  else Some (take i name, drop (i + 1) name))"

section \<open>What a formatted header holds\<close>

text \<open>Storing several fields; the later formats and the checksum are added by \<open>SetFormat\<close>.\<close>

definition put_all :: "block \<Rightarrow> (field \<times> byte list) list \<Rightarrow> block" where
  "put_all b l = foldl (\<lambda>b (fd, xs). put_field b fd xs) b l"

definition fits_in :: "nat \<Rightarrow> field \<times> byte list \<Rightarrow> bool" where
  "fits_in n e \<longleftrightarrow> length (snd e) = snd (fst e) \<and> fst (fst e) + snd (fst e) \<le> n"

definition apart :: "field \<Rightarrow> field \<Rightarrow> bool" where
  "apart fd fe \<longleftrightarrow> fst fd + snd fd \<le> fst fe \<or> fst fe + snd fe \<le> fst fd"

lemma put_all_simps [simp]:
  "put_all b [] = b" "put_all b ((fd, xs) # l) = put_all (put_field b fd xs) l"
  "put_all b (l @ l') = put_all (put_all b l) l'"
  by (simp_all add: put_all_def)

lemma length_put_all [simp]: "\<forall>e \<in> set l. fits_in (length b) e \<Longrightarrow> length (put_all b l) = length b"
  by (induction l arbitrary: b) (auto simp: fits_in_def)

lemma get_put_all_other:
  assumes "\<forall>e \<in> set l. fits_in (length b) e \<and> apart (fst e) fd" "fst fd + snd fd \<le> length b"
  shows "get_field (put_all b l) fd = get_field b fd"
  using assms
proof (induction l arbitrary: b)
  case (Cons e l)
  obtain fe xs where e: "e = (fe, xs)" by fastforce
  have "fits_in (length b) (fe, xs)" "apart fe fd" using Cons.prems(1) by (auto simp: e)
  then have "get_field (put_field b fe xs) fd = get_field b fd"
    using Cons.prems(2) by (intro get_put_other) (auto simp: fits_in_def apart_def)
  moreover have "length (put_field b fe xs) = length b"
    using \<open>fits_in (length b) (fe, xs)\<close> by (simp add: fits_in_def)
  ultimately show ?case using Cons by (simp add: e)
qed simp

abbreviation ascending :: "(field \<times> byte list) list \<Rightarrow> bool" where
  "ascending \<equiv> sorted_wrt (\<lambda>e e'. fst (fst e) + snd (fst e) \<le> fst (fst e'))"

lemma get_put_all:
  assumes "(fd, xs) \<in> set l" "\<forall>e \<in> set l. fits_in (length b) e" "ascending l"
  shows "get_field (put_all b l) fd = xs"
  using assms
proof (induction l arbitrary: b)
  case (Cons e l)
  obtain fe ys where e: "e = (fe, ys)" by fastforce
  have fits: "fits_in (length b) (fe, ys)" using Cons.prems(2) by (simp add: e)
  then have len: "length (put_field b fe ys) = length b" by (simp add: fits_in_def)
  show ?case
  proof (cases "(fd, xs) \<in> set l")
    case False
    then have fe: "fe = fd" "ys = xs" using Cons.prems(1) by (auto simp: e)
    have "\<forall>e \<in> set l. fits_in (length (put_field b fe ys)) e \<and> apart (fst e) fd"
      using Cons.prems(2,3) len fe by (auto simp: e apart_def)
    then have "get_field (put_all (put_field b fe ys) l) fd = get_field (put_field b fe ys) fd"
      using fits len fe by (intro get_put_all_other) (auto simp: fits_in_def)
    then show ?thesis using fits by (simp add: e fe fits_in_def get_put_same)
  next
    case True
    then show ?thesis using Cons len by (simp add: e)
  qed
qed simp

text \<open>The bytes of a text and of a numeric field.\<close>

definition str_field :: "nat \<Rightarrow> gostring \<Rightarrow> byte list" where
  "str_field n s = take n (toASCII s) @ replicate (n - length (toASCII s)) 0"

definition wide :: "nat \<Rightarrow> int \<Rightarrow> bool" where
  "wide n x \<longleftrightarrow> n \<le> length (FormatInt 8 x)"

definition num_field :: "nat \<Rightarrow> int \<Rightarrow> byte list" where
  "num_field n x = (if wide n x then snd (formatNumeric None (replicate n 0) x) else octal_text n x @ [0])"

definition num_ok :: "nat \<Rightarrow> int \<Rightarrow> bool" where
  "num_ok n x \<longleftrightarrow> 0 \<le> x \<and> in_i64 x \<and> fitsInBase256 n x \<and> 1 < n"

lemma length_str_field [simp]: "length (str_field n s) = n"
  by (simp add: str_field_def)

lemma length_formatNumeric [simp]: "length (snd (formatNumeric f b x)) = length b"
  by (simp add: formatNumeric_def formatOctal_def Let_def)

lemma length_num_field: "num_ok n x \<Longrightarrow> length (num_field n x) = n"
  by (auto simp: num_field_def num_ok_def wide_def FormatInt_def length_octal_text)

lemma parseNumeric_num_field: "num_ok n x \<Longrightarrow> parseNumeric p (num_field n x) = (x, p)"
  using base256_roundtrip [of "replicate n 0" x None p]
  by (auto simp: num_field_def num_ok_def parseNumeric_octal_text)

lemma parseString_str_field: "parseString (str_field n s) = takeWhile (\<lambda>c. c \<noteq> 0) (take n (toASCII s))"
proof -
  have "takeWhile (\<lambda>c. c \<noteq> 0) (t @ replicate k 0) = takeWhile (\<lambda>c. c \<noteq> 0) t" for t :: gostring and k
    by (induction t) (cases k; simp)+
  then show ?thesis by (simp add: parseString_def str_field_def)
qed

lemma header_String_zero:
  assumes "get_field (fs_header fs) fd = replicate (snd fd) 0" "k \<noteq> paxNone"
  shows "header_String fd s k fs =
    fs\<lparr>fs_header := put_field (fs_header fs) fd (str_field (snd fd) s),
       fs_paxHeaders := if snd fd < length s \<or> \<not> isASCII s then AList.update k s (fs_paxHeaders fs)
         else fs_paxHeaders fs\<rparr>"
proof -
  let ?t = "take (snd fd) (toASCII s)"
  have "isASCII ?t" using isASCII_toASCII [of s] by (auto simp: isASCII_bytes dest: in_set_takeD)
  then have "formatString (fs_err fs) (replicate (snd fd) 0) ?t = (fs_err fs, str_field (snd fd) s)"
    by (subst formatString_content)
      (auto simp: str_field_def min_def replicate_Suc [symmetric] Suc_diff_Suc simp del: replicate_Suc)
  moreover have "(if snd fd < length (toASCII s) then ?t else toASCII s) = ?t" by simp
  ultimately show ?thesis
    using assms by (simp add: header_String_def Let_def del: toASCII_id split del: if_split cong: if_cong)
qed

lemma header_Numeric_zero:
  assumes "length (get_field (fs_header fs) fd) = snd fd" "num_ok (snd fd) x"
  shows "header_Numeric False fd x k fs =
    fs\<lparr>fs_header := put_field (fs_header fs) fd (num_field (snd fd) x),
       fs_usedBinary := fs_usedBinary fs \<or> wide (snd fd) x\<rparr>"
proof (cases "wide (snd fd) x")
  case True
  have "formatNumeric (fs_err fs) (get_field (fs_header fs) fd) x = (fs_err fs, num_field (snd fd) x)"
    using assms True by (simp add: formatNumeric_def num_field_def num_ok_def Let_def)
  then show ?thesis using True assms by (simp add: header_Numeric_def wide_def Let_def)
next
  case False
  have "formatOctal (fs_err fs) (get_field (fs_header fs) fd) x = (fs_err fs, num_field (snd fd) x)"
    using assms False by (auto simp: num_field_def num_ok_def wide_def FormatInt_def formatOctal_nonneg)
  then show ?thesis using False assms by (simp add: header_Numeric_def header_Octal_def wide_def Let_def)
qed

lemma header_Octal_zero:
  assumes "length (get_field (fs_header fs) fd) = snd fd" "num_ok (snd fd) x" "\<not> wide (snd fd) x"
  shows "header_Octal fd x fs = fs\<lparr>fs_header := put_field (fs_header fs) fd (num_field (snd fd) x)\<rparr>"
proof -
  have "formatOctal (fs_err fs) (get_field (fs_header fs) fd) x = (fs_err fs, num_field (snd fd) x)"
    using assms by (auto simp: num_field_def num_ok_def wide_def FormatInt_def formatOctal_nonneg)
  then show ?thesis using assms by (simp add: header_Octal_def Let_def)
qed

text \<open>The fields in the order they are written, and the PAX records that are needed.\<close>

definition header_layout :: "Header \<Rightarrow> (field \<times> byte list) list" where
  "header_layout hdr =
     [(v7_Name, str_field 100 (h_Name hdr)), (v7_Mode, num_field 8 (h_Mode hdr)),
      (v7_UID, num_field 8 (h_Uid hdr)), (v7_GID, num_field 8 (h_Gid hdr)),
      (v7_Size, num_field 12 (h_Size hdr)), (v7_ModTime, num_field 12 (header_time hdr)),
      (v7_TypeFlag, [h_Typeflag hdr]), (v7_LinkName, str_field 100 (h_Linkname hdr)),
      (ustar_UserName, str_field 32 (h_Uname hdr)), (ustar_GroupName, str_field 32 (h_Gname hdr)),
      (ustar_DevMajor, num_field 8 (h_Devmajor hdr)), (ustar_DevMinor, num_field 8 (h_Devminor hdr))]"

definition needs_pax :: "nat \<Rightarrow> gostring \<Rightarrow> bool" where
  "needs_pax n s \<longleftrightarrow> n < length s \<or> \<not> isASCII s"

definition pax_needed :: "Header \<Rightarrow> gomap" where
  "pax_needed hdr =
     (if needs_pax 100 (h_Name hdr) then [(paxPath, h_Name hdr)] else []) @
     (if needs_pax 100 (h_Linkname hdr) then [(paxLinkpath, h_Linkname hdr)] else []) @
     (if needs_pax 32 (h_Uname hdr) then [(paxUname, h_Uname hdr)] else []) @
     (if needs_pax 32 (h_Gname hdr) then [(paxGname, h_Gname hdr)] else [])"

definition needs_binary :: "Header \<Rightarrow> bool" where
  "needs_binary hdr \<longleftrightarrow>
     wide 8 (h_Uid hdr) \<or> wide 8 (h_Gid hdr) \<or> wide 12 (h_Size hdr) \<or> wide 12 (header_time hdr) \<or>
     wide 8 (h_Devmajor hdr) \<or> wide 8 (h_Devminor hdr)"

text \<open>Headers whose numbers can be written: not negative and within the fields' binary range.\<close>

definition encodable :: "Header \<Rightarrow> bool" where
  "encodable hdr \<longleftrightarrow>
     num_ok 8 (h_Mode hdr) \<and> \<not> wide 8 (h_Mode hdr) \<and> num_ok 8 (h_Uid hdr) \<and> num_ok 8 (h_Gid hdr) \<and>
     num_ok 12 (h_Size hdr) \<and> num_ok 12 (header_time hdr) \<and>
     num_ok 8 (h_Devmajor hdr) \<and> num_ok 8 (h_Devminor hdr)"

lemma layout_ok:
  assumes "encodable hdr"
  shows "\<forall>e \<in> set (header_layout hdr). fits_in 512 e"
    and "ascending (header_layout hdr)"
  using assms
  by (simp_all add: header_layout_def encodable_def fits_in_def field_defs length_num_field)

lemma get_zeroBlock: "fst fd + snd fd \<le> 512 \<Longrightarrow> get_field zeroBlock fd = replicate (snd fd) 0"
  by (simp add: get_field_def zeroBlock_def bslice_replicate)

lemma length_zeroBlock [simp]: "length zeroBlock = 512"
  by (simp add: zeroBlock_def)

text \<open>A field not yet written is still zero.\<close>

lemma get_prefix_zero:
  assumes "\<forall>e \<in> set l. fits_in 512 e \<and> fst (fst e) + snd (fst e) \<le> fst fd" "fst fd + snd fd \<le> 512"
  shows "get_field (put_all zeroBlock l) fd = replicate (snd fd) 0"
  using assms get_put_all_other [of l zeroBlock fd] get_zeroBlock [of fd] by (auto simp: apart_def)

lemma format_fields_eq:
  assumes "encodable hdr"
  shows "format_fields False ub hdr =
    \<lparr>fs_header = put_all zeroBlock (header_layout hdr), fs_err = None,
     fs_paxHeaders = pax_needed hdr, fs_usedBinary = ub \<or> needs_binary hdr\<rparr>"
proof -
  let ?L = "header_layout hdr"
  have z: "get_field (put_all zeroBlock (take k ?L)) fd = replicate (snd fd) 0"
    if "k < length ?L" "fd = fst (?L ! k)" for k fd
  proof (rule get_prefix_zero)
    have "ascending (take k ?L @ ?L ! k # drop (Suc k) ?L)"
      using layout_ok(2) [OF assms] id_take_nth_drop [OF that(1)] by simp
    then show "\<forall>e \<in> set (take k ?L). fits_in 512 e \<and> fst (fst e) + snd (fst e) \<le> fst fd"
      using layout_ok(1) [OF assms] that(2) by (auto simp: sorted_wrt_append dest: in_set_takeD)
    show "fst fd + snd fd \<le> 512"
      using that layout_ok(1) [OF assms] nth_mem [of k ?L] by (auto simp: fits_in_def)
  qed
  note z' = z [of 0] z [of 1] z [of 2] z [of 3] z [of 4] z [of 5] z [of 7] z [of 8] z [of 9] z [of 10] z [of 11]
  note z'' = z' [unfolded header_layout_def, simplified]
  have keys: "paxPath \<noteq> paxNone" "paxLinkpath \<noteq> paxNone" "paxUname \<noteq> paxNone" "paxGname \<noteq> paxNone"
      "paxPath \<noteq> paxLinkpath" "paxPath \<noteq> paxUname" "paxPath \<noteq> paxGname" "paxLinkpath \<noteq> paxUname"
      "paxLinkpath \<noteq> paxGname" "paxUname \<noteq> paxGname"
    by (simp_all add: pax_keys)
  have sz: "snd v7_Name = 100" "snd v7_Mode = 8" "snd v7_UID = 8" "snd v7_GID = 8" "snd v7_Size = 12"
      "snd v7_ModTime = 12" "snd v7_LinkName = 100" "snd ustar_UserName = 32" "snd ustar_GroupName = 32"
      "snd ustar_DevMajor = 8" "snd ustar_DevMinor = 8"
    by (simp_all add: field_defs)
  show ?thesis
    using assms unfolding encodable_def
    by (simp add: format_fields_def Let_def header_String_zero header_Numeric_zero header_Octal_zero z'' sz
        keys header_layout_def pax_needed_def needs_pax_def needs_binary_def) 
qed

section \<open>What is written\<close>

text \<open>The header block of an entry; the flag says whether the binary extension was used before.\<close>

definition header_block :: "bool \<Rightarrow> Header \<Rightarrow> block" where
  "header_block ub hdr =
     (case SetFormat (if ub \<or> needs_binary hdr then formatGNU else formatUSTAR)
             (put_all zeroBlock (header_layout hdr)) of
        Inr b \<Rightarrow> b
      | Inl _ \<Rightarrow> [])"

definition zero_pad :: "int \<Rightarrow> byte list" where
  "zero_pad n = replicate (nat ((- n) mod 512)) 0"

text \<open>All that \<^verbatim>\<open>WriteHeader\<close> writes for an entry: the PAX header if one is needed, and its own.\<close>

definition header_bytes :: "bool \<Rightarrow> Header \<Rightarrow> byte list" where
  "header_bytes ub hdr =
     (let ub1 = (ub \<or> needs_binary hdr); pax = add_xattrs hdr (pax_needed hdr)
      in if pax = [] then header_block ub hdr
         else header_block ub1 (ext_header hdr pax) @ pax_text pax @
              zero_pad (int (length (pax_text pax))) @ header_block ub hdr)"

definition binary_after :: "bool \<Rightarrow> Header \<Rightarrow> bool" where
  "binary_after ub hdr =
     (let pax = add_xattrs hdr (pax_needed hdr)
      in ub \<or> needs_binary hdr \<or> (pax \<noteq> [] \<and> needs_binary (ext_header hdr pax)))"

lemma SetFormat_header_block:
  assumes "encodable hdr"
  shows "SetFormat (if ub \<or> needs_binary hdr then formatGNU else formatUSTAR)
      (put_all zeroBlock (header_layout hdr)) = Inr (header_block ub hdr)"
proof -
  let ?b = "put_all zeroBlock (header_layout hdr)" and ?f = "if ub \<or> needs_binary hdr then formatGNU else formatUSTAR"
  have len: "length ?b = 512" using layout_ok(1) [OF assms] by simp
  have "?f \<in> {formatGNU, formatSTAR, formatUSTAR, formatPAX}" by simp
  from SetFormat_detected [OF len this] obtain b' where "SetFormat ?f ?b = Inr b'" by (elim exE conjE)
  then show ?thesis by (simp add: header_block_def)
qed

lemma header_pad:
  assumes "0 \<le> n" shows "go_rem (512 - go_rem n 512) 512 = (- n) mod 512"
proof -
  have "go_rem (512 - go_rem n 512) 512 = (512 - n mod 512) mod 512"
    using assms pos_mod_bound [of 512 n] by (simp add: go_rem_def)
  also have "\<dots> = (- n) mod 512" by (simp add: mod_minus_eq)
  finally show ?thesis .
qed

lemma num_ok_zero: "num_ok 8 0" "num_ok 12 0" "\<not> wide 8 0" "\<not> wide 12 0"
  by (simp_all add: num_ok_def wide_def in_i64_def fitsInBase256_def FormatInt_def FormatUint_def digits_of.simps)

lemma ext_header_simps [simp]:
  "h_Typeflag (ext_header hdr pax) = 120" "h_Size (ext_header hdr pax) = int (length (pax_text pax))"
  by (simp_all add: ext_header_def)

lemma encodable_ext:
  assumes "encodable hdr" "int (length (pax_text pax)) < 9223372036854775808"
  shows "encodable (ext_header hdr pax)" "pax_needed (ext_header hdr pax) = []"
proof -
  have "isASCII (take n (toASCII s))" for n s
    using isASCII_toASCII [of s] by (auto simp: isASCII_bytes dest: in_set_takeD)
  then have "isASCII (pax_name hdr)" "length (pax_name hdr) \<le> 100"
    by (auto simp: pax_name_def Let_def split: prod.splits)
  moreover have "isASCII []" by (simp add: isASCII_bytes)
  ultimately show "pax_needed (ext_header hdr pax) = []"
    by (simp add: pax_needed_def needs_pax_def ext_header_def new_Header_def)
  show "encodable (ext_header hdr pax)"
    using assms num_ok_zero
    by (auto simp: encodable_def ext_header_def new_Header_def header_time_def num_ok_def in_i64_def
        fitsInBase256_def)
qed

text \<open>An open writer that is between two entries, its last entry complete.\<close>

definition ready :: "'w Writer \<Rightarrow> bool" where
  "ready tw \<longleftrightarrow> \<not> tw_closed tw \<and> tw_err tw = None \<and> tw_nb tw = 0 \<and> 0 \<le> tw_pad tw \<and> tw_pad tw < 512 \<and>
     \<not> tw_preferPax tw"

context reliable_writer
begin

lemma flush_loop_ok:
  assumes "nat n \<le> fuel"
  obtains w' where "flush_loop wops fuel n w = (None, w')" "out w' = out w @ replicate (nat n) 0"
proof -
  have "\<exists>w'. flush_loop wops fuel n w = (None, w') \<and> out w' = out w @ replicate (nat n) 0"
    using assms
  proof (induction fuel arbitrary: n w)
    case 0
    then show ?case by (simp add: flush_loop.simps)
  next
    case (Suc fuel)
    show ?case
    proof (cases "n \<le> 0")
      case True
      then show ?thesis by (simp add: flush_loop.simps)
    next
      case False
      define nr where "nr = (if 512 < n then 512 else n)"
      have nr: "0 < nr" "nr \<le> n" "take (nat nr) zeroBlock = replicate (nat nr) 0"
        using False by (auto simp: nr_def zeroBlock_def min_def)
      obtain w1 where w1: "op_write wops w (replicate (nat nr) 0) = (nat nr, None, w1)"
          "out w1 = out w @ replicate (nat nr) 0"
        using write_ok [of w "replicate (nat nr) 0"] by auto
      have "nat (n - nr) \<le> fuel" using Suc.prems nr by simp
      from Suc.IH [OF this, of w1] obtain w'
        where w': "flush_loop wops fuel (n - nr) w1 = (None, w')" "out w' = out w1 @ replicate (nat (n - nr)) 0"
        by blast
      have "nat n = nat nr + nat (n - nr)" using nr by simp
      then have "out w' = out w @ replicate (nat n) 0" using w' w1 by (simp add: replicate_add)
      moreover have "flush_loop wops (Suc fuel) n w = (None, w')"
        using False w1 w' nr
        by (subst flush_loop.simps) (simp add: nr_def [symmetric] Let_def)
      ultimately show ?thesis by blast
    qed
  qed
  then show thesis using that by blast
qed

lemma Flush_ok:
  assumes "tw_err tw = None" "tw_nb tw = 0" "0 \<le> tw_pad tw" "tw_pad tw < 512"
  obtains w' where "Flush wops tw = (None, tw\<lparr>tw_w := w', tw_pad := 0\<rparr>)"
    and "out w' = out (tw_w tw) @ replicate (nat (tw_pad tw)) 0"
proof -
  have w: "i64 (tw_pad tw) = tw_pad tw" using assms by (simp add: in_i64_def)
  obtain w' where w': "flush_loop wops (nat (tw_pad tw)) (tw_pad tw) (tw_w tw) = (None, w')"
      "out w' = out (tw_w tw) @ replicate (nat (tw_pad tw)) 0"
    by (rule flush_loop_ok [OF order.refl])
  have "Flush wops tw = (None, tw\<lparr>tw_w := w', tw_pad := 0\<rparr>)"
    using assms(1,2) w' w by (simp add: Flush_def)
  then show thesis using that w' by blast
qed

lemma begin_header_ok:
  assumes "ready tw" "encodable hdr"
  obtains tw' where "begin_header wops hdr allow tw = (Inr (pax_needed hdr), tw')" "ready tw'" "tw_pad tw' = 0"
    and "tw_usedBinary tw' = (tw_usedBinary tw \<or> needs_binary hdr)"
    and "(if allow then tw_hdrBuff tw' else tw_paxHdrBuff tw') = header_block (tw_usedBinary tw) hdr"
    and "allow \<or> tw_hdrBuff tw' = tw_hdrBuff tw"
    and "out (tw_w tw') = out (tw_w tw) @ replicate (nat (tw_pad tw)) 0"
proof -
  obtain w' where fl: "Flush wops tw = (None, tw\<lparr>tw_w := w', tw_pad := 0\<rparr>)"
      "out w' = out (tw_w tw) @ replicate (nat (tw_pad tw)) 0"
    using assms(1) by (auto simp: ready_def intro: Flush_ok)
  let ?b = "header_block (tw_usedBinary tw) hdr"
  let ?tw = "tw\<lparr>tw_w := w', tw_pad := 0, tw_usedBinary := tw_usedBinary tw \<or> needs_binary hdr\<rparr>"
  have "begin_header wops hdr allow tw =
      (Inr (pax_needed hdr), if allow then ?tw\<lparr>tw_hdrBuff := ?b\<rparr> else ?tw\<lparr>tw_paxHdrBuff := ?b\<rparr>)"
    using assms fl SetFormat_header_block [OF assms(2), of "tw_usedBinary tw"]
    by (simp add: begin_header_def ready_def format_fields_eq Let_def)
  then show thesis
    using fl assms(1)
    by (intro that [of "if allow then ?tw\<lparr>tw_hdrBuff := ?b\<rparr> else ?tw\<lparr>tw_paxHdrBuff := ?b\<rparr>"])
      (simp_all add: ready_def)
qed

lemma finish_header_ok:
  assumes "ready tw" "0 \<le> h_Size hdr"
  obtains w' where "finish_header wops hdr allow tw =
      (None, tw\<lparr>tw_nb := h_Size hdr, tw_pad := (- h_Size hdr) mod 512, tw_w := w', tw_err := None\<rparr>)"
    and "out w' = out (tw_w tw) @ (if allow then tw_hdrBuff tw else tw_paxHdrBuff tw)"
proof -
  let ?b = "if allow then tw_hdrBuff tw else tw_paxHdrBuff tw"
  obtain w' where "op_write wops (tw_w tw) ?b = (length ?b, None, w')" "out w' = out (tw_w tw) @ ?b"
    by (rule write_ok)
  then show thesis using that [of w']
    by (cases allow) (simp_all add: finish_header_def Let_def header_pad [OF assms(2)])
qed

lemma Write_ok:
  assumes "\<not> tw_closed tw" "int (length b) \<le> tw_nb tw"
  obtains w' where "Writer_Write wops tw b =
      (length b, None, tw\<lparr>tw_w := w', tw_nb := tw_nb tw - int (length b), tw_err := None\<rparr>)"
    and "out w' = out (tw_w tw) @ b"
proof -
  obtain w' where "op_write wops (tw_w tw) b = (length b, None, w')" "out w' = out (tw_w tw) @ b"
    by (rule write_ok)
  then show thesis using that [of w'] assms by (simp add: Writer_Write_def Let_def)
qed

lemma writeHeader_noPax_ok:
  assumes "ready tw" "encodable hdr" "pax_needed hdr = []"
  obtains tw' where "writeHeader_noPax wops hdr tw = (None, tw')"
    and "\<not> tw_closed tw'" "tw_err tw' = None" "\<not> tw_preferPax tw'" "tw_nb tw' = h_Size hdr"
    and "tw_pad tw' = (- h_Size hdr) mod 512" "tw_hdrBuff tw' = tw_hdrBuff tw"
    and "tw_usedBinary tw' = (tw_usedBinary tw \<or> needs_binary hdr)"
    and "out (tw_w tw') = out (tw_w tw) @ replicate (nat (tw_pad tw)) 0 @ header_block (tw_usedBinary tw) hdr"
proof -
  obtain tw1 where tw1: "begin_header wops hdr False tw = (Inr (pax_needed hdr), tw1)" "ready tw1"
      "tw_usedBinary tw1 = (tw_usedBinary tw \<or> needs_binary hdr)"
      "tw_paxHdrBuff tw1 = header_block (tw_usedBinary tw) hdr" "tw_hdrBuff tw1 = tw_hdrBuff tw"
      "out (tw_w tw1) = out (tw_w tw) @ replicate (nat (tw_pad tw)) 0"
    by (rule begin_header_ok [OF assms(1,2), of False]) auto
  have "0 \<le> h_Size hdr" using assms(2) by (simp add: encodable_def num_ok_def)
  with tw1(2) obtain w' where "finish_header wops hdr False tw1 =
      (None, tw1\<lparr>tw_nb := h_Size hdr, tw_pad := (- h_Size hdr) mod 512, tw_w := w', tw_err := None\<rparr>)"
      "out w' = out (tw_w tw1) @ (if False then tw_hdrBuff tw1 else tw_paxHdrBuff tw1)"
    by (rule finish_header_ok)
  then show thesis
    using tw1 assms(3)
    by (intro that [of "tw1\<lparr>tw_nb := h_Size hdr, tw_pad := (- h_Size hdr) mod 512, tw_w := w', tw_err := None\<rparr>"])
      (simp_all add: writeHeader_noPax_def ready_def)
qed

lemma writePAXHeader_ok:
  assumes "ready tw" "tw_pad tw = 0" "encodable hdr" "int (length (pax_text pax)) < 9223372036854775808"
  obtains tw' where "writePAXHeader wops hdr pax tw = (None, tw')" "ready tw'" "tw_pad tw' = 0"
    and "tw_hdrBuff tw' = tw_hdrBuff tw"
    and "tw_usedBinary tw' = (tw_usedBinary tw \<or> needs_binary (ext_header hdr pax))"
    and "out (tw_w tw') = out (tw_w tw) @ header_block (tw_usedBinary tw) (ext_header hdr pax) @
      pax_text pax @ zero_pad (int (length (pax_text pax)))"
proof -
  let ?ext = "ext_header hdr pax" and ?t = "pax_text pax"
  note ext = encodable_ext [OF assms(3,4)]
  obtain tw1 where tw1: "writeHeader_noPax wops ?ext tw = (None, tw1)" "\<not> tw_closed tw1" "tw_err tw1 = None"
      "\<not> tw_preferPax tw1" "tw_nb tw1 = h_Size ?ext" "tw_pad tw1 = (- h_Size ?ext) mod 512"
      "tw_hdrBuff tw1 = tw_hdrBuff tw" "tw_usedBinary tw1 = (tw_usedBinary tw \<or> needs_binary ?ext)"
      "out (tw_w tw1) = out (tw_w tw) @ replicate (nat (tw_pad tw)) 0 @ header_block (tw_usedBinary tw) ?ext"
    by (rule writeHeader_noPax_ok [OF assms(1) ext])
  have "int (length ?t) \<le> tw_nb tw1" using tw1(5) by simp
  with tw1(2) obtain w2 where w2: "Writer_Write wops tw1 ?t =
      (length ?t, None, tw1\<lparr>tw_w := w2, tw_nb := tw_nb tw1 - int (length ?t), tw_err := None\<rparr>)"
      "out w2 = out (tw_w tw1) @ ?t"
    by (rule Write_ok)
  let ?tw2 = "tw1\<lparr>tw_w := w2, tw_nb := tw_nb tw1 - int (length ?t), tw_err := None\<rparr>"
  obtain w3 where w3: "Flush wops ?tw2 = (None, ?tw2\<lparr>tw_w := w3, tw_pad := 0\<rparr>)"
      "out w3 = out (tw_w ?tw2) @ replicate (nat (tw_pad ?tw2)) 0"
    by (rule Flush_ok [of ?tw2]) (use tw1 in simp_all)
  have "writePAXHeader wops hdr pax tw = (None, ?tw2\<lparr>tw_w := w3, tw_pad := 0\<rparr>)"
    using tw1(1) w2(1) w3(1) by (simp add: writePAXHeader_def)
  then show thesis
    using tw1 w2(2) w3(2) assms(2)
    by (intro that [of "?tw2\<lparr>tw_w := w3, tw_pad := 0\<rparr>"]) (simp_all add: ready_def zero_pad_def)
qed

text \<open>\<^verbatim>\<open>WriteHeader\<close> pads the entry before, then writes the header blocks.\<close>

lemma WriteHeader_ok:
  assumes "ready tw" "encodable hdr"
    and "int (length (pax_text (add_xattrs hdr (pax_needed hdr)))) < 9223372036854775808"
  obtains tw' where "WriteHeader wops hdr tw = (None, tw')"
    and "\<not> tw_closed tw'" "tw_err tw' = None" "\<not> tw_preferPax tw'" "tw_nb tw' = h_Size hdr"
    and "tw_pad tw' = (- h_Size hdr) mod 512" "tw_usedBinary tw' = binary_after (tw_usedBinary tw) hdr"
    and "out (tw_w tw') = out (tw_w tw) @ replicate (nat (tw_pad tw)) 0 @ header_bytes (tw_usedBinary tw) hdr"
proof -
  let ?pax = "add_xattrs hdr (pax_needed hdr)"
  obtain tw1 where tw1: "begin_header wops hdr True tw = (Inr (pax_needed hdr), tw1)" "ready tw1" "tw_pad tw1 = 0"
      "tw_usedBinary tw1 = (tw_usedBinary tw \<or> needs_binary hdr)"
      "tw_hdrBuff tw1 = header_block (tw_usedBinary tw) hdr"
      "out (tw_w tw1) = out (tw_w tw) @ replicate (nat (tw_pad tw)) 0"
    by (rule begin_header_ok [OF assms(1,2), of True]) auto
  have sz: "0 \<le> h_Size hdr" using assms(2) by (simp add: encodable_def num_ok_def)
  show thesis
  proof (cases "?pax = []")
    case True
    obtain w' where "finish_header wops hdr True tw1 =
        (None, tw1\<lparr>tw_nb := h_Size hdr, tw_pad := (- h_Size hdr) mod 512, tw_w := w', tw_err := None\<rparr>)"
        "out w' = out (tw_w tw1) @ (if True then tw_hdrBuff tw1 else tw_paxHdrBuff tw1)"
      using tw1(2) sz by (rule finish_header_ok)
    then show thesis
      using tw1 True
      by (intro that [of "tw1\<lparr>tw_nb := h_Size hdr, tw_pad := (- h_Size hdr) mod 512, tw_w := w', tw_err := None\<rparr>"])
        (simp_all add: WriteHeader_def ready_def header_bytes_def binary_after_def Let_def)
  next
    case False
    obtain tw2 where tw2: "writePAXHeader wops hdr ?pax tw1 = (None, tw2)" "ready tw2" "tw_pad tw2 = 0"
        "tw_hdrBuff tw2 = tw_hdrBuff tw1"
        "tw_usedBinary tw2 = (tw_usedBinary tw1 \<or> needs_binary (ext_header hdr ?pax))"
        "out (tw_w tw2) = out (tw_w tw1) @ header_block (tw_usedBinary tw1) (ext_header hdr ?pax) @
          pax_text ?pax @ zero_pad (int (length (pax_text ?pax)))"
      by (rule writePAXHeader_ok [OF tw1(2,3) assms(2,3)])
    obtain w' where "finish_header wops hdr True tw2 =
        (None, tw2\<lparr>tw_nb := h_Size hdr, tw_pad := (- h_Size hdr) mod 512, tw_w := w', tw_err := None\<rparr>)"
        "out w' = out (tw_w tw2) @ (if True then tw_hdrBuff tw2 else tw_paxHdrBuff tw2)"
      using tw2(2) sz by (rule finish_header_ok)
    then show thesis
      using tw1 tw2 False
      by (intro that [of "tw2\<lparr>tw_nb := h_Size hdr, tw_pad := (- h_Size hdr) mod 512, tw_w := w', tw_err := None\<rparr>"])
        (simp_all add: WriteHeader_def ready_def header_bytes_def binary_after_def Let_def)
  qed
qed

lemma Close_ok:
  assumes "ready tw"
  obtains tw' where "Close wops tw = (None, tw')" "tw_closed tw'"
    and "out (tw_w tw') = out (tw_w tw) @ replicate (nat (tw_pad tw)) 0 @ zeroBlock @ zeroBlock"
proof -
  obtain w1 where w1: "Flush wops tw = (None, tw\<lparr>tw_w := w1, tw_pad := 0\<rparr>)"
      "out w1 = out (tw_w tw) @ replicate (nat (tw_pad tw)) 0"
    by (rule Flush_ok [of tw]) (use assms in \<open>simp_all add: ready_def\<close>)
  obtain w2 where w2: "op_write wops w1 zeroBlock = (512, None, w2)" "out w2 = out w1 @ zeroBlock"
    using write_ok [of w1 zeroBlock] by auto
  obtain w3 where w3: "op_write wops w2 zeroBlock = (512, None, w3)" "out w3 = out w2 @ zeroBlock"
    using write_ok [of w2 zeroBlock] by auto
  have "Close wops tw = (None, tw\<lparr>tw_pad := 0, tw_closed := True, tw_w := w3, tw_err := None\<rparr>)"
    using assms w1 w2(1) w3(1) by (simp add: Close_def ready_def Let_def)
  then show thesis using that w1(2) w2(2) w3(2) by simp
qed

end

end
