(* ===== verification/Tar_Roundtrip.thy ===== *)
theory Tar_Roundtrip
  imports Tar_Reader Tar_Writer
begin

text \<open>
  The two halves of the tar package together: what \<^verbatim>\<open>Writer\<close> writes is what
  \<^verbatim>\<open>Reader\<close> reads. First a single header block, then headers with PAX extensions, then
  whole archives, written and read by client loops in the usual way.
\<close>

section \<open>A header block is read back\<close>

text \<open>
  What the reader sees in the block written for a header: the texts cut to the size of their
  fields and to ASCII, the time in whole seconds, the device numbers of devices only, and none of
  what a plain block has no field for.
\<close>

definition text_of :: "nat \<Rightarrow> gostring \<Rightarrow> gostring" where
  "text_of n s = takeWhile (\<lambda>c. c \<noteq> 0) (take n (toASCII s))"

definition is_device :: "Header \<Rightarrow> bool" where
  "is_device hdr \<longleftrightarrow> h_Typeflag hdr = TypeChar \<or> h_Typeflag hdr = TypeBlock"

definition block_view :: "Header \<Rightarrow> Header" where
  "block_view hdr =
     new_Header\<lparr>h_Name := text_of 100 (h_Name hdr), h_Mode := h_Mode hdr, h_Uid := h_Uid hdr,
       h_Gid := h_Gid hdr, h_Size := h_Size hdr, h_ModTime := time_Unix (header_time hdr) 0,
       h_Typeflag := h_Typeflag hdr, h_Linkname := text_of 100 (h_Linkname hdr),
       h_Uname := text_of 32 (h_Uname hdr), h_Gname := text_of 32 (h_Gname hdr),
       h_Devmajor := if is_device hdr then h_Devmajor hdr else 0,
       h_Devminor := if is_device hdr then h_Devminor hdr else 0\<rparr>"

lemma header_block_format:
  assumes "encodable hdr"
  shows "length (header_block ub hdr) = 512"
    and "GetFormat (header_block ub hdr) = (if ub \<or> needs_binary hdr then formatGNU else formatUSTAR)"
    and "plain_field fd \<Longrightarrow> get_field (header_block ub hdr) fd = get_field (put_all zeroBlock (header_layout hdr)) fd"
proof -
  let ?b = "put_all zeroBlock (header_layout hdr)" and ?f = "if ub \<or> needs_binary hdr then formatGNU else formatUSTAR"
  note layout = layout_ok [OF assms]
  have len: "length ?b = 512" using layout(1) by simp
  have mem: "?f \<in> {formatGNU, formatSTAR, formatUSTAR, formatPAX}" by simp
  have "get_field ?b star_Trailer = replicate 4 0"
    using layout(1) get_prefix_zero [of "header_layout hdr" star_Trailer]
    by (simp add: header_layout_def field_defs)
  then have "hd (get_field ?b star_Trailer) = 0" by simp
  then have tr: "get_field ?b star_Trailer \<noteq> trailerSTAR" by (auto simp: trailerSTAR_def)
  have f: "?f \<noteq> formatSTAR" "?f = formatGNU \<longleftrightarrow> ub \<or> needs_binary hdr" by simp_all
  from SetFormat_detected [OF len mem] SetFormat_header_block [OF assms, of ub]
  have c: "length (header_block ub hdr) = 512" "\<forall>fd. plain_field fd \<longrightarrow> get_field (header_block ub hdr) fd = get_field ?b fd"
      "GetFormat (header_block ub hdr) = (if ?f = formatGNU then formatGNU
        else if ?f = formatSTAR \<or> get_field ?b star_Trailer = trailerSTAR then formatSTAR else formatUSTAR)"
    by auto
  show "length (header_block ub hdr) = 512" by (rule c(1))
  show "plain_field fd \<Longrightarrow> get_field (header_block ub hdr) fd = get_field ?b fd" using c(2) by blast
  show "GetFormat (header_block ub hdr) = ?f" using c(3) f tr by simp
qed

lemma header_block_fields:
  assumes "encodable hdr"
  shows "(fd, xs) \<in> set (header_layout hdr) \<Longrightarrow> get_field (header_block ub hdr) fd = xs"
    and "fd \<in> {ustar_Prefix, gnu_AccessTime, gnu_ChangeTime} \<Longrightarrow> get_field (header_block ub hdr) fd = replicate (snd fd) 0"
proof -
  note layout = layout_ok [OF assms]
  have plain: "\<forall>e \<in> set (header_layout hdr). plain_field (fst e)"
    by (simp add: header_layout_def plain_field_def field_defs)
  show "get_field (header_block ub hdr) fd = xs" if "(fd, xs) \<in> set (header_layout hdr)"
    using that plain get_put_all [OF that, of zeroBlock] layout header_block_format(3) [OF assms, of fd ub]
    by fastforce
  assume fd: "fd \<in> {ustar_Prefix, gnu_AccessTime, gnu_ChangeTime}"
  then have "plain_field fd" by (auto simp: plain_field_def field_defs)
  moreover have "get_field (put_all zeroBlock (header_layout hdr)) fd = replicate (snd fd) 0"
    using fd layout(1) by (intro get_prefix_zero) (auto simp: header_layout_def field_defs)
  ultimately show "get_field (header_block ub hdr) fd = replicate (snd fd) 0"
    using header_block_format(3) [OF assms, of fd ub] by simp
qed

lemma parse_header_block:
  assumes "encodable hdr"
  shows "parse_header (header_block ub hdr) = Inr (block_view hdr)"
proof -
  define b where "b = header_block ub hdr"
  note f = header_block_fields [OF assms, where ub = ub, folded b_def]
  have get: "get_field b v7_Name = str_field 100 (h_Name hdr)" "get_field b v7_Mode = num_field 8 (h_Mode hdr)"
      "get_field b v7_UID = num_field 8 (h_Uid hdr)" "get_field b v7_GID = num_field 8 (h_Gid hdr)"
      "get_field b v7_Size = num_field 12 (h_Size hdr)" "get_field b v7_ModTime = num_field 12 (header_time hdr)"
      "get_field b v7_TypeFlag = [h_Typeflag hdr]" "get_field b v7_LinkName = str_field 100 (h_Linkname hdr)"
      "get_field b ustar_UserName = str_field 32 (h_Uname hdr)" "get_field b ustar_GroupName = str_field 32 (h_Gname hdr)"
      "get_field b ustar_DevMajor = num_field 8 (h_Devmajor hdr)" "get_field b ustar_DevMinor = num_field 8 (h_Devminor hdr)"
    by (rule f(1), simp add: header_layout_def)+
  have get0: "parseString (get_field b ustar_Prefix) = []"
      "tryParseTime (get_field b gnu_AccessTime) = zero_time" "tryParseTime (get_field b gnu_ChangeTime) = zero_time"
    using f(2) by (simp_all add: parseString_def tryParseTime_def field_defs split: prod.splits)
  have num: "parseNumeric p (num_field 8 (h_Mode hdr)) = (h_Mode hdr, p)" "parseNumeric p (num_field 8 (h_Uid hdr)) = (h_Uid hdr, p)"
      "parseNumeric p (num_field 8 (h_Gid hdr)) = (h_Gid hdr, p)" "parseNumeric p (num_field 12 (h_Size hdr)) = (h_Size hdr, p)"
      "parseNumeric p (num_field 12 (header_time hdr)) = (header_time hdr, p)"
      "parseNumeric p (num_field 8 (h_Devmajor hdr)) = (h_Devmajor hdr, p)"
      "parseNumeric p (num_field 8 (h_Devminor hdr)) = (h_Devminor hdr, p)" for p
    using assms by (simp_all add: encodable_def parseNumeric_num_field)
  have v7: "parse_v7 b = (new_Header\<lparr>h_Name := text_of 100 (h_Name hdr), h_Mode := h_Mode hdr, h_Uid := h_Uid hdr,
       h_Gid := h_Gid hdr, h_Size := h_Size hdr, h_ModTime := time_Unix (header_time hdr) 0,
       h_Typeflag := h_Typeflag hdr, h_Linkname := text_of 100 (h_Linkname hdr)\<rparr>, None)"
    by (simp add: parse_v7_def get num parseString_str_field text_of_def)
  have fmt: "GetFormat b = (if ub \<or> needs_binary hdr then 2 else 8)"
    using header_block_format(2) [OF assms, of ub] by (simp add: b_def)
  show ?thesis
    unfolding b_def [symmetric] parse_header_def fmt v7
    by (simp add: parse_ext_def get get0 num parseString_str_field text_of_def Let_def block_view_def is_device_def
        new_Header_def)
qed

section \<open>Headers with PAX extensions\<close>

text \<open>
  The headers that an archive can represent without loss. The numbers are not negative and fit
  the binary form of their fields, times are whole seconds of the range the header field has room
  for, and the parts that have no place in the archive are at their zero values. Texts may be of
  any length and hold any bytes but NUL; what does not fit the header block goes to a PAX header.
\<close>

definition representable :: "Header \<Rightarrow> bool" where
  "representable hdr \<longleftrightarrow>
     encodable hdr \<and> h_Size hdr + 512 \<le> 9223372036854775808 \<and>
     h_Typeflag hdr \<notin> {TypeXHeader, TypeGNULongName, TypeGNULongLink, TypeGNUSparse} \<and>
     (isHeaderOnlyType (h_Typeflag hdr) \<longrightarrow> h_Size hdr = 0) \<and>
     (\<forall>s \<in> {h_Name hdr, h_Linkname hdr, h_Uname hdr, h_Gname hdr}. 0 \<notin> set s \<and> length s < 2 ^ 60) \<and>
     (\<exists>t. 0 \<le> t \<and> t \<le> 8589934591 \<and> h_ModTime hdr = time_Unix t 0) \<and>
     h_AccessTime hdr = zero_time \<and> h_ChangeTime hdr = zero_time \<and> h_Xattrs hdr = None \<and>
     (\<not> is_device hdr \<longrightarrow> h_Devmajor hdr = 0 \<and> h_Devminor hdr = 0)"

definition sorted_pax :: "gomap \<Rightarrow> gomap" where
  "sorted_pax m = map (\<lambda>k. (k, get_key m k)) (sort (map fst m))"

lemma pax_text_body: "pax_text m = pax_body (sorted_pax m)"
  by (simp add: pax_text_def pax_body_def sorted_pax_def o_def)

lemma map_of_sorted_pax:
  assumes "distinct (map fst m)"
  shows "map_of (sorted_pax m) = map_of m" "distinct (map fst (sorted_pax m))" "set (sorted_pax m) = set m"
proof -
  have d: "distinct (map fst (sorted_pax m))" using assms by (simp add: sorted_pax_def o_def)
  have get: "get_key m k = v" if "(k, v) \<in> set m" for k v
    using that assms by (simp add: get_key_def)
  have "set (sorted_pax m) = (\<lambda>(k, v). (k, get_key m k)) ` set m"
    by (force simp: sorted_pax_def)
  also have "\<dots> = set m" using get by force
  finally show s: "set (sorted_pax m) = set m" .
  show "map_of (sorted_pax m) = map_of m" using d assms s by (simp add: map_of_inject_set)
  show "distinct (map fst (sorted_pax m))" by (rule d)
qed

lemma pax_needed_keys:
  "distinct (map fst (pax_needed hdr))"
  "fst ` set (pax_needed hdr) \<subseteq> {paxPath, paxLinkpath, paxUname, paxGname}"
  "map_of (pax_needed hdr) paxPath = (if needs_pax 100 (h_Name hdr) then Some (h_Name hdr) else None)"
  "map_of (pax_needed hdr) paxLinkpath = (if needs_pax 100 (h_Linkname hdr) then Some (h_Linkname hdr) else None)"
  "map_of (pax_needed hdr) paxUname = (if needs_pax 32 (h_Uname hdr) then Some (h_Uname hdr) else None)"
  "map_of (pax_needed hdr) paxGname = (if needs_pax 32 (h_Gname hdr) then Some (h_Gname hdr) else None)"
  by (auto simp: pax_needed_def pax_keys)

lemma text_of_short: "\<not> needs_pax n s \<Longrightarrow> 0 \<notin> set s \<Longrightarrow> text_of n s = s"
  by (auto simp: needs_pax_def text_of_def takeWhile_eq_all_conv)

lemma header_time_range:
  assumes "0 \<le> t" "t \<le> 8589934591" "h_ModTime hdr = time_Unix t 0"
  shows "header_time hdr = t"
proof -
  have "in_i64 t" "i64 t = t" "i64 (t + 62135596800) = t + 62135596800"
    using assms by (simp_all add: in_i64_def)
  then show ?thesis
    using assms Unix_time_Unix [of t 0]
    by (simp add: header_time_def minTime_def maxTime_def Before_def After_def time_Unix_def unixToInternal_def
        in_i64_def)
qed

lemma mergePAX_keeps_xattrs:
  assumes "mergePAX h kvs = Inr h'" "\<forall>k \<in> fst ` set kvs. \<not> HasPrefix k paxXattr"
  shows "h_Xattrs h' = h_Xattrs h"
  using assms
proof (induction kvs arbitrary: h)
  case (Cons kv kvs)
  obtain k v where kv: "kv = (k, v)" by fastforce
  then obtain h1 where h1: "merge_record k v h = Inr h1" "mergePAX h1 kvs = Inr h'"
    using Cons.prems(1) by (auto split: sum.splits)
  have "h_Xattrs h1 = h_Xattrs h"
    using h1(1) Cons.prems(2) kv by (auto simp: merge_record_def set_num_Inr set_time_Inr split: if_splits)
  then show ?case using Cons.IH [OF h1(2)] Cons.prems(2) by simp
qed simp

lemma merge_needed:
  assumes "representable hdr"
  shows "mergePAX (block_view hdr) (sorted_pax (pax_needed hdr)) = Inr hdr"
proof -
  let ?kvs = "sorted_pax (pax_needed hdr)"
  note k = pax_needed_keys [of hdr]
  note s = map_of_sorted_pax [OF k(1)]
  have keys: "fst ` set ?kvs \<subseteq> {paxPath, paxLinkpath, paxUname, paxGname}" using k(2) s(3) by simp
  then have "\<forall>(k, v) \<in> set ?kvs. \<not> bad_record k v"
    by (force simp: bad_record_def pax_keys)
  then obtain h' where h': "mergePAX (block_view hdr) ?kvs = Inr h'"
    using mergePAX_Inl [of "block_view hdr" ?kvs] by (cases "mergePAX (block_view hdr) ?kvs") auto
  have none: "map_of (pax_needed hdr) k = None" if "k \<notin> {paxPath, paxLinkpath, paxUname, paxGname}" for k
    using that k(2) by (auto simp: map_of_eq_None_iff)
  have other: "map_of (pax_needed hdr) k = None" if "k \<in> {paxUid, paxGid, paxSize, paxAtime, paxMtime, paxCtime}" for k
    using that by (intro none) (auto simp: pax_keys)
  have x: "\<forall>k \<in> fst ` set ?kvs. \<not> HasPrefix k paxXattr" using keys pax_keys_distinct(2) by auto
  obtain t where t: "0 \<le> t" "t \<le> 8589934591" "h_ModTime hdr = time_Unix t 0"
    using assms by (auto simp: representable_def)
  have texts: "0 \<notin> set (h_Name hdr)" "0 \<notin> set (h_Linkname hdr)" "0 \<notin> set (h_Uname hdr)" "0 \<notin> set (h_Gname hdr)"
    using assms by (auto simp: representable_def)
  note f = mergePAX_Inr [OF h' s(2), unfolded s(1)]
  have "h' = hdr"
    using f mergePAX_keeps_xattrs [OF h' x] assms header_time_range [OF t] t(3) texts
    by (intro Header.equality)
      (simp_all add: override_def k other block_view_def text_of_short new_Header_def representable_def)
  with h' show ?thesis by simp
qed

lemma length_formatPAXRecord:
  assumes "length k + length v < 2 ^ 62"
  shows "length (formatPAXRecord k v) \<le> length k + length v + 24"
proof -
  obtain n where n: "formatPAXRecord k v = pax_line n k v" "length (pax_line n k v) = n"
      "n \<le> length k + length v + 4 + length (digits_of 10 (length k + length v + 3))"
    by (rule formatPAXRecord_size)
  have "length (digits_of 10 (length k + length v + 3)) \<le> 20"
    using assms by (intro length_digits_of_le) simp_all
  then show ?thesis using n by simp
qed

lemma representable_pax:
  assumes "representable hdr"
  shows "\<forall>kv \<in> set (pax_needed hdr). plain_record kv"
    and "int (length (pax_text (pax_needed hdr))) + 512 \<le> 9223372036854775808"
proof -
  have len: "length (h_Name hdr) < 2 ^ 60" "length (h_Linkname hdr) < 2 ^ 60" "length (h_Uname hdr) < 2 ^ 60"
      "length (h_Gname hdr) < 2 ^ 60"
    using assms by (auto simp: representable_def)
  have ne: "s \<noteq> []" if "needs_pax n s" for n s
    using that by (auto simp: needs_pax_def isASCII_bytes)
  show p: "\<forall>kv \<in> set (pax_needed hdr). plain_record kv"
    using len ne by (auto simp: pax_needed_def plain_record_def pax_keys)
  let ?kvs = "sorted_pax (pax_needed hdr)"
  note s = map_of_sorted_pax [OF pax_needed_keys(1), of hdr]
  have each: "length (formatPAXRecord k v) \<le> 2 ^ 60 + 32" if "(k, v) \<in> set ?kvs" for k v
  proof -
    have kv: "(k, v) \<in> set (pax_needed hdr)" using that s(3) by simp
    then have "length k \<le> 8" "length v < 2 ^ 60" using len by (auto simp: pax_needed_def pax_keys)
    then show ?thesis using length_formatPAXRecord [of k v] by simp
  qed
  have "length (pax_body kvs) \<le> length kvs * (2 ^ 60 + 32)"
    if "\<forall>(k, v) \<in> set kvs. length (formatPAXRecord k v) \<le> 2 ^ 60 + 32" for kvs :: gomap
    using that by (induction kvs) (auto simp: pax_body_def)
  then have "length (pax_text (pax_needed hdr)) \<le> length ?kvs * (2 ^ 60 + 32)"
    using each by (auto simp: pax_text_body)
  moreover have "length ?kvs \<le> 4" by (simp add: sorted_pax_def pax_needed_def)
  ultimately have "length (pax_text (pax_needed hdr)) \<le> 4 * (2 ^ 60 + 32)"
    by (meson le_trans mult_le_mono1)
  then show "int (length (pax_text (pax_needed hdr))) + 512 \<le> 9223372036854775808" by simp
qed

lemma no_sparse_keys: "sparse_format (sorted_pax (pax_needed hdr)) = None"
proof -
  note s = map_of_sorted_pax [OF pax_needed_keys(1), of hdr]
  have none: "map_of (pax_needed hdr) k = None" if "k \<notin> {paxPath, paxLinkpath, paxUname, paxGname}" for k
    using that pax_needed_keys(2) [of hdr] by (auto simp: map_of_eq_None_iff)
  have "map_of (pax_needed hdr) paxGNUSparseMajor = None" "map_of (pax_needed hdr) paxGNUSparseName = None"
      "map_of (pax_needed hdr) paxGNUSparseSize = None"
    by (rule none, simp add: pax_keys)+
  then show ?thesis unfolding sparse_format_def s(1) by simp
qed

lemma add_xattrs_none: "h_Xattrs hdr = None \<Longrightarrow> add_xattrs hdr pax = pax"
  by (simp add: add_xattrs_def)

context io_seeker
begin

text \<open>The reader on what \<^verbatim>\<open>WriteHeader\<close> wrote.\<close>

lemma Next_written:
  assumes "representable hdr" "positioned ok left fins (header_bytes ub hdr @ L) tr"
    and "length (header_bytes ub hdr) < fuel"
  obtains tr' where "Reader_Next ops fuel tr = (Inr hdr, tr')" "at_data ok left fins (h_Size hdr) L tr'"
proof -
  let ?m = "pax_needed hdr" and ?B = "header_block ub hdr"
  have enc: "encodable hdr" and xa: "h_Xattrs hdr = None" using assms(1) by (auto simp: representable_def)
  have sz: "0 \<le> h_Size hdr" using enc by (simp add: encodable_def num_ok_def)
  have B: "length ?B = 512" "parse_header ?B = Inr (block_view hdr)"
    using header_block_format(1) [OF enc] parse_header_block [OF enc] by auto
  have bv: "h_Size (block_view hdr) = h_Size hdr" "h_Typeflag (block_view hdr) = h_Typeflag hdr"
    by (simp_all add: block_view_def)
  have fl: "h_Typeflag (block_view hdr) \<notin> {TypeXHeader, TypeGNULongName, TypeGNULongLink, TypeGNUSparse}"
    using assms(1) bv by (simp add: representable_def)
  have nb: "h_Size hdr = (if isHeaderOnlyType (h_Typeflag hdr) then 0 else h_Size hdr)"
    using assms(1) by (auto simp: representable_def)
  have err: "tr_err tr = None" using assms(2) by (simp add: positioned_def)
  note goal = that
  have ret: thesis if "Reader_next ops fuel [] tr = (Inr hdr, tr')" "at_data ok left fins (h_Size hdr) L tr'" for tr'
  proof -
    have "tr'\<lparr>tr_err := None\<rparr> = tr'" using that(2) by (simp add: at_data_def at_block_def)
    then show thesis using that err by (intro goal [of tr']) (simp_all add: Reader_Next_def)
  qed
  have pf: thesis
    if "positioned ok left fins (?B @ L) tr0" "Reader_next ops fuel [] tr = Reader_next ops (Suc f) (sorted_pax ?m) tr0" for tr0 f
  proof -
    note pos0 = that
    obtain tr' where "Reader_next ops (Suc f) (sorted_pax ?m) tr0 = (Inr hdr, tr')" "at_data ok left fins (h_Size hdr) L tr'"
      by (rule next_file [OF pos0(1) B _ fl merge_needed [OF assms(1)] _ no_sparse_keys nb sz]) (use sz bv in simp_all)
    then show thesis using ret pos0(2) by simp
  qed
  show thesis
  proof (cases "?m = []")
    case True
    have "fuel \<noteq> 0" using assms(3) by simp
    then obtain f where "fuel = Suc f" by (cases fuel) auto
    moreover have "sorted_pax ?m = []" using True by (simp add: sorted_pax_def)
    moreover have "header_bytes ub hdr = ?B" using True xa by (simp add: header_bytes_def add_xattrs_none Let_def)
    ultimately show thesis using pf [of tr f] assms(2) by simp
  next
    case False
    let ?T = "pax_text ?m"
    let ?E = "header_block (ub \<or> needs_binary hdr) (ext_header hdr ?m)"
    note pax = representable_pax [OF assms(1)]
    have "int (length ?T) < 9223372036854775808" using pax(2) by simp
    note ext = encodable_ext(1) [OF enc this]
    have E: "length ?E = 512" "parse_header ?E = Inr (block_view (ext_header hdr ?m))"
      using header_block_format(1) [OF ext] parse_header_block [OF ext] by auto
    have bytes: "header_bytes ub hdr = ?E @ ?T @ zero_pad (int (length ?T)) @ ?B"
      using False xa by (simp add: header_bytes_def add_xattrs_none Let_def)
    obtain f where f: "fuel = Suc (Suc f)" using assms(3) E(1) unfolding bytes by (cases fuel; cases "fuel - 1") auto
    have lt: "length ?T < Suc f" using assms(3) E(1) unfolding bytes f by simp
    note s = map_of_sorted_pax [OF pax_needed_keys(1), of hdr]
    have rec: "parse_records ?T [] [] = Inr ([], sorted_pax ?m)"
      using parse_records_plain [of "sorted_pax ?m" "[]" "[]"] pax(1) s by (simp add: pax_text_body)
    obtain tr0 where "Reader_next ops (Suc (Suc f)) [] tr = Reader_next ops (Suc f) (sorted_pax ?m) tr0"
        "positioned ok left fins (?B @ L) tr0"
      by (rule next_pax [OF _ E(1,2) _ _ refl pax(2) lt rec, of "?B @ L" tr])
        (use assms(2) bytes in \<open>simp_all add: block_view_def zero_pad_def\<close>)
    then show thesis using pf f by blast
  qed
qed

end

section \<open>Whole archives\<close>

text \<open>A client that writes entries, the data of each in any number of pieces, and closes the archive.\<close>

fun write_chunks :: "'w io_writer_ops \<Rightarrow> byte list list \<Rightarrow> 'w Writer \<Rightarrow> go_error option \<times> 'w Writer" where
  "write_chunks wops [] tw = (None, tw)"
| "write_chunks wops (c # cs) tw =
     (case Writer_Write wops tw c of
        (n, Some e, tw1) \<Rightarrow> (Some e, tw1)
      | (n, None, tw1) \<Rightarrow> write_chunks wops cs tw1)"

fun write_entries :: "'w io_writer_ops \<Rightarrow> (Header \<times> byte list list) list \<Rightarrow> 'w Writer \<Rightarrow> go_error option \<times> 'w Writer" where
  "write_entries wops [] tw = Close wops tw"
| "write_entries wops ((hdr, cs) # es) tw =
     (case WriteHeader wops hdr tw of
        (Some e, tw1) \<Rightarrow> (Some e, tw1)
      | (None, tw1) \<Rightarrow>
          case write_chunks wops cs tw1 of
            (Some e, tw2) \<Rightarrow> (Some e, tw2)
          | (None, tw2) \<Rightarrow> write_entries wops es tw2)"

text \<open>A client that reads all entries and their data; it ends with the error of \<^verbatim>\<open>Next\<close> or \<^verbatim>\<open>Read\<close>.\<close>

fun read_entries :: "'r io_reader_ops \<Rightarrow> nat \<Rightarrow> nat \<Rightarrow> 'r Reader \<Rightarrow> (Header \<times> byte list) list \<times> go_error" where
  "read_entries ops fuel 0 tr = ([], NoProgress)"
| "read_entries ops fuel (Suc n) tr =
     (case Reader_Next ops fuel tr of
        (Inl e, tr1) \<Rightarrow> ([], e)
      | (Inr hdr, tr1) \<Rightarrow>
          case ReadAll (tr_ops ops) fuel tr1 [] of
            (D, Some e, tr2) \<Rightarrow> ([(hdr, D)], e)
          | (D, None, tr2) \<Rightarrow>
              case read_entries ops fuel n tr2 of (es, e) \<Rightarrow> ((hdr, D) # es, e))"

definition archivable :: "Header \<times> byte list list \<Rightarrow> bool" where
  "archivable e \<longleftrightarrow> representable (fst e) \<and> h_Size (fst e) = int (length (concat (snd e)))"

fun archive_bytes :: "bool \<Rightarrow> (Header \<times> byte list list) list \<Rightarrow> byte list" where
  "archive_bytes ub [] = zeroBlock @ zeroBlock"
| "archive_bytes ub ((hdr, cs) # es) =
     header_bytes ub hdr @ concat cs @ zero_pad (h_Size hdr) @ archive_bytes (binary_after ub hdr) es"

context reliable_writer
begin

lemma write_chunks_ok:
  assumes "\<not> tw_closed tw" "int (length (concat cs)) \<le> tw_nb tw" "tw_err tw = None"
  obtains w' where "write_chunks wops cs tw =
      (None, tw\<lparr>tw_w := w', tw_nb := tw_nb tw - int (length (concat cs))\<rparr>)"
    and "out w' = out (tw_w tw) @ concat cs"
proof -
  have "\<exists>w'. write_chunks wops cs tw = (None, tw\<lparr>tw_w := w', tw_nb := tw_nb tw - int (length (concat cs))\<rparr>) \<and>
      out w' = out (tw_w tw) @ concat cs"
    using assms
  proof (induction cs arbitrary: tw)
    case Nil
    then show ?case by (intro exI [of _ "tw_w tw"]) simp
  next
    case (Cons c cs)
    have "int (length c) \<le> tw_nb tw" using Cons.prems(2) by simp
    with Cons.prems(1) obtain w1 where w1: "Writer_Write wops tw c =
        (length c, None, tw\<lparr>tw_w := w1, tw_nb := tw_nb tw - int (length c), tw_err := None\<rparr>)"
        "out w1 = out (tw_w tw) @ c"
      by (rule Write_ok)
    let ?tw1 = "tw\<lparr>tw_w := w1, tw_nb := tw_nb tw - int (length c), tw_err := None\<rparr>"
    have "\<exists>w'. write_chunks wops cs ?tw1 = (None, ?tw1\<lparr>tw_w := w', tw_nb := tw_nb ?tw1 - int (length (concat cs))\<rparr>) \<and>
        out w' = out (tw_w ?tw1) @ concat cs"
      by (rule Cons.IH) (use Cons.prems in simp_all)
    then obtain w' where w': "write_chunks wops cs ?tw1 = (None, ?tw1\<lparr>tw_w := w', tw_nb := tw_nb ?tw1 - int (length (concat cs))\<rparr>)"
        "out w' = out (tw_w ?tw1) @ concat cs" by blast
    have "?tw1\<lparr>tw_w := w', tw_nb := tw_nb ?tw1 - int (length (concat cs))\<rparr> =
        tw\<lparr>tw_w := w', tw_nb := tw_nb tw - int (length (concat (c # cs)))\<rparr>"
      using Cons.prems(3) by simp
    then show ?case using w1 w' by (intro exI [of _ w']) simp
  qed
  then show thesis using that by blast
qed

lemma write_entries_ok:
  assumes "\<forall>e \<in> set es. archivable e" "ready tw"
  obtains tw' where "write_entries wops es tw = (None, tw')"
    and "out (tw_w tw') = out (tw_w tw) @ replicate (nat (tw_pad tw)) 0 @ archive_bytes (tw_usedBinary tw) es"
proof -
  have "\<exists>tw'. write_entries wops es tw = (None, tw') \<and>
      out (tw_w tw') = out (tw_w tw) @ replicate (nat (tw_pad tw)) 0 @ archive_bytes (tw_usedBinary tw) es"
    using assms
  proof (induction es arbitrary: tw)
    case Nil
    obtain tw' where "Close wops tw = (None, tw')"
        "out (tw_w tw') = out (tw_w tw) @ replicate (nat (tw_pad tw)) 0 @ zeroBlock @ zeroBlock"
      by (rule Close_ok [OF Nil.prems(2)])
    then show ?case by simp
  next
    case (Cons e es)
    obtain hdr cs where e: "e = (hdr, cs)" by fastforce
    have rep: "representable hdr" "h_Size hdr = int (length (concat cs))"
      using Cons.prems(1) by (simp_all add: e archivable_def)
    have enc: "encodable hdr" and xa: "h_Xattrs hdr = None" using rep(1) by (auto simp: representable_def)
    have "int (length (pax_text (add_xattrs hdr (pax_needed hdr)))) < 9223372036854775808"
      using representable_pax(2) [OF rep(1)] by (simp add: add_xattrs_none [OF xa])
    then obtain tw1 where tw1: "WriteHeader wops hdr tw = (None, tw1)"
        "\<not> tw_closed tw1" "tw_err tw1 = None" "\<not> tw_preferPax tw1" "tw_nb tw1 = h_Size hdr"
        "tw_pad tw1 = (- h_Size hdr) mod 512" "tw_usedBinary tw1 = binary_after (tw_usedBinary tw) hdr"
        "out (tw_w tw1) = out (tw_w tw) @ replicate (nat (tw_pad tw)) 0 @ header_bytes (tw_usedBinary tw) hdr"
      by (rule WriteHeader_ok [OF Cons.prems(2) enc])
    have "int (length (concat cs)) \<le> tw_nb tw1" using tw1(5) rep(2) by simp
    with tw1(2) obtain w2 where w2: "write_chunks wops cs tw1 =
        (None, tw1\<lparr>tw_w := w2, tw_nb := tw_nb tw1 - int (length (concat cs))\<rparr>)" "out w2 = out (tw_w tw1) @ concat cs"
      using tw1(3) by (rule write_chunks_ok)
    let ?tw2 = "tw1\<lparr>tw_w := w2, tw_nb := tw_nb tw1 - int (length (concat cs))\<rparr>"
    have "ready ?tw2" using tw1 rep(2) by (simp add: ready_def)
    then obtain tw' where "write_entries wops es ?tw2 = (None, tw')"
        "out (tw_w tw') = out (tw_w ?tw2) @ replicate (nat (tw_pad ?tw2)) 0 @ archive_bytes (tw_usedBinary ?tw2) es"
      using Cons.IH [of ?tw2] Cons.prems(1) by auto
    then show ?case using tw1 w2 by (simp add: e zero_pad_def)
  qed
  then show thesis using that by blast
qed

end

context io_seeker
begin

lemma read_entries_ok:
  assumes "\<forall>e \<in> set es. archivable e" "positioned ok left fins (archive_bytes ub es @ rest) tr"
    and "length (archive_bytes ub es) < fuel" "length es < n"
  shows "read_entries ops fuel n tr = (map (\<lambda>(hdr, cs). (hdr, concat cs)) es, EOF)"
  using assms
proof (induction es arbitrary: ub tr n)
  case Nil
  obtain m f where mf: "n = Suc m" "fuel = Suc f" using Nil.prems(3,4) by (cases n; cases fuel) auto
  obtain tr1 where tr1: "skipUnread ops tr = (None, tr1)" "at_block ok left fins (archive_bytes ub [] @ rest) tr1"
    by (rule skip_positioned [OF Nil.prems(2)])
  obtain tr2 where "readHeader ops tr1 = (Inl EOF, tr2)"
    using readHeader_end [of rest tr1] tr1(2) by auto
  moreover have "tr_err tr = None" using Nil.prems(2) by (simp add: positioned_def)
  ultimately show ?case using tr1(1) by (simp add: mf Reader_Next_def)
next
  case (Cons e es)
  obtain hdr cs where e: "e = (hdr, cs)" by fastforce
  obtain m where m: "n = Suc m" using Cons.prems(4) by (cases n) auto
  have rep: "representable hdr" and sz: "h_Size hdr = int (length (concat cs))"
    using Cons.prems(1) by (simp_all add: e archivable_def)
  let ?L = "archive_bytes (binary_after ub hdr) es @ rest" and ?D = "concat cs"
  define p where "p = (- int (length ?D)) mod 512"
  have pos: "positioned ok left fins (header_bytes ub hdr @ ?D @ replicate (nat p) 0 @ ?L) tr"
    using Cons.prems(2) by (simp add: e zero_pad_def sz p_def)
  have fuel: "length (header_bytes ub hdr) < fuel" "length ?D < fuel"
      "length (archive_bytes (binary_after ub hdr) es) < fuel"
    using Cons.prems(3) by (simp_all add: e)
  obtain tr1 where tr1: "Reader_Next ops fuel tr = (Inr hdr, tr1)"
      "at_data ok left fins (h_Size hdr) (?D @ replicate (nat p) 0 @ ?L) tr1"
    by (rule Next_written [OF rep pos fuel(1)])
  have data: "at_data ok left fins (int (length ?D)) (?D @ replicate (nat p) 0 @ ?L) tr1"
    using tr1(2) sz by simp
  have big: "int (length ?D) + 512 \<le> 9223372036854775808" using rep sz by (simp add: representable_def)
  have ent: "in_entry ok left fins p ?L tr1" by (rule at_data_entry [OF data p_def big])
  have tl: "tr_left left tr1 = ?D" by (rule in_entry_left [OF data])
  have "length (tr_left left tr1) < fuel" using fuel(2) tl by simp
  with ent obtain tr2 x where tr2: "x \<in> {EOF}" "in_entry ok left fins p ?L tr2"
      "ReadAll (tr_ops ops) fuel tr1 [] = ([] @ tr_left left tr1, if x = EOF then None else Some x, tr2)"
    by (rule io_reader.ReadAll_ok [OF in_entry_reader])
  have "read_entries ops fuel m tr2 = (map (\<lambda>(hdr, cs). (hdr, concat cs)) es, EOF)"
    using Cons.IH [OF _ in_entry_positioned [OF tr2(2)] fuel(3), of m] Cons.prems(1,4) by (simp add: m)
  then show ?case using tr1(1) tr2(1,3) tl by (simp add: e m)
qed

end

lemma NewReader_positioned:
  "ok r \<Longrightarrow> fins r \<subseteq> {EOF} \<Longrightarrow> positioned ok left fins (left r) (NewReader r)"
  by (simp add: positioned_def NewReader_def zeroBlock_def)

text \<open>
  C1. Round trip of archives. A client writes any sequence of entries with representable headers,
  the data of each in pieces of any size, to a writer that does not fail, and closes the archive:
  no call fails. Whoever then reads the archive, through any reader that keeps the
  \<^verbatim>\<open>io.Reader\<close> contract, with or without \<^verbatim>\<open>Seek\<close>, gets exactly the same
  headers, in every field, and the same data, and then a clean end of file; names beyond the
  size or the character set of the header block, which travel in PAX headers, included.
\<close>

theorem archive_roundtrip:
  assumes "reliable_writer wops out" "out w = []" "\<forall>e \<in> set es. archivable e"
    and "write_entries wops es (NewWriter w) = (err, tw)"
    and "io_seeker ops ok left fins pos" "ok r" "fins r \<subseteq> {EOF}" "left r = out (tw_w tw) @ rest"
    and "length (out (tw_w tw)) < fuel" "length es < n"
  shows "err = None \<and>
    read_entries ops fuel n (NewReader r) = (map (\<lambda>(hdr, cs). (hdr, concat cs)) es, EOF)"
proof -
  have "ready (NewWriter w)" by (simp add: ready_def NewWriter_def)
  with assms(1,3) obtain tw' where "write_entries wops es (NewWriter w) = (None, tw')"
      "out (tw_w tw') = out (tw_w (NewWriter w)) @ replicate (nat (tw_pad (NewWriter w))) 0 @
        archive_bytes (tw_usedBinary (NewWriter w)) es"
    by (rule reliable_writer.write_entries_ok)
  then have err: "err = None" and bytes: "out (tw_w tw) = archive_bytes False es"
    using assms(2,4) by (simp_all add: NewWriter_def)
  have pos: "positioned ok left fins (archive_bytes False es @ rest) (NewReader r)"
    using NewReader_positioned [of ok r fins left] assms(6,7) assms(8) bytes by simp
  have "read_entries ops fuel n (NewReader r) = (map (\<lambda>(hdr, cs). (hdr, concat cs)) es, EOF)"
    by (rule io_seeker.read_entries_ok [OF assms(5,3) pos]) (use assms(9,10) bytes in simp_all)
  with err show ?thesis by simp
qed

definition sample_header :: Header where
  "sample_header = new_Header\<lparr>h_Name := replicate 150 97, h_Size := 3, h_Typeflag := TypeReg, h_ModTime := time_Unix 7 0\<rparr>"

lemma sample_archivable: "archivable (sample_header, [[1, 2], [3]])"
proof -
  have t: "header_time sample_header = 7"
    by (rule header_time_range) (simp_all add: sample_header_def)
  have n: "num_ok 12 3" "num_ok 12 7" by (simp_all add: num_ok_def in_i64_def fitsInBase256_def)
  have "encodable sample_header"
    using t n num_ok_zero by (simp add: encodable_def sample_header_def new_Header_def)
  then show ?thesis
    by (auto simp: archivable_def representable_def sample_header_def new_Header_def isHeaderOnlyType_def
        intro: exI [of _ 7])
qed

theorem archive_roundtrip_witness:
  "\<exists>tw fuel. write_entries buffer_ops [(sample_header, [[1, 2], [3]])] (NewWriter []) = (None, tw) \<and>
    read_entries bytes_ops fuel 2 (NewReader (new_bytes_reader (tw_w tw))) = ([(sample_header, [1, 2, 3])], EOF)"
proof -
  obtain err tw where tw: "write_entries buffer_ops [(sample_header, [[1, 2], [3]])] (NewWriter []) = (err, tw)"
    by fastforce
  have "err = None \<and> read_entries bytes_ops (Suc (length (tw_w tw))) 2 (NewReader (new_bytes_reader (tw_w tw))) =
      (map (\<lambda>(hdr, cs). (hdr, concat cs)) [(sample_header, [[1, 2], [3]])], EOF)"
    by (rule archive_roundtrip [OF buffer.reliable_writer_axioms _ _ tw bytes.io_seeker_axioms, of _ "[]"])
      (simp_all add: sample_archivable)
  with tw show ?thesis by auto
qed

lemma length_zero_pad: "512 dvd length D + length (zero_pad (int (length D)))"
proof -
  define p where "p = (- int (length D)) mod 512"
  have "0 \<le> p" by (simp add: p_def)
  have "(int (length D) + p) mod 512 = (int (length D) + (- int (length D))) mod 512"
    unfolding p_def by (rule mod_add_right_eq)
  then have "int ((length D + nat p) mod 512) = 0" using \<open>0 \<le> p\<close> by (simp add: zmod_int)
  then show ?thesis by (simp add: zero_pad_def p_def dvd_eq_mod_eq_0)
qed

lemma length_header_bytes:
  assumes "representable hdr"
  shows "512 dvd length (header_bytes ub hdr)"
proof -
  let ?T = "pax_text (pax_needed hdr)"
  have enc: "encodable hdr" and xa: "h_Xattrs hdr = None" using assms by (auto simp: representable_def)
  have "int (length ?T) < 9223372036854775808" using representable_pax(2) [OF assms] by simp
  note ext = encodable_ext(1) [OF enc this]
  have "512 dvd 1024 + (length ?T + length (zero_pad (int (length ?T))))"
    by (rule dvd_add [OF _ length_zero_pad]) simp
  then show ?thesis
    using header_block_format(1) [OF enc] header_block_format(1) [OF ext]
    by (simp add: header_bytes_def add_xattrs_none [OF xa] Let_def add.assoc)
qed

text \<open>
  C35. An archive is a whole number of blocks: everything a client writes, the closing zero blocks
  included, is aligned to 512 bytes, whatever the sizes of the entries are.
\<close>

theorem archive_aligned:
  assumes "reliable_writer wops out" "out w = []" "\<forall>e \<in> set es. archivable e"
    and "write_entries wops es (NewWriter w) = (err, tw)"
  shows "512 dvd length (out (tw_w tw)) \<and>
    (\<exists>body. out (tw_w tw) = body @ zeroBlock @ zeroBlock)"
proof -
  have "ready (NewWriter w)" by (simp add: ready_def NewWriter_def)
  with assms(1,3) obtain tw' where "write_entries wops es (NewWriter w) = (None, tw')"
      "out (tw_w tw') = out (tw_w (NewWriter w)) @ replicate (nat (tw_pad (NewWriter w))) 0 @
        archive_bytes (tw_usedBinary (NewWriter w)) es"
    by (rule reliable_writer.write_entries_ok)
  then have bytes: "out (tw_w tw) = archive_bytes False es"
    using assms(2,4) by (simp add: NewWriter_def)
  have "512 dvd length (archive_bytes ub es) \<and> (\<exists>body. archive_bytes ub es = body @ zeroBlock @ zeroBlock)" for ub
    using assms(3)
  proof (induction es arbitrary: ub)
    case Nil
    then show ?case by simp
  next
    case (Cons e es)
    obtain hdr cs where e: "e = (hdr, cs)" by fastforce
    have rep: "representable hdr" "h_Size hdr = int (length (concat cs))"
      using Cons.prems by (simp_all add: e archivable_def)
    have IH: "512 dvd length (archive_bytes (binary_after ub hdr) es)"
        "\<exists>body. archive_bytes (binary_after ub hdr) es = body @ zeroBlock @ zeroBlock"
      using Cons.IH [of "binary_after ub hdr"] Cons.prems by auto
    have "512 dvd length (header_bytes ub hdr) + ((length (concat cs) + length (zero_pad (h_Size hdr))) +
        length (archive_bytes (binary_after ub hdr) es))"
      unfolding rep(2)
      by (rule dvd_add [OF length_header_bytes [OF rep(1)] dvd_add [OF length_zero_pad IH(1)]])
    moreover obtain body where "archive_bytes (binary_after ub hdr) es = body @ zeroBlock @ zeroBlock"
      using IH(2) by blast
    ultimately show ?case
      by (auto simp: e add.assoc intro!: exI [of _ "header_bytes ub hdr @ concat cs @ zero_pad (h_Size hdr) @ body"])
  qed
  then show ?thesis using bytes by simp
qed

theorem archive_aligned_witness:
  "\<exists>err tw. write_entries buffer_ops [(sample_header, [[1, 2], [3]])] (NewWriter []) = (err, tw) \<and>
    512 dvd length (tw_w tw)"
proof -
  obtain err tw where tw: "write_entries buffer_ops [(sample_header, [[1, 2], [3]])] (NewWriter []) = (err, tw)"
    by fastforce
  have "512 dvd length (tw_w tw) \<and> (\<exists>body. tw_w tw = body @ zeroBlock @ zeroBlock)"
    by (rule archive_aligned [OF buffer.reliable_writer_axioms _ _ tw]) (simp_all add: sample_archivable)
  with tw show ?thesis by blast
qed

end
