(* ===== verification/Tar_Refine.thy ===== *)
theory Tar_Refine
  imports Tar_Reader
begin

text \<open>
  The \<^verbatim>\<open>tar.Reader\<close> over an arbitrary \<^verbatim>\<open>io.Reader\<close> refines the one over a
  plain byte stream: what \<^verbatim>\<open>Next\<close> returns depends on the bytes of the archive alone
  and not on the pieces in which the reader delivers them. Only \<^verbatim>\<open>skipUnread\<close> uses
  \<^verbatim>\<open>Seek\<close>: its simulation, and that of \<^verbatim>\<open>Next\<close>, are for readers without that
  method, such as the counting reader of the checkpoints; all else is for every reader.
\<close>

section \<open>Exact results of the reading loops on a data section\<close>

context io_reader
begin

lemma Read_reg:
  assumes "ok (tr_r tr)" "fins (tr_r tr) \<subseteq> {EOF}" "tr_curr tr = CurrReg nb" "0 \<le> nb" "tr_err tr = None"
    and "Reader_Read ops tr n = (bs, e, tr')"
  obtains r' nb' where "ok r'" "fins r' \<subseteq> {EOF}" "left (tr_r tr) = bs @ left r'" "nb' = nb - int (length bs)" "0 \<le> nb'"
    and "e = None \<longrightarrow> 0 < n \<longrightarrow> bs \<noteq> []"
    and "e \<noteq> None \<longrightarrow> e = Some (if nb \<le> int (length (left (tr_r tr))) then EOF else ErrUnexpectedEOF) \<and> (nb' = 0 \<or> left r' = [])"
    and "tr' = tr\<lparr>tr_r := r', tr_curr := CurrReg nb', tr_err := if e = Some ErrUnexpectedEOF then e else None\<rparr>"
proof -
  obtain r' nb' where reg: "regFileReader_Read ops (tr_r tr) nb n = (bs, e, r', nb')"
      and tr': "tr' = tr\<lparr>tr_r := r', tr_curr := CurrReg nb', tr_err := if e \<noteq> None \<and> e \<noteq> Some EOF then e else None\<rparr>"
    using assms(3,5,6) by (auto simp: Reader_Read_def curr_Read_def split: prod.splits)
  note laws = regFileReader_Read_laws [OF assms(1,4) reg]
  have e: "e = Some (if nb \<le> int (length (left (tr_r tr))) then EOF else ErrUnexpectedEOF) \<and> (nb' = 0 \<or> left r' = [])"
    if "e \<noteq> None"
    using laws(8) that assms(2) by (auto simp: reg_fins_def)
  have "(if e \<noteq> None \<and> e \<noteq> Some EOF then e else None) = (if e = Some ErrUnexpectedEOF then e else None)"
    using e by (cases "e = None") auto
  then show thesis using that [of r' nb'] laws e tr' assms(2) by auto
qed

lemma ReadAll_reg:
  assumes "ok (tr_r tr)" "fins (tr_r tr) \<subseteq> {EOF}" "tr_curr tr = CurrReg nb" "0 \<le> nb" "tr_err tr = None"
    and "length (take (nat nb) (left (tr_r tr))) < fuel"
  shows "\<exists>r'. ReadAll (tr_ops ops) fuel tr acc =
      (acc @ take (nat nb) (left (tr_r tr)),
       if nb \<le> int (length (left (tr_r tr))) then None else Some ErrUnexpectedEOF,
       tr\<lparr>tr_r := r', tr_curr := CurrReg (nb - int (length (take (nat nb) (left (tr_r tr))))),
          tr_err := if nb \<le> int (length (left (tr_r tr))) then None else Some ErrUnexpectedEOF\<rparr>) \<and>
    ok r' \<and> fins r' \<subseteq> {EOF} \<and> left r' = drop (nat nb) (left (tr_r tr))"
  using assms
proof (induction fuel arbitrary: tr nb acc)
  case 0
  then show ?case by simp
next
  case (Suc fuel)
  obtain bs e tr1 where rd: "Reader_Read ops tr 512 = (bs, e, tr1)" by (cases "Reader_Read ops tr 512") auto
  obtain r' nb' where st: "ok r'" "fins r' \<subseteq> {EOF}" "left (tr_r tr) = bs @ left r'" "nb' = nb - int (length bs)" "0 \<le> nb'"
      "e = None \<longrightarrow> 0 < (512 :: nat) \<longrightarrow> bs \<noteq> []"
      "e \<noteq> None \<longrightarrow> e = Some (if nb \<le> int (length (left (tr_r tr))) then EOF else ErrUnexpectedEOF) \<and> (nb' = 0 \<or> left r' = [])"
      "tr1 = tr\<lparr>tr_r := r', tr_curr := CurrReg nb', tr_err := if e = Some ErrUnexpectedEOF then e else None\<rparr>"
    by (rule Read_reg [OF Suc.prems(1-5) rd])
  have nb: "nat nb = length bs + nat nb'" using st(4,5) by simp
  have tk: "take (nat nb) (left (tr_r tr)) = bs @ take (nat nb') (left r')"
      "drop (nat nb) (left (tr_r tr)) = drop (nat nb') (left r')"
      "nb \<le> int (length (left (tr_r tr))) \<longleftrightarrow> nb' \<le> int (length (left r'))"
    using st(3,4) nb by auto
  show ?case
  proof (cases e)
    case None
    have err: "tr1\<lparr>tr_err := None\<rparr> = tr1" using None st(8) by simp
    have "length (take (nat nb') (left r')) < fuel"
      using Suc.prems(6) st(6) None unfolding tk by (cases bs) auto
    then obtain r2 where r2: "ReadAll (tr_ops ops) fuel tr1 (acc @ bs) =
        ((acc @ bs) @ take (nat nb') (left (tr_r tr1)),
         if nb' \<le> int (length (left (tr_r tr1))) then None else Some ErrUnexpectedEOF,
         tr1\<lparr>tr_r := r2, tr_curr := CurrReg (nb' - int (length (take (nat nb') (left (tr_r tr1))))),
            tr_err := if nb' \<le> int (length (left (tr_r tr1))) then None else Some ErrUnexpectedEOF\<rparr>)"
        "ok r2" "fins r2 \<subseteq> {EOF}" "left r2 = drop (nat nb') (left (tr_r tr1))"
      using Suc.IH [of tr1 nb' "acc @ bs"] st None by auto
    have "nb' - int (length (take (nat nb') (left r'))) = nb - int (length (bs @ take (nat nb') (left r')))"
      using st(4) by simp
    then show ?thesis
      using r2 rd None st(8) unfolding tk
      by (intro exI [of _ r2]) (simp add: tr_ops_def)
  next
    case (Some x)
    have z: "take (nat nb') (left r') = []" "drop (nat nb') (left r') = left r'"
      using st(7) Some by auto
    show ?thesis
      using rd Some st(7,8) st(1,2,4) z unfolding tk
      by (intro exI [of _ r']) (auto simp: tr_ops_def)
  qed
qed

lemma curr_reg_progress:
  assumes "0 \<le> nb" "D = take (nat nb) L"
  shows "io_reader (curr_ops ops)
    (\<lambda>s. curr_ok ok left fins s \<and>
      (\<exists>k. k \<le> length D \<and> snd s = CurrReg (nb - int k) \<and> left (fst s) = drop k L \<and> fins (fst s) \<subseteq> {EOF}))
    (curr_left left) (curr_fins left fins)"
proof (rule io_reader.strengthen [OF curr_reader])
  fix s n bs e s'
  assume ok: "curr_ok ok left fins s"
    and I: "\<exists>k. k \<le> length D \<and> snd s = CurrReg (nb - int k) \<and> left (fst s) = drop k L \<and> fins (fst s) \<subseteq> {EOF}"
    and rd: "op_read (curr_ops ops) s n = (bs, e, s')"
  then obtain k r where k: "k \<le> length D" "s = (r, CurrReg (nb - int k))" "left r = drop k L" "fins r \<subseteq> {EOF}"
    by (cases s) auto
  have okr: "ok r" "0 \<le> nb - int k" using ok by (simp_all add: k(2) reg_ok_def)
  obtain r' nb' where reg: "regFileReader_Read ops r (nb - int k) n = (bs, e, r', nb')" "s' = (r', CurrReg nb')"
    using rd by (auto simp: k(2) curr_ops_def curr_Read_def split: prod.splits)
  note laws = regFileReader_Read_laws [OF okr reg(1)]
  have "drop k L = bs @ left r'" using laws(5) k(3) by simp
  then have "left r' = drop (k + length bs) L" "length bs \<le> length L - k"
    by (metis append_eq_conv_conj drop_drop add.commute) (metis le_add1 length_append length_drop \<open>drop k L = bs @ left r'\<close>)
  moreover have "int (k + length bs) \<le> nb" using laws(2,3) by simp
  ultimately have "k + length bs \<le> length D" using k(1) assms(2) by auto
  then show "\<exists>k. k \<le> length D \<and> snd s' = CurrReg (nb - int k) \<and> left (fst s') = drop k L \<and> fins (fst s') \<subseteq> {EOF}"
    using \<open>left r' = drop (k + length bs) L\<close> laws(2,6) k(4)
    by (intro exI [of _ "k + length bs"]) (auto simp: reg(2))
qed

lemma ReadFull_reg:
  assumes "ok r" "fins r \<subseteq> {EOF}" "0 \<le> nb" "D = take (nat nb) (left r)"
  obtains r' where "ReadFull (curr_ops ops) (r, CurrReg nb) n =
      (take n D,
       if n \<le> length D then None
       else Some (if D = [] \<and> nb \<le> int (length (left r)) then EOF else ErrUnexpectedEOF),
       (r', CurrReg (nb - int (length (take n D)))))"
    and "ok r'" "fins r' \<subseteq> {EOF}" "left r' = drop (length (take n D)) (left r)"
proof -
  let ?s = "(r, CurrReg nb)" and ?L = "left r"
  note rd = curr_reg_progress [OF assms(3,4)]
  have ok: "curr_ok ok left fins ?s \<and>
      (\<exists>k. k \<le> length D \<and> snd ?s = CurrReg (nb - int k) \<and> left (fst ?s) = drop k ?L \<and> fins (fst ?s) \<subseteq> {EOF})"
    using assms by (auto simp: reg_ok_def intro: exI [of _ 0])
  have left: "curr_left left ?s = D" using assms(4) by (simp add: reg_left_def)
  have fin: "curr_fins left fins ?s \<subseteq> {if nb \<le> int (length ?L) then EOF else ErrUnexpectedEOF}"
    using assms(2) by (auto simp: reg_fins_def)
  obtain bs e s' where r: "ReadFull (curr_ops ops) ?s n = (bs, e, s')" by (cases "ReadFull (curr_ops ops) ?s n") auto
  have res: "bs = take n D \<and> curr_left left s' = drop n D \<and>
      e = (if n \<le> length D then None
       else Some (if D = [] \<and> nb \<le> int (length ?L) then EOF else ErrUnexpectedEOF)) \<and>
      curr_ok ok left fins s' \<and>
      (\<exists>k. k \<le> length D \<and> snd s' = CurrReg (nb - int k) \<and> left (fst s') = drop k ?L \<and> fins (fst s') \<subseteq> {EOF})"
  proof (cases "n \<le> length (curr_left left ?s)")
    case True
    show ?thesis by (rule io_reader.ReadFull_ok [OF rd ok True]) (use r left True in auto)
  next
    case False
    then have "length (curr_left left ?s) < n" by simp
    then show ?thesis
      by (rule io_reader.ReadFull_short [OF rd ok]) (use r left False fin in \<open>auto split: if_splits\<close>)
  qed
  then obtain k r' where k: "k \<le> length D" "s' = (r', CurrReg (nb - int k))" "left r' = drop k ?L" "fins r' \<subseteq> {EOF}" "ok r'"
    by (cases s') (auto simp: reg_ok_def)
  have "length (curr_left left s') = length D - k" using k assms(3,4) by (auto simp: reg_left_def)
  then have "k = length (take n D)" using res k(1) by (auto simp: min_def)
  then show thesis using that [of r'] r res k by simp
qed

end

section \<open>The simulation\<close>

definition sim :: "('r \<Rightarrow> bool) \<Rightarrow> ('r \<Rightarrow> byte list) \<Rightarrow> ('r \<Rightarrow> go_error set) \<Rightarrow> 'r Reader \<Rightarrow> bytes_reader Reader \<Rightarrow> bool" where
  "sim ok left fins tr tc \<longleftrightarrow>
     ok (tr_r tr) \<and> fins (tr_r tr) \<subseteq> {EOF} \<and> left (tr_r tr) = bytes_left (tr_r tc) \<and>
     tr_pad tc = tr_pad tr \<and> tr_curr tc = tr_curr tr \<and> tr_blk tc = tr_blk tr \<and> tr_err tc = tr_err tr"

text \<open>Equal results and related states.\<close>

definition agree :: "('r \<Rightarrow> bool) \<Rightarrow> ('r \<Rightarrow> byte list) \<Rightarrow> ('r \<Rightarrow> go_error set) \<Rightarrow>
    'x \<times> 'r Reader \<Rightarrow> 'x \<times> bytes_reader Reader \<Rightarrow> bool" where
  "agree ok left fins a c \<longleftrightarrow> fst a = fst c \<and> sim ok left fins (snd a) (snd c)"

lemma agreeI [intro]: "x = y \<Longrightarrow> sim ok left fins tr tc \<Longrightarrow> agree ok left fins (x, tr) (y, tc)"
  by (simp add: agree_def)

context io_reader
begin

abbreviation "S \<equiv> sim ok left fins"
abbreviation "A \<equiv> agree ok left fins"

lemma sim_read_block:
  assumes "S tr tc" shows "A (read_block ops tr) (read_block stream_ops tc)"
proof -
  have s: "ok (tr_r tr)" "fins (tr_r tr) \<subseteq> {EOF}" "left (tr_r tr) = bytes_left (tr_r tc)"
    using assms by (auto simp: sim_def)
  show ?thesis
    by (rule ReadFull_exact [OF s(1,2), of 512], rule stream.ReadFull_exact [OF TrueI subset_refl, of "tr_r tc" 512])
      (use s assms in \<open>auto simp: read_block_def sim_def agree_def\<close>)
qed

lemma sim_readHeader:
  assumes "S tr tc" shows "A (readHeader ops tr) (readHeader stream_ops tc)"
proof -
  obtain e tr1 tc1 where 1: "read_block ops tr = (e, tr1)" "read_block stream_ops tc = (e, tc1)" "S tr1 tc1"
    using sim_read_block [OF assms] by (auto simp: agree_def prod_eq_iff)
  obtain e2 tr2 tc2 where 2: "read_block ops tr1 = (e2, tr2)" "read_block stream_ops tc1 = (e2, tc2)" "S tr2 tc2"
    using sim_read_block [OF 1(3)] by (auto simp: agree_def prod_eq_iff)
  have "tr_blk tc1 = tr_blk tr1" "tr_blk tc2 = tr_blk tr2" using 1(3) 2(3) by (auto simp: sim_def)
  then show ?thesis using 1 2 by (auto simp: readHeader_def split: option.splits)
qed

lemma sim_handleRegularFile:
  assumes "S tr tc" shows "A (handleRegularFile hdr tr) (handleRegularFile hdr tc)"
  using assms by (auto simp: handleRegularFile_def Let_def sim_def agree_def)

lemma sim_old_sparse_loop:
  assumes "S tr tc" shows "A (old_sparse_loop ops fuel s sp tr) (old_sparse_loop stream_ops fuel s sp tc)"
  using assms
proof (induction fuel arbitrary: s sp tr tc)
  case 0
  then show ?case
    by (subst (1 2) old_sparse_loop.simps) (auto split: sum.splits)
next
  case (Suc fuel)
  obtain e tr1 tc1 where 1: "read_block ops tr = (e, tr1)" "read_block stream_ops tc = (e, tc1)" "S tr1 tc1"
    using sim_read_block [OF Suc.prems] by (auto simp: agree_def prod_eq_iff)
  have "tr_blk tc1 = tr_blk tr1" using 1(3) by (simp add: sim_def)
  then show ?case
    using 1 Suc by (subst (1 2) old_sparse_loop.simps) (auto split: sum.splits option.splits)
qed

lemma sim_readOldGNUSparseMap:
  assumes "S tr tc" shows "A (readOldGNUSparseMap ops fuel hdr tr) (readOldGNUSparseMap stream_ops fuel hdr tc)"
proof -
  have b: "tr_blk tc = tr_blk tr" using assms by (simp add: sim_def)
  obtain res tr1 tc1 where "old_sparse_loop ops fuel (get_field (tr_blk tr) gnu_Sparse) [] tr = (res, tr1)"
      "old_sparse_loop stream_ops fuel (get_field (tr_blk tr) gnu_Sparse) [] tc = (res, tc1)" "S tr1 tc1"
    using sim_old_sparse_loop [OF assms, of fuel "get_field (tr_blk tr) gnu_Sparse" "[]"]
    by (auto simp: agree_def prod_eq_iff)
  then show ?thesis
    using assms by (auto simp: readOldGNUSparseMap_def b Let_def split: option.splits sum.splits prod.splits)
qed

text \<open>Reading a sparse map from the data section of the entry.\<close>

lemma sim_feedTokens:
  assumes "ok r" "fins r \<subseteq> {EOF}" "left r = bytes_left rc" "0 \<le> nb"
  shows "\<exists>e r' rc' nb' cn' buf'.
    feedTokens (curr_ops ops) fuel cnt (r, CurrReg nb) cn buf = (e, (r', CurrReg nb'), cn', buf') \<and>
    feedTokens (curr_ops stream_ops) fuel cnt (rc, CurrReg nb) cn buf = (e, (rc', CurrReg nb'), cn', buf') \<and>
    ok r' \<and> fins r' \<subseteq> {EOF} \<and> left r' = bytes_left rc' \<and> 0 \<le> nb'"
  using assms
proof (induction fuel arbitrary: r rc nb cn buf)
  case 0
  then show ?case by (subst (1 2) feedTokens.simps) auto
next
  case (Suc fuel)
  let ?L = "bytes_left rc"
  let ?D = "take (nat nb) ?L"
  let ?e = "if 512 \<le> length ?D then None
    else Some (if ?D = [] \<and> nb \<le> int (length ?L) then EOF else ErrUnexpectedEOF)"
  have D: "?D = take (nat nb) (left r)" using Suc.prems(3) by simp
  obtain r' where a: "ReadFull (curr_ops ops) (r, CurrReg nb) 512 =
      (take 512 ?D, ?e, (r', CurrReg (nb - int (length (take 512 ?D)))))"
      "ok r'" "fins r' \<subseteq> {EOF}" "left r' = drop (length (take 512 ?D)) ?L"
    by (rule ReadFull_reg [OF Suc.prems(1,2,4) D, of 512, unfolded Suc.prems(3)])
  obtain c' where c: "ReadFull (curr_ops stream_ops) (rc, CurrReg nb) 512 =
      (take 512 ?D, ?e, (c', CurrReg (nb - int (length (take 512 ?D)))))"
      "bytes_left c' = drop (length (take 512 ?D)) ?L"
    by (rule stream.ReadFull_reg [OF TrueI subset_refl Suc.prems(4) refl, of rc 512])
  have nb': "0 \<le> nb - int (length (take 512 ?D))" using Suc.prems(4) by (auto simp: min_def)
  have eq: "left r' = bytes_left c'" using a(4) c(2) by simp
  show ?case
  proof (cases "cn < cnt")
    case False
    then show ?thesis using Suc.prems by (subst (1 2) feedTokens.simps) auto
  next
    case True
    show ?thesis
    proof (cases "512 \<le> length ?D")
      case True
      from Suc.IH [OF a(2,3) eq nb'] \<open>cn < cnt\<close> True a(1) c(1) show ?thesis
        by (subst (1 2) feedTokens.simps) simp
    next
      case False
      with \<open>cn < cnt\<close> a c nb' eq show ?thesis
        by (subst (1 2) feedTokens.simps) auto
    qed
  qed
qed

lemma sim_readGNUSparseMap1x0:
  assumes "ok r" "fins r \<subseteq> {EOF}" "left r = bytes_left rc" "0 \<le> nb"
  shows "\<exists>res r' rc' nb'.
    readGNUSparseMap1x0 (curr_ops ops) fuel (r, CurrReg nb) = (res, (r', CurrReg nb')) \<and>
    readGNUSparseMap1x0 (curr_ops stream_ops) fuel (rc, CurrReg nb) = (res, (rc', CurrReg nb')) \<and>
    ok r' \<and> fins r' \<subseteq> {EOF} \<and> left r' = bytes_left rc' \<and> 0 \<le> nb'"
proof -
  obtain e r1 c1 nb1 cn buf where 1:
      "feedTokens (curr_ops ops) fuel 1 (r, CurrReg nb) 0 [] = (e, (r1, CurrReg nb1), cn, buf)"
      "feedTokens (curr_ops stream_ops) fuel 1 (rc, CurrReg nb) 0 [] = (e, (c1, CurrReg nb1), cn, buf)"
      "ok r1" "fins r1 \<subseteq> {EOF}" "left r1 = bytes_left c1" "0 \<le> nb1"
    using sim_feedTokens [OF assms, of fuel 1 0 "[]"] by blast
  show ?thesis
  proof (cases e)
    case (Some x)
    then show ?thesis using 1 by (simp add: readGNUSparseMap1x0_def)
  next
    case None
    show ?thesis
    proof (cases "nextToken buf")
      case (Inl x)
      then show ?thesis using 1 None by (simp add: readGNUSparseMap1x0_def)
    next
      case (Inr tb)
      obtain tok buf1 where tb: "tb = (tok, buf1)" by fastforce
      show ?thesis
      proof (cases "parse_count tok")
        case n: None
        then show ?thesis using 1 None Inr tb by (simp add: readGNUSparseMap1x0_def)
      next
        case (Some num)
        obtain e2 r2 c2 nb2 cn2 buf2 where 2:
            "feedTokens (curr_ops ops) fuel (i64 (2 * num)) (r1, CurrReg nb1) (cn - 1) buf1 = (e2, (r2, CurrReg nb2), cn2, buf2)"
            "feedTokens (curr_ops stream_ops) fuel (i64 (2 * num)) (c1, CurrReg nb1) (cn - 1) buf1 = (e2, (c2, CurrReg nb2), cn2, buf2)"
            "ok r2" "fins r2 \<subseteq> {EOF}" "left r2 = bytes_left c2" "0 \<le> nb2"
          using sim_feedTokens [OF 1(3-6), of fuel "i64 (2 * num)" "cn - 1" buf1] by blast
        then show ?thesis using 1 None Inr tb Some
          by (cases e2) (simp_all add: readGNUSparseMap1x0_def)
      qed
    qed
  qed
qed

lemma sim_checkForGNUSparse:
  assumes "S tr tc" "tr_curr tr = CurrReg nb" "0 \<le> nb"
  shows "A (checkForGNUSparsePAXHeaders ops fuel hdr ext tr) (checkForGNUSparsePAXHeaders stream_ops fuel hdr ext tc)"
proof -
  have s: "ok (tr_r tr)" "fins (tr_r tr) \<subseteq> {EOF}" "left (tr_r tr) = bytes_left (tr_r tc)" "tr_curr tc = CurrReg nb"
    using assms by (auto simp: sim_def)
  obtain res r' c' nb' where
      "readGNUSparseMap1x0 (curr_ops ops) fuel (tr_r tr, CurrReg nb) = (res, (r', CurrReg nb'))"
      "readGNUSparseMap1x0 (curr_ops stream_ops) fuel (tr_r tc, CurrReg nb) = (res, (c', CurrReg nb'))"
      "ok r'" "fins r' \<subseteq> {EOF}" "left r' = bytes_left c'"
    using sim_readGNUSparseMap1x0 [OF s(1-3) assms(3), of fuel] by blast
  then show ?thesis
    using assms s by (auto simp: checkForGNUSparsePAXHeaders_def agree_def sim_def split: option.splits sum.splits)
qed

lemma sim_handleSparseFile:
  assumes "S tr tc" "tr_curr tr = CurrReg nb" "0 \<le> nb"
  shows "A (handleSparseFile ops fuel hdr ext tr) (handleSparseFile stream_ops fuel hdr ext tc)"
proof -
  define f where "f = (if h_Typeflag hdr = TypeGNUSparse then
              case readOldGNUSparseMap ops fuel hdr tr of
                (Inl e, tr1) \<Rightarrow> (Inl e, tr1)
              | (Inr (hdr', sp), tr1) \<Rightarrow> (Inr (hdr', Some sp), tr1)
            else checkForGNUSparsePAXHeaders ops fuel hdr ext tr)"
  define g where "g = (if h_Typeflag hdr = TypeGNUSparse then
              case readOldGNUSparseMap stream_ops fuel hdr tc of
                (Inl e, tr1) \<Rightarrow> (Inl e, tr1)
              | (Inr (hdr', sp), tr1) \<Rightarrow> (Inr (hdr', Some sp), tr1)
            else checkForGNUSparsePAXHeaders stream_ops fuel hdr ext tc)"
  have "A f g"
  proof (cases "h_Typeflag hdr = TypeGNUSparse")
    case True
    obtain res tr1 tc1 where "readOldGNUSparseMap ops fuel hdr tr = (res, tr1)"
        "readOldGNUSparseMap stream_ops fuel hdr tc = (res, tc1)" "S tr1 tc1"
      using sim_readOldGNUSparseMap [OF assms(1), of fuel hdr] by (auto simp: agree_def prod_eq_iff)
    then show ?thesis using True by (auto simp: f_def g_def split: sum.splits)
  qed (use sim_checkForGNUSparse [OF assms] in \<open>simp add: f_def g_def\<close>)
  then obtain res tr1 tc1 where r: "f = (res, tr1)" "g = (res, tc1)" "S tr1 tc1"
    by (auto simp: agree_def prod_eq_iff)
  then have c: "tr_curr tc1 = tr_curr tr1" by (simp add: sim_def)
  show ?thesis
    unfolding handleSparseFile_def f_def [symmetric] g_def [symmetric] r(1,2)
    using r(3) c by (auto simp: agree_def sim_def split: sum.splits option.splits)
qed

lemma handleRegularFile_curr:
  "handleRegularFile hdr tr = (None, tr') \<Longrightarrow> \<exists>nb. tr_curr tr' = CurrReg nb \<and> 0 \<le> nb \<and> tr_err tr' = tr_err tr \<and> tr_r tr' = tr_r tr"
  by (auto simp: handleRegularFile_def Let_def split: if_splits)

lemma sim_finish_file:
  assumes "S tr tc"
  shows "A (finish_file ops fuel hdr ext tr) (finish_file stream_ops fuel hdr ext tc)"
proof (cases "mergePAX hdr ext")
  case (Inl e)
  then show ?thesis using assms by (auto simp: finish_file_def)
next
  case (Inr h)
  obtain e tr1 tc1 where 1: "handleRegularFile h tr = (e, tr1)" "handleRegularFile h tc = (e, tc1)" "S tr1 tc1"
    using sim_handleRegularFile [OF assms, of h] by (auto simp: agree_def prod_eq_iff)
  show ?thesis
  proof (cases e)
    case None
    obtain nb where "tr_curr tr1 = CurrReg nb" "0 \<le> nb" using handleRegularFile_curr 1(1) None by blast
    then show ?thesis using sim_handleSparseFile [OF 1(3)] 1 None Inr by (simp add: finish_file_def)
  qed (use 1 Inr in \<open>auto simp: finish_file_def\<close>)
qed

lemma sim_ReadAll:
  assumes "S tr tc" "tr_curr tr = CurrReg nb" "0 \<le> nb" "tr_err tr = None" "length (left (tr_r tr)) < fuel"
  obtains bs e tr' tc' where "ReadAll (tr_ops ops) fuel tr [] = (bs, e, tr')"
    and "ReadAll (tr_ops stream_ops) fuel tc [] = (bs, e, tc')" "S tr' tc'" "e = None \<longrightarrow> tr_err tr' = None"
    "length (left (tr_r tr')) < fuel"
proof -
  have s: "ok (tr_r tr)" "fins (tr_r tr) \<subseteq> {EOF}" "left (tr_r tr) = bytes_left (tr_r tc)" "tr_curr tc = CurrReg nb" "tr_err tc = None"
    using assms(1,2,4) by (auto simp: sim_def)
  let ?L = "bytes_left (tr_r tc)"
  let ?e = "if nb \<le> int (length ?L) then None else Some ErrUnexpectedEOF"
  have f: "length (take (nat nb) (left (tr_r tr))) < fuel" "length (take (nat nb) ?L) < fuel" using assms(5) s(3) by auto
  obtain r' where a: "ReadAll (tr_ops ops) fuel tr [] = ([] @ take (nat nb) ?L, ?e,
       tr\<lparr>tr_r := r', tr_curr := CurrReg (nb - int (length (take (nat nb) ?L))), tr_err := ?e\<rparr>)"
      "ok r'" "fins r' \<subseteq> {EOF}" "left r' = drop (nat nb) ?L"
    using ReadAll_reg [OF s(1,2) assms(2,3,4) f(1), of "[]", unfolded s(3)] by blast
  obtain c' where c: "ReadAll (tr_ops stream_ops) fuel tc [] = ([] @ take (nat nb) ?L, ?e,
       tc\<lparr>tr_r := c', tr_curr := CurrReg (nb - int (length (take (nat nb) ?L))), tr_err := ?e\<rparr>)"
      "bytes_left c' = drop (nat nb) ?L"
    using stream.ReadAll_reg [OF TrueI subset_refl s(4) assms(3) s(5) f(2), of "[]"] by blast
  show thesis
    by (rule that [OF a(1) c(1)]) (use a c assms(1,5) s(3) in \<open>auto simp: sim_def\<close>)
qed

lemma sim_parsePAX:
  assumes "S tr tc" "tr_curr tr = CurrReg nb" "0 \<le> nb" "tr_err tr = None" "length (left (tr_r tr)) < fuel"
  obtains res tr' tc' where "parsePAX (tr_ops ops) fuel tr = (res, tr')"
    and "parsePAX (tr_ops stream_ops) fuel tc = (res, tc')" "S tr' tc'" "(\<exists>m. res = Inr m) \<longrightarrow> tr_err tr' = None"
    "length (left (tr_r tr')) < fuel"
proof -
  obtain bs e tr' tc' where r: "ReadAll (tr_ops ops) fuel tr [] = (bs, e, tr')"
      "ReadAll (tr_ops stream_ops) fuel tc [] = (bs, e, tc')" "S tr' tc'" "e = None \<longrightarrow> tr_err tr' = None"
      "length (left (tr_r tr')) < fuel"
    by (rule sim_ReadAll [OF assms])
  show thesis
  proof (cases e)
    case None
    then show thesis using r by (intro that) (auto simp: parsePAX_def)
  next
    case (Some x)
    then show thesis using r by (intro that [of "Inl x" tr' tc']) (auto simp: parsePAX_def)
  qed
qed

end

section \<open>The whole of Next\<close>

context io_reader
begin

text \<open>A header that was read has cost a block of the archive.\<close>

lemma readHeader_consumes:
  assumes "S tr tc" "readHeader stream_ops tc = (Inr hdr, tc')"
  shows "length (bytes_left (tr_r tc')) + 512 \<le> length (bytes_left (tr_r tc)) \<and> tr_err tc' = tr_err tc"
proof -
  obtain c' where "ReadFull stream_ops (tr_r tc) 512 =
      (take 512 (bytes_left (tr_r tc)), if 512 \<le> length (bytes_left (tr_r tc)) then None
        else Some (if bytes_left (tr_r tc) = [] then EOF else ErrUnexpectedEOF), c')"
      "bytes_left c' = drop 512 (bytes_left (tr_r tc))"
    by (rule stream.ReadFull_exact [OF TrueI subset_refl])
  then show ?thesis using assms(2)
    by (auto simp: readHeader_def read_block_def split: if_splits prod.splits option.splits)
qed

lemma skipUnread_consumes:
  assumes "skipUnread stream_ops tc = (None, tc')"
  shows "length (bytes_left (tr_r tc')) \<le> length (bytes_left (tr_r tc)) \<and> tr_err tc' = tr_err tc"
proof -
  let ?n = "i64 (i64 (numBytes (tr_curr tc) + tr_pad tc) - 0)"
  obtain c' where "CopyN stream_ops (tr_r tc) ?n =
      (int (min (nat ?n) (length (bytes_left (tr_r tc)))), if ?n \<le> int (length (bytes_left (tr_r tc))) then None else Some EOF, c')"
      "bytes_left c' = drop (nat ?n) (bytes_left (tr_r tc))"
    by (rule stream.CopyN_exact [OF TrueI subset_refl])
  moreover have "seek_skip stream_ops r2 n = (Inr 0, r2)" for r2 n
    by (simp add: seek_skip_def stream_ops_def)
  ultimately show ?thesis using assms
    by (auto simp: skipUnread_def Let_def split: if_splits)
qed

text \<open>What follows \<^verbatim>\<open>skipUnread\<close> in a round of \<^verbatim>\<open>next\<close>, up to the contents of the entry.\<close>

lemma sim_header:
  assumes "S tr1 tc1" "tr_err tr1 = None"
  obtains (header) e tr' tc' where "readHeader ops tr1 = (Inl e, tr')" "readHeader stream_ops tc1 = (Inl e, tc')" "S tr' tc'"
  | (regular) hdr tr2 tc2 e tr' tc' where "readHeader ops tr1 = (Inr hdr, tr2)" "readHeader stream_ops tc1 = (Inr hdr, tc2)"
      "handleRegularFile hdr tr2 = (Some e, tr')" "handleRegularFile hdr tc2 = (Some e, tc')" "S tr' tc'"
  | (data) hdr tr2 tc2 tr' tc' nb where "readHeader ops tr1 = (Inr hdr, tr2)" "readHeader stream_ops tc1 = (Inr hdr, tc2)"
      "handleRegularFile hdr tr2 = (None, tr')" "handleRegularFile hdr tc2 = (None, tc')" "S tr' tc'"
      "tr_curr tr' = CurrReg nb" "0 \<le> nb" "tr_err tr' = None" "length (left (tr_r tr')) + 512 \<le> length (left (tr_r tr1))"
proof -
  obtain o2 tr2 tc2 where 2: "readHeader ops tr1 = (o2, tr2)" "readHeader stream_ops tc1 = (o2, tc2)" "S tr2 tc2"
    using sim_readHeader [OF assms(1)] by (auto simp: agree_def prod_eq_iff)
  show thesis
  proof (cases o2)
    case (Inl e)
    then show thesis using header 2 by blast
  next
    case (Inr hdr)
    obtain o3 tr3 tc3 where 3: "handleRegularFile hdr tr2 = (o3, tr3)" "handleRegularFile hdr tc2 = (o3, tc3)" "S tr3 tc3"
      using sim_handleRegularFile [OF 2(3), of hdr] by (auto simp: agree_def prod_eq_iff)
    show thesis
    proof (cases o3)
      case (Some e)
      then show thesis using regular 2 3 Inr by blast
    next
      case None
      have t3: "handleRegularFile hdr tr2 = (None, tr3)" "handleRegularFile hdr tc2 = (None, tc3)" using 3 None by auto
      obtain nb where nb: "tr_curr tr3 = CurrReg nb" "0 \<le> nb" "tr_r tr3 = tr_r tr2" "tr_err tr3 = tr_err tr2"
        using handleRegularFile_curr [OF t3(1)] by blast
      have len: "length (bytes_left (tr_r tc2)) + 512 \<le> length (bytes_left (tr_r tc1))" "tr_err tc2 = tr_err tc1"
        using readHeader_consumes [OF assms(1), of hdr tc2] 2 Inr by auto
      have "tr_err tr3 = None" "length (left (tr_r tr3)) + 512 \<le> length (left (tr_r tr1))"
        using len nb 2(3) assms by (auto simp: sim_def)
      with nb show thesis using data [OF _ _ t3 3(3)] 2 Inr by blast
    qed
  qed
qed

end

text \<open>
  Where the archive has no \<^verbatim>\<open>Seek\<close>, \<^verbatim>\<open>skipUnread\<close> reads what it skips, and the whole of
  \<^verbatim>\<open>Next\<close> is simulated.
\<close>

locale seekless_reader = io_reader +
  assumes no_seek: "op_seek ops = None"
begin

lemma sim_skipUnread:
  assumes "S tr tc" shows "A (skipUnread ops tr) (skipUnread stream_ops tc)"
proof -
  have s: "ok (tr_r tr)" "fins (tr_r tr) \<subseteq> {EOF}" "left (tr_r tr) = bytes_left (tr_r tc)"
      "tr_pad tc = tr_pad tr" "tr_curr tc = tr_curr tr" using assms by (auto simp: sim_def)
  let ?n = "i64 (i64 (numBytes (tr_curr tr) + tr_pad tr) - 0)"
  obtain r' where a: "CopyN ops (tr_r tr) ?n =
      (int (min (nat ?n) (length (left (tr_r tr)))), if ?n \<le> int (length (left (tr_r tr))) then None else Some EOF, r')"
      "ok r'" "fins r' \<subseteq> {EOF}" "left r' = drop (nat ?n) (left (tr_r tr))"
    by (rule CopyN_exact [OF s(1,2)])
  obtain c' where c: "CopyN stream_ops (tr_r tc) ?n =
      (int (min (nat ?n) (length (bytes_left (tr_r tc)))), if ?n \<le> int (length (bytes_left (tr_r tc))) then None else Some EOF, c')"
      "bytes_left c' = drop (nat ?n) (bytes_left (tr_r tc))"
    by (rule stream.CopyN_exact [OF TrueI subset_refl])
  have "seek_skip ops r n = (Inr 0, r)" "seek_skip stream_ops r2 n = (Inr 0, r2)" for r r2 n
    by (simp_all add: seek_skip_def no_seek stream_ops_def)
  then show ?thesis
    using a c s assms by (auto simp: skipUnread_def Let_def sim_def agree_def)
qed

lemma sim_entry:
  assumes "S tr tc" "tr_err tr = None"
  obtains (skip) e tr' tc' where "skipUnread ops tr = (Some e, tr')" "skipUnread stream_ops tc = (Some e, tc')" "S tr' tc'"
  | (header) tr1 tc1 e tr' tc' where "skipUnread ops tr = (None, tr1)" "skipUnread stream_ops tc = (None, tc1)"
      "readHeader ops tr1 = (Inl e, tr')" "readHeader stream_ops tc1 = (Inl e, tc')" "S tr' tc'"
  | (regular) tr1 tc1 hdr tr2 tc2 e tr' tc' where "skipUnread ops tr = (None, tr1)" "skipUnread stream_ops tc = (None, tc1)"
      "readHeader ops tr1 = (Inr hdr, tr2)" "readHeader stream_ops tc1 = (Inr hdr, tc2)"
      "handleRegularFile hdr tr2 = (Some e, tr')" "handleRegularFile hdr tc2 = (Some e, tc')" "S tr' tc'"
  | (data) tr1 tc1 hdr tr2 tc2 tr' tc' nb where "skipUnread ops tr = (None, tr1)" "skipUnread stream_ops tc = (None, tc1)"
      "readHeader ops tr1 = (Inr hdr, tr2)" "readHeader stream_ops tc1 = (Inr hdr, tc2)"
      "handleRegularFile hdr tr2 = (None, tr')" "handleRegularFile hdr tc2 = (None, tc')" "S tr' tc'"
      "tr_curr tr' = CurrReg nb" "0 \<le> nb" "tr_err tr' = None" "length (left (tr_r tr')) + 512 \<le> length (left (tr_r tr))"
proof -
  obtain o1 tr1 tc1 where 1: "skipUnread ops tr = (o1, tr1)" "skipUnread stream_ops tc = (o1, tc1)" "S tr1 tc1"
    using sim_skipUnread [OF assms(1)] by (auto simp: agree_def prod_eq_iff)
  show thesis
  proof (cases o1)
    case (Some e)
    then show thesis using skip 1 by blast
  next
    case None
    then have "length (left (tr_r tr1)) \<le> length (left (tr_r tr))" "tr_err tr1 = None"
      using skipUnread_consumes [of tc tc1] 1 assms by (auto simp: sim_def)
    note le = this(1)
    from 1(3) \<open>tr_err tr1 = None\<close> show thesis
    proof (cases rule: sim_header)
      case (data hdr tr2 tc2 tr' tc' nb)
      then show thesis using 1 None le that(4) [of tr1 tc1 hdr tr2 tc2 tr' tc' nb] by simp
    qed (use 1 None header regular in blast)+
  qed
qed

lemma sim_Reader_next:
  assumes "S tr tc" "tr_err tr = None" "length (left (tr_r tr)) < fuel"
  shows "A (Reader_next ops fuel ext tr) (Reader_next stream_ops fuel ext tc)"
  using assms
proof (induction fuel arbitrary: ext tr tc)
  case 0
  then show ?case by simp
next
  case (Suc fuel)
  from Suc.prems(1,2) show ?case
  proof (cases rule: sim_entry)
    case (data tr1 tc1 hdr tr2 tc2 tr' tc' nb)
    have f: "length (left (tr_r tr')) < fuel" using data(11) Suc.prems(3) by linarith
    obtain res tr4 tc4 where p: "parsePAX (tr_ops ops) fuel tr' = (res, tr4)"
        "parsePAX (tr_ops stream_ops) fuel tc' = (res, tc4)" "S tr4 tc4" "(\<exists>m. res = Inr m) \<longrightarrow> tr_err tr4 = None"
        "length (left (tr_r tr4)) < fuel"
      by (rule sim_parsePAX [OF data(7-10) f])
    obtain bs e tr5 tc5 where q: "ReadAll (tr_ops ops) fuel tr' [] = (bs, e, tr5)"
        "ReadAll (tr_ops stream_ops) fuel tc' [] = (bs, e, tc5)" "S tr5 tc5" "e = None \<longrightarrow> tr_err tr5 = None"
        "length (left (tr_r tr5)) < fuel"
      by (rule sim_ReadAll [OF data(7-10) f])
    consider (pax) "h_Typeflag hdr = TypeXHeader"
      | (gnu) "h_Typeflag hdr \<noteq> TypeXHeader" "h_Typeflag hdr = TypeGNULongName \<or> h_Typeflag hdr = TypeGNULongLink"
      | (plain) "h_Typeflag hdr \<noteq> TypeXHeader" "\<not> (h_Typeflag hdr = TypeGNULongName \<or> h_Typeflag hdr = TypeGNULongLink)"
      by blast
    then show ?thesis
    proof cases
      case pax
      then show ?thesis using data p Suc.IH [OF p(3) _ p(5)]
        by (cases res) auto
    next
      case gnu
      then show ?thesis using data q Suc.IH [OF q(3) _ q(5)]
        by (cases e) auto
    next
      case plain
      then show ?thesis using data sim_finish_file [OF data(7), of fuel hdr ext] by simp
    qed
  qed auto
qed

lemma sim_Reader_Next:
  assumes "S tr tc" "length (left (tr_r tr)) < fuel"
  shows "A (Reader_Next ops fuel tr) (Reader_Next stream_ops fuel tc)"
proof (cases "tr_err tr")
  case None
  have "tr_err tc = None" using assms(1) None by (simp add: sim_def)
  moreover obtain res tr1 tc1 where "Reader_next ops fuel [] tr = (res, tr1)" "Reader_next stream_ops fuel [] tc = (res, tc1)" "S tr1 tc1"
    using sim_Reader_next [OF assms(1) None assms(2), of "[]"] by (auto simp: agree_def prod_eq_iff)
  ultimately show ?thesis using None by (cases res) (auto simp: Reader_Next_def agree_def sim_def)
next
  case (Some e)
  then show ?thesis using assms by (auto simp: Reader_Next_def agree_def sim_def)
qed

end

end
