(* ===== verification/Tar_Total.thy ===== *)
theory Tar_Total
  imports Tar_Refine
begin

text \<open>
  The contract of \<^verbatim>\<open>tar.Reader\<close>. Over any \<^verbatim>\<open>io.Reader\<close>, with \<^verbatim>\<open>Seek\<close> or
  without, \<^verbatim>\<open>Next\<close> returns on every archive. Without \<^verbatim>\<open>Seek\<close> it refines the one over a
  plain byte stream, \<^verbatim>\<open>Next\<close> and \<^verbatim>\<open>Read\<close> keep the type invariant of the state, and the
  contents of the block buffer between calls do not matter.
\<close>

section \<open>Next returns\<close>

text \<open>The errors of the package and a panic, as opposed to running out of fuel.\<close>

definition tar_error :: "go_error \<Rightarrow> bool" where
  "tar_error e \<longleftrightarrow> e = EOF \<or> e = ErrUnexpectedEOF \<or> e = ErrHeader \<or> (\<exists>m. e = Panic m)"

definition fine :: "'x result \<Rightarrow> bool" where
  "fine res \<longleftrightarrow> (case res of Inl e \<Rightarrow> tar_error e | Inr _ \<Rightarrow> True)"


lemma tar_error_simps [simp]: "tar_error EOF" "tar_error ErrUnexpectedEOF" "tar_error ErrHeader" "tar_error (Panic m)"
  by (simp_all add: tar_error_def)

lemma fine_simps [simp]: "fine (Inl e) \<longleftrightarrow> tar_error e" "fine (Inr x)"
  by (simp_all add: fine_def)

























interpretation plain: seekless_reader stream_ops "\<lambda>_. True" bytes_left "\<lambda>_. {EOF}"
  by unfold_locales (simp add: stream_ops_def)

abbreviation same :: "bytes_reader Reader \<Rightarrow> bytes_reader Reader \<Rightarrow> bool" where
  "same \<equiv> sim (\<lambda>_. True) bytes_left (\<lambda>_. {EOF})"

lemma same_refl: "same tc tc"
  by (simp add: sim_def)


text \<open>The state over a plain byte stream that has the same bytes left.\<close>

definition stream_of :: "('r \<Rightarrow> byte list) \<Rightarrow> 'r Reader \<Rightarrow> bytes_reader Reader" where
  "stream_of left tr = \<lparr>tr_r = new_bytes_reader (left (tr_r tr)), tr_pad = tr_pad tr, tr_curr = tr_curr tr,
     tr_blk = tr_blk tr, tr_err = tr_err tr\<rparr>"

lemma sim_stream_of: "sim ok left fins tr (stream_of left tr) \<longleftrightarrow> ok (tr_r tr) \<and> fins (tr_r tr) \<subseteq> {EOF}"
  by (auto simp: sim_def stream_of_def)


section \<open>The contract of Next over any reader\<close>

text \<open>
  C4. What \<^verbatim>\<open>Next\<close> returns, and the state it leaves the \<^verbatim>\<open>Reader\<close> in, depend
  only on the bytes the underlying \<^verbatim>\<open>io.Reader\<close> has left, not on the pieces in which it
  delivers them: over every reader without \<^verbatim>\<open>Seek\<close> that keeps the contract and ends with
  \<^verbatim>\<open>io.EOF\<close>, \<^verbatim>\<open>Next\<close> refines \<^verbatim>\<open>Next\<close> over a plain byte
  stream with the same bytes.
\<close>

theorem Next_refines_stream:
  assumes "seekless_reader ops ok left fins" "ok (tr_r tr)" "fins (tr_r tr) \<subseteq> {EOF}" "length (left (tr_r tr)) < fuel"
  shows "agree ok left fins (Reader_Next ops fuel tr) (Reader_Next stream_ops fuel (stream_of left tr))"
  by (rule seekless_reader.sim_Reader_Next [OF assms(1) _ assms(4)]) (simp add: sim_stream_of assms)

text \<open>A reader that delivers one byte at a time, as \<^verbatim>\<open>iotest.OneByteReader\<close>.\<close>

definition one_byte_ops :: "bytes_reader io_reader_ops" where
  "one_byte_ops = \<lparr>op_read = (\<lambda>s n. bytes_reader_Read s (min n 1)), op_seek = None\<rparr>"

interpretation one_byte: seekless_reader one_byte_ops "\<lambda>_. True" bytes_left "\<lambda>_. {EOF}"
proof (intro seekless_reader.intro seekless_reader_axioms.intro io_readerI)
  fix s n bs e s'
  assume "op_read one_byte_ops s n = (bs, e, s')"
  then have "bytes_reader_Read s (min n 1) = (bs, e, s')" by (simp add: one_byte_ops_def)
  from bytes_left_read [OF this] show "True \<and> bytes_left s = bs @ bytes_left s' \<and> length bs \<le> n \<and> {EOF} \<subseteq> {EOF} \<and>
      (e = None \<longrightarrow> 0 < n \<longrightarrow> bs \<noteq> []) \<and> (\<forall>x. e = Some x \<longrightarrow> bytes_left s' = [] \<and> x \<in> {EOF})"
    by auto
qed (simp add: one_byte_ops_def)

theorem Next_refines_stream_witness:
  "fst (Reader_Next one_byte_ops 1025 (NewReader (new_bytes_reader (replicate 1024 0)))) =
   fst (Reader_Next stream_ops 1025 (stream_of bytes_left (NewReader (new_bytes_reader (replicate 1024 0)))))"
  using Next_refines_stream [OF one_byte.seekless_reader_axioms TrueI subset_refl,
      of "NewReader (new_bytes_reader (replicate 1024 0))" 1025]
  by (simp add: NewReader_def agree_def)



section \<open>Well-formed readers\<close>

text \<open>
  The type invariant of a \<^verbatim>\<open>Reader\<close>: the buffer is a block, the padding is less than a
  block, the data section has a size, and a nil sparse file reader is there only after an error.
\<close>

definition wf_reader :: "'r Reader \<Rightarrow> bool" where
  "wf_reader tr \<longleftrightarrow> length (tr_blk tr) = 512 \<and> 0 \<le> tr_pad tr \<and> tr_pad tr < 512 \<and> 0 \<le> numBytes (tr_curr tr) \<and>
     (tr_curr tr = CurrSparseNil \<longrightarrow> tr_err tr \<noteq> None)"

text \<open>The part of it that holds inside \<^verbatim>\<open>Next\<close> before the error is stored.\<close>

definition wf_inner :: "'r Reader \<Rightarrow> bool" where
  "wf_inner tr \<longleftrightarrow> length (tr_blk tr) = 512 \<and> 0 \<le> tr_pad tr \<and> tr_pad tr < 512 \<and> 0 \<le> numBytes (tr_curr tr)"

lemma pad_range: "0 \<le> (- nb :: int) AND 511" "(- nb :: int) AND 511 < 512"
proof -
  have "(- nb) AND 511 = (- nb) mod 512"
    using take_bit_eq_mask [of 9 "- nb"] by (simp add: take_bit_eq_mod mask_eq_exp_minus_1)
  then show "0 \<le> (- nb :: int) AND 511" "(- nb :: int) AND 511 < 512" by simp_all
qed

lemma wf_regular: "handleRegularFile hdr tr = (e, tr') \<Longrightarrow> wf_inner tr \<Longrightarrow> wf_inner tr'"
  using pad_range by (auto simp: handleRegularFile_def wf_inner_def Let_def split: if_splits)

lemma stream_wf_skip: "skipUnread stream_ops tc = (e, tc') \<Longrightarrow> wf_inner tc \<Longrightarrow> wf_inner tc'"
  by (auto simp: skipUnread_def wf_inner_def Let_def split: sum.splits prod.splits)

lemma stream_wf_block: "read_block stream_ops tc = (e, tc') \<Longrightarrow> wf_inner tc \<Longrightarrow> wf_inner tc'"
  by (rule stream.ReadFull_exact [OF TrueI subset_refl, of "tr_r tc" 512])
    (auto simp: read_block_def wf_inner_def copy_into_def)

lemma stream_wf_header: "readHeader stream_ops tc = (res, tc') \<Longrightarrow> wf_inner tc \<Longrightarrow> wf_inner tc'"
  by (auto simp: readHeader_def split: prod.splits option.splits if_splits dest!: stream_wf_block)

lemma stream_wf_old: "old_sparse_loop stream_ops fuel s sp tc = (res, tc') \<Longrightarrow> wf_inner tc \<Longrightarrow>
    wf_inner tc' \<and> tr_curr tc' = tr_curr tc"
proof (induction fuel arbitrary: s sp tc)
  case 0
  then show ?case by (subst (asm) old_sparse_loop.simps) (auto split: sum.splits if_splits)
next
  case (Suc fuel)
  obtain e tc1 where rb: "read_block stream_ops tc = (e, tc1)" by fastforce
  have "wf_inner tc1" "tr_curr tc1 = tr_curr tc"
    using stream_wf_block [OF rb Suc.prems(2)] rb by (auto simp: read_block_def split: prod.splits)
  then show ?case
    using Suc rb
    by (auto simp: old_sparse_loop.simps [of stream_ops "Suc fuel" s sp tc] split: sum.splits if_splits option.splits)
qed

lemma stream_wf_check:
  assumes "checkForGNUSparsePAXHeaders stream_ops fuel hdr ext tc = (res, tc')" "wf_inner tc" "tr_curr tc = CurrReg nb"
  shows "wf_inner tc'"
proof -
  have "0 \<le> nb" using assms(2,3) by (simp add: wf_inner_def)
  then obtain r1 c1 nb1 where
      "readGNUSparseMap1x0 (curr_ops stream_ops) fuel (tr_r tc, CurrReg nb) = (r1, (c1, CurrReg nb1))" "0 \<le> nb1"
    using stream.sim_readGNUSparseMap1x0 [OF TrueI subset_refl refl, of nb fuel "tr_r tc"] by blast
  then show ?thesis
    using assms by (auto simp: checkForGNUSparsePAXHeaders_def wf_inner_def split: option.splits sum.splits if_splits)
qed

lemma stream_wf_sparse:
  assumes "handleSparseFile stream_ops fuel hdr ext tc = (res, tc')" "wf_inner tc" "tr_curr tc = CurrReg nb"
  shows "wf_inner tc' \<and> (tr_curr tc' = CurrSparseNil \<longrightarrow> (\<exists>e. res = Inl e))"
proof -
  define q where "q = (if h_Typeflag hdr = TypeGNUSparse then
              case readOldGNUSparseMap stream_ops fuel hdr tc of
                (Inl e, tr1) \<Rightarrow> (Inl e, tr1)
              | (Inr (hdr', sp), tr1) \<Rightarrow> (Inr (hdr', Some sp), tr1)
            else checkForGNUSparsePAXHeaders stream_ops fuel hdr ext tc)"
  obtain x tc1 where q: "q = (x, tc1)" by fastforce
  have w: "wf_inner tc1"
  proof (cases "h_Typeflag hdr = TypeGNUSparse")
    case True
    then show ?thesis using q assms(2) stream_wf_old [of fuel _ _ tc]
      by (auto simp: q_def readOldGNUSparseMap_def Let_def split: if_splits option.splits prod.splits sum.splits)
  next
    case False
    then show ?thesis using q assms(2,3) stream_wf_check by (auto simp: q_def)
  qed
  have n: "tr_curr tc1 \<noteq> CurrSparseNil" if "x = Inr y" for y
  proof (cases "h_Typeflag hdr = TypeGNUSparse")
    case True
    then show ?thesis using q assms(2,3) stream_wf_old [of fuel _ _ tc]
      by (auto simp: q_def readOldGNUSparseMap_def Let_def split: if_splits option.splits prod.splits sum.splits)
  next
    case False
    have "0 \<le> nb" using assms(2,3) by (simp add: wf_inner_def)
    then obtain r1 c1 nb1 where
        "readGNUSparseMap1x0 (curr_ops stream_ops) fuel (tr_r tc, CurrReg nb) = (r1, (c1, CurrReg nb1))"
      using stream.sim_readGNUSparseMap1x0 [OF TrueI subset_refl refl, of nb fuel "tr_r tc"] by blast
    then show ?thesis using q assms(3) False
      by (auto simp: q_def checkForGNUSparsePAXHeaders_def split: if_splits option.splits sum.splits)
  qed
  show ?thesis
    using assms(1) w n unfolding handleSparseFile_def q_def [symmetric] q
    by (auto simp: wf_inner_def newSparseFileReader_def split: sum.splits option.splits if_splits)
qed

lemma stream_wf_finish:
  assumes "finish_file stream_ops fuel hdr ext tc = (res, tc')" "wf_inner tc" "tr_curr tc \<noteq> CurrSparseNil"
  shows "wf_inner tc' \<and> (tr_curr tc' = CurrSparseNil \<longrightarrow> (\<exists>e. res = Inl e))"
proof (cases "mergePAX hdr ext")
  case (Inr h)
  obtain e tc1 where r: "handleRegularFile h tc = (e, tc1)" by fastforce
  show ?thesis
  proof (cases e)
    case None
    obtain nb where "tr_curr tc1 = CurrReg nb" using stream.handleRegularFile_curr r None by blast
    then show ?thesis
      using stream_wf_sparse wf_regular [OF r assms(2)] assms(1) r None Inr by (simp add: finish_file_def)
  qed (use assms Inr r wf_regular [OF r] in \<open>auto simp: finish_file_def\<close>)
qed (use assms in \<open>simp add: finish_file_def\<close>)

lemma stream_wf_ReadAll:
  assumes "ReadAll (tr_ops stream_ops) fuel tc [] = (bs, e, tc')" "wf_inner tc" "tr_curr tc = CurrReg nb" "tr_err tc = None"
    and "length (bytes_left (tr_r tc)) < fuel"
  shows "wf_inner tc' \<and> tr_curr tc' \<noteq> CurrSparseNil"
proof -
  have nb: "0 \<le> nb" and f: "length (take (nat nb) (bytes_left (tr_r tc))) < fuel"
    using assms by (auto simp: wf_inner_def)
  show ?thesis
    using stream.ReadAll_reg [OF TrueI subset_refl assms(3) nb assms(4) f, of "[]"] assms(1,2) nb
    by (auto simp: wf_inner_def)
qed

lemma stream_wf_next:
  "Reader_next stream_ops fuel ext tc = (res, tc') \<Longrightarrow> wf_inner tc \<Longrightarrow> tr_curr tc \<noteq> CurrSparseNil \<Longrightarrow>
   tr_err tc = None \<Longrightarrow> length (bytes_left (tr_r tc)) < fuel \<Longrightarrow>
   wf_inner tc' \<and> (tr_curr tc' = CurrSparseNil \<longrightarrow> (\<exists>e. res = Inl e))"
proof (induction fuel arbitrary: ext tc)
  case (Suc fuel)
  from same_refl Suc.prems(4) show ?case
  proof (cases rule: plain.sim_entry)
    case (skip e tr1 tc1)
    then show ?thesis using Suc.prems stream_wf_skip by auto
  next
    case (header tr1 tc1 e tr2 tc2)
    then show ?thesis using Suc.prems stream_wf_skip [of tc None tc1] stream_wf_header by auto
  next
    case (regular tr1 tc1 hdr tr2 tc2 e tr3 tc3)
    then show ?thesis
      using Suc.prems wf_regular [OF regular(5)] stream_wf_header [OF regular(3)] stream_wf_skip [OF regular(1)] by auto
  next
    case (data tr1 tc1 hdr tr2 tc2 tr3 tc3 nb)
    have f: "length (bytes_left (tr_r tr3)) < fuel" using data(11) Suc.prems(5) by linarith
    have w: "wf_inner tr3"
      using Suc.prems(2) wf_regular [OF data(5)] stream_wf_header [OF data(3)] stream_wf_skip [OF data(1)] by auto
    obtain bs e tr5 where q: "ReadAll (tr_ops stream_ops) fuel tr3 [] = (bs, e, tr5)"
        "e = None \<longrightarrow> tr_err tr5 = None" "length (bytes_left (tr_r tr5)) < fuel"
      by (rule stream.sim_ReadAll [OF same_refl data(8-10) f])
    note w5 = stream_wf_ReadAll [OF q(1) w data(8,10) f]
    consider (pax) "h_Typeflag hdr = TypeXHeader"
      | (gnu) "h_Typeflag hdr \<noteq> TypeXHeader" "h_Typeflag hdr = TypeGNULongName \<or> h_Typeflag hdr = TypeGNULongLink"
      | (other) "h_Typeflag hdr \<noteq> TypeXHeader" "\<not> (h_Typeflag hdr = TypeGNULongName \<or> h_Typeflag hdr = TypeGNULongLink)"
      by blast
    then show ?thesis
    proof cases
      case pax
      then show ?thesis using data q w5 Suc.prems Suc.IH [of _ tr5]
        by (cases e) (auto simp: parsePAX_def split: sum.splits)
    next
      case gnu
      then show ?thesis using data q w5 Suc.prems Suc.IH [of _ tr5] by (cases e) auto
    next
      case other
      then show ?thesis using data stream_wf_finish [OF _ w] Suc.prems by simp
    qed
  qed
qed simp


lemma NewReader_wf: "wf_reader (NewReader r)"
  by (simp add: wf_reader_def NewReader_def zeroBlock_def)

lemma stream_wf_Next:
  assumes "Reader_Next stream_ops fuel tc = (res, tc')" "wf_reader tc" "length (bytes_left (tr_r tc)) < fuel"
  shows "wf_reader tc'"
proof (cases "tr_err tc")
  case None
  obtain res1 tc1 where n: "Reader_next stream_ops fuel [] tc = (res1, tc1)" by fastforce
  have "wf_inner tc1 \<and> (tr_curr tc1 = CurrSparseNil \<longrightarrow> (\<exists>e. res1 = Inl e))"
    by (rule stream_wf_next [OF n _ _ None assms(3)]) (use assms(2) None in \<open>auto simp: wf_reader_def wf_inner_def\<close>)
  then show ?thesis
    using assms(1) n None by (auto simp: Reader_Next_def wf_reader_def wf_inner_def split: sum.splits)
qed (use assms in \<open>auto simp: Reader_Next_def\<close>)

lemma agree_wf:
  assumes "agree ok left fins a c" "wf_reader (snd c)"
  shows "wf_reader (snd a)"
  using assms by (simp add: agree_def sim_def wf_reader_def)

context seekless_reader
begin

lemma wf_Next:
  assumes "ok (tr_r tr)" "fins (tr_r tr) \<subseteq> {EOF}" "length (left (tr_r tr)) < fuel" "wf_reader tr"
  shows "wf_reader (snd (Reader_Next ops fuel tr))"
    and "ok (tr_r (snd (Reader_Next ops fuel tr)))" "fins (tr_r (snd (Reader_Next ops fuel tr))) \<subseteq> {EOF}"
proof -
  have a: "agree ok left fins (Reader_Next ops fuel tr) (Reader_Next stream_ops fuel (stream_of left tr))"
    by (rule sim_Reader_Next [OF _ assms(3)]) (simp add: sim_stream_of assms)
  obtain res tc' where n: "Reader_Next stream_ops fuel (stream_of left tr) = (res, tc')" by fastforce
  have "wf_reader tc'"
    by (rule stream_wf_Next [OF n]) (use assms(3,4) in \<open>simp_all add: stream_of_def wf_reader_def\<close>)
  then show "wf_reader (snd (Reader_Next ops fuel tr))" using agree_wf [OF a] n by simp
  show "ok (tr_r (snd (Reader_Next ops fuel tr)))" "fins (tr_r (snd (Reader_Next ops fuel tr))) \<subseteq> {EOF}"
    using a by (auto simp: agree_def sim_def)
qed

lemma wf_Read:
  assumes "ok (tr_r tr)" "wf_reader tr" "Reader_Read ops tr n = (bs, e, tr')"
  shows "wf_reader tr'" "ok (tr_r tr')"
proof -
  have "wf_reader tr' \<and> ok (tr_r tr')"
  proof (cases "tr_err tr = None \<and> tr_curr tr \<noteq> CurrNil")
    case True
    obtain bs' e' r' c' where rd: "curr_Read ops (tr_r tr) (tr_curr tr) n = (bs', e', r', c')"
      by (cases "curr_Read ops (tr_r tr) (tr_curr tr) n")
    have "0 \<le> numBytes (tr_curr tr)" "tr_curr tr \<noteq> CurrSparseNil" using assms(2) True by (auto simp: wf_reader_def)
    moreover have "c' \<noteq> CurrSparseNil"
      using rd \<open>tr_curr tr \<noteq> CurrSparseNil\<close> by (auto simp: curr_Read_def split: curr_reader.splits prod.splits)
    ultimately show ?thesis
      using curr_frame [OF assms(1) _ rd] assms(2,3) rd True by (auto simp: Reader_Read_def wf_reader_def)
  qed (use assms in \<open>auto simp: Reader_Read_def split: if_splits\<close>)
  then show "wf_reader tr'" "ok (tr_r tr')" by auto
qed

end

text \<open>
  C5. The type invariant of a \<^verbatim>\<open>Reader\<close> holds initially and is kept by \<^verbatim>\<open>Next\<close>
  and \<^verbatim>\<open>Read\<close>, over every reader without \<^verbatim>\<open>Seek\<close> and on every archive, however
  malformed: the buffer has the size of a block, the padding is less than one, the number of
  bytes to skip is not negative, and the nil sparse file reader that a failing
  \<^verbatim>\<open>newSparseFileReader\<close> leaves behind is never used, since the error is there first.
\<close>

theorem Reader_wf:
  assumes "seekless_reader ops ok left fins" "ok (tr_r tr)" "fins (tr_r tr) \<subseteq> {EOF}" "length (left (tr_r tr)) < fuel"
    and "wf_reader tr"
  shows "wf_reader (NewReader r) \<and> wf_reader (snd (Reader_Next ops fuel tr)) \<and> wf_reader (snd (snd (Reader_Read ops tr n)))"
proof -
  obtain bs e tr' where rd: "Reader_Read ops tr n = (bs, e, tr')" by (cases "Reader_Read ops tr n")
  show ?thesis
    using NewReader_wf [of r] seekless_reader.wf_Next(1) [OF assms]
      seekless_reader.wf_Read(1) [OF assms(1,2,5) rd] by (simp add: rd)
qed

theorem Reader_wf_witness:
  "wf_reader (snd (Reader_Next one_byte_ops 1025 (NewReader (new_bytes_reader (replicate 1024 7)))))"
  using Reader_wf [OF one_byte.seekless_reader_axioms TrueI subset_refl _ NewReader_wf,
      of "new_bytes_reader (replicate 1024 7)" 1025 "new_bytes_reader []" 1]
  by (simp add: NewReader_def)

section \<open>The buffer is scratch space\<close>

text \<open>The contents of the buffer between calls do not matter.\<close>

lemma stream_skip_blk:
  "skipUnread stream_ops (tc\<lparr>tr_blk := b\<rparr>) = (case skipUnread stream_ops tc of (e, tc') \<Rightarrow> (e, tc'\<lparr>tr_blk := b\<rparr>))"
  by (auto simp: skipUnread_def Let_def split: sum.splits prod.splits)

lemma stream_header_blk:
  assumes "readHeader stream_ops tc = (res, tc')" "length (tr_blk tc) = 512" "length b = 512"
  shows "\<exists>b'. readHeader stream_ops (tc\<lparr>tr_blk := b\<rparr>) = (res, tc'\<lparr>tr_blk := b'\<rparr>) \<and>
    ((\<exists>h. res = Inr h) \<longrightarrow> b' = tr_blk tc')"
proof (rule stream.ReadFull_exact [OF TrueI subset_refl, of "tr_r tc" 512])
  fix s'
  let ?L = "bytes_left (tr_r tc)"
  assume rf: "ReadFull stream_ops (tr_r tc) 512 =
      (take 512 ?L, if 512 \<le> length ?L then None else Some (if ?L = [] then EOF else ErrUnexpectedEOF), s')"
  show ?thesis
  proof (cases "512 \<le> length ?L")
    case True
    then have "read_block stream_ops (tc\<lparr>tr_blk := b\<rparr>) = read_block stream_ops tc"
      using rf assms(2,3) by (simp add: read_block_def copy_into_def)
    then have "readHeader stream_ops (tc\<lparr>tr_blk := b\<rparr>) = (res, tc')" using assms(1) by (simp add: readHeader_def)
    then show ?thesis by (intro exI [of _ "tr_blk tc'"]) simp
  next
    case False
    then show ?thesis using rf assms(1) by (auto simp: readHeader_def read_block_def)
  qed
qed

lemma stream_next_blk:
  assumes "Reader_next stream_ops fuel ext tc = (res, tc')" "length (tr_blk tc) = 512" "length b = 512"
  shows "\<exists>b'. Reader_next stream_ops fuel ext (tc\<lparr>tr_blk := b\<rparr>) = (res, tc'\<lparr>tr_blk := b'\<rparr>)"
proof (cases fuel)
  case (Suc n)
  obtain o1 tc1 where 1: "skipUnread stream_ops tc = (o1, tc1)" by fastforce
  have l: "length (tr_blk tc1) = 512" using 1 assms(2) by (auto simp: skipUnread_def Let_def split: sum.splits prod.splits)
  obtain o2 tc2 where 2: "readHeader stream_ops tc1 = (o2, tc2)" by fastforce
  obtain b2 where b2: "readHeader stream_ops (tc1\<lparr>tr_blk := b\<rparr>) = (o2, tc2\<lparr>tr_blk := b2\<rparr>)"
      "(\<exists>h. o2 = Inr h) \<longrightarrow> b2 = tr_blk tc2"
    using stream_header_blk [OF 2 l assms(3)] by blast
  show ?thesis
  proof (cases o1)
    case (Some e)
    then show ?thesis using assms(1) 1 Suc by (auto simp: stream_skip_blk)
  next
    case None
    show ?thesis
    proof (cases o2)
      case (Inl e)
      then show ?thesis using assms(1) 1 2 b2(1) Suc None by (auto simp: stream_skip_blk intro: exI [of _ b2])
    next
      case (Inr h)
      then have "Reader_next stream_ops fuel ext (tc\<lparr>tr_blk := b\<rparr>) = Reader_next stream_ops fuel ext tc"
        using 1 2 b2 Suc None by (simp add: stream_skip_blk)
      then show ?thesis using assms(1) by (intro exI [of _ "tr_blk tc'"]) simp
    qed
  qed
qed (use assms in auto)

lemma stream_Next_blk:
  assumes "Reader_Next stream_ops fuel tc = (res, tc')" "length (tr_blk tc) = 512" "length b = 512"
  shows "\<exists>b'. Reader_Next stream_ops fuel (tc\<lparr>tr_blk := b\<rparr>) = (res, tc'\<lparr>tr_blk := b'\<rparr>)"
proof (cases "tr_err tc")
  case None
  obtain res1 tc1 where 1: "Reader_next stream_ops fuel [] tc = (res1, tc1)" by fastforce
  obtain b' where b': "Reader_next stream_ops fuel [] (tc\<lparr>tr_blk := b\<rparr>) = (res1, tc1\<lparr>tr_blk := b'\<rparr>)"
    using stream_next_blk [OF 1 assms(2,3)] by blast
  then show ?thesis using assms(1) 1 None
    by (cases res1) (auto simp: Reader_Next_def intro!: exI [of _ b'])
qed (use assms in \<open>auto simp: Reader_Next_def\<close>)

end
