(* ===== verification/Tar_Checkpoint.thy ===== *)
theory Tar_Checkpoint
  imports Tar_Total
begin

text \<open>
  The checkpoints of \<^verbatim>\<open>tar/reader.go\<close>: \<^verbatim>\<open>countingReader\<close>,
  \<^verbatim>\<open>SaverReader\<close>, \<^verbatim>\<open>Save\<close> and \<^verbatim>\<open>Resume\<close>.

  A \<^verbatim>\<open>saverReader\<close> holds a pointer to a \<^verbatim>\<open>Reader\<close> and one to the counting
  reader that the \<^verbatim>\<open>Reader\<close> reads from. The two are the same object, so the state of
  a saver is the state of its \<^verbatim>\<open>Reader\<close>, with the counting reader as its component
  \<open>tr_r\<close>. A counting reader has no \<^verbatim>\<open>Seek\<close> method, whatever it reads from.
\<close>

section \<open>Definitions\<close>

record 'r countingReader =
  cr_r :: 'r
  cr_count :: int

definition countingReader_Read :: "'r io_reader_ops \<Rightarrow> 'r countingReader \<Rightarrow> nat
    \<Rightarrow> byte list \<times> go_error option \<times> 'r countingReader" where
  "countingReader_Read ops cr n =
     (case op_read ops (cr_r cr) n of
        (bs, e, r') \<Rightarrow> (bs, e, cr\<lparr>cr_r := r', cr_count := i64 (cr_count cr + int (length bs))\<rparr>))"

definition counting_ops :: "'r io_reader_ops \<Rightarrow> 'r countingReader io_reader_ops" where
  "counting_ops ops = \<lparr>op_read = countingReader_Read ops, op_seek = None\<rparr>"

type_synonym 'r saverReader = "'r countingReader Reader"

definition CurrTypeNone :: int where "CurrTypeNone = 0"
definition CurrTypeReg :: int where "CurrTypeReg = 1"
definition CurrTypeSparse :: int where "CurrTypeSparse = 2"

lemmas CurrTypes = CurrTypeNone_def CurrTypeReg_def CurrTypeSparse_def

record CheckpointSparseEntry =
  cse_Offset :: int
  cse_NumBytes :: int

record Checkpoint =
  c_Roffset :: int
  c_Pad :: int
  c_CurrType :: int
  c_RegNb :: int
  c_SparseSp :: "CheckpointSparseEntry list"
  c_SparsePos :: int
  c_SparseTotal :: int

definition NewSaverReader :: "'r \<Rightarrow> 'r saverReader" where
  "NewSaverReader r = NewReader \<lparr>cr_r = r, cr_count = 0\<rparr>"

definition saverReader_Next :: "'r io_reader_ops \<Rightarrow> nat \<Rightarrow> 'r saverReader \<Rightarrow> Header result \<times> 'r saverReader" where
  "saverReader_Next ops fuel sr = Reader_Next (counting_ops ops) fuel sr"

definition saverReader_Read :: "'r io_reader_ops \<Rightarrow> 'r saverReader \<Rightarrow> nat
    \<Rightarrow> byte list \<times> go_error option \<times> 'r saverReader" where
  "saverReader_Read ops sr n = Reader_Read (counting_ops ops) sr n"

text \<open>
  \<^verbatim>\<open>Save\<close>. The reader inside a sparse file reader is always a regular file reader, so the
  error for another one has no counterpart. The nil pointer of type
  \<^verbatim>\<open>*sparseFileReader\<close> passes the type test and is dereferenced.
\<close>

definition Save :: "'r saverReader \<Rightarrow> Checkpoint result" where
  "Save sr =
     (let c = \<lparr>c_Roffset = cr_count (tr_r sr), c_Pad = tr_pad sr, c_CurrType = CurrTypeNone, c_RegNb = 0,
               c_SparseSp = [], c_SparsePos = 0, c_SparseTotal = 0\<rparr>
      in case tr_curr sr of
           CurrNil \<Rightarrow> Inr c
         | CurrSparse sfr \<Rightarrow>
             Inr (c\<lparr>c_CurrType := CurrTypeSparse, c_RegNb := sfr_nb sfr, c_SparsePos := sfr_pos sfr,
                    c_SparseTotal := sfr_total sfr,
                    c_SparseSp := map (\<lambda>v. \<lparr>cse_Offset = se_offset v, cse_NumBytes = se_numBytes v\<rparr>) (sfr_sp sfr)\<rparr>)
         | CurrReg nb \<Rightarrow> Inr (c\<lparr>c_CurrType := CurrTypeReg, c_RegNb := nb\<rparr>)
         | CurrSparseNil \<Rightarrow> Inl (Panic ''nil pointer dereference''))"

definition Resume :: "Checkpoint \<Rightarrow> 'r \<Rightarrow> 'r saverReader" where
  "Resume c r =
     (let cr = \<lparr>cr_r = r, cr_count = c_Roffset c\<rparr>;
          tr = \<lparr>tr_r = cr, tr_pad = c_Pad c, tr_curr = CurrNil, tr_blk = zeroBlock, tr_err = None\<rparr>
      in if c_CurrType c = CurrTypeReg then tr\<lparr>tr_curr := CurrReg (c_RegNb c)\<rparr>
         else if c_CurrType c = CurrTypeSparse then
           tr\<lparr>tr_curr := CurrSparse
             \<lparr>sfr_nb = c_RegNb c,
              sfr_sp = map (\<lambda>v. \<lparr>se_offset = cse_Offset v, se_numBytes = cse_NumBytes v\<rparr>) (c_SparseSp c),
              sfr_pos = c_SparsePos c, sfr_total = c_SparseTotal c\<rparr>\<rparr>
         else tr)"

section \<open>The counting reader keeps the reader contract\<close>

text \<open>The count of a reader of an archive is the offset of what is left to read.\<close>

definition count_ok :: "('r \<Rightarrow> bool) \<Rightarrow> ('r \<Rightarrow> byte list) \<Rightarrow> byte list \<Rightarrow> 'r countingReader \<Rightarrow> bool" where
  "count_ok ok left a cr \<longleftrightarrow> ok (cr_r cr) \<and> 0 \<le> cr_count cr \<and> cr_count cr \<le> int (length a) \<and>
     int (length a) < 9223372036854775808 \<and> left (cr_r cr) = drop (nat (cr_count cr)) a"

lemma count_ok_left:
  "count_ok ok left a cr \<Longrightarrow> cr_count cr = int (length a) - int (length (left (cr_r cr)))"
  by (auto simp: count_ok_def)

context io_reader
begin

lemma counting_Read_laws:
  assumes "count_ok ok left a cr" "countingReader_Read ops cr n = (bs, e, cr')"
  shows "count_ok ok left a cr'" "left (cr_r cr) = bs @ left (cr_r cr')" "length bs \<le> n"
    and "fins (cr_r cr') \<subseteq> fins (cr_r cr)" "e = None \<Longrightarrow> 0 < n \<Longrightarrow> bs \<noteq> []"
    and "e = Some x \<Longrightarrow> left (cr_r cr') = [] \<and> x \<in> fins (cr_r cr)"
proof -
  obtain r' where rd: "op_read ops (cr_r cr) n = (bs, e, r')"
      and cr': "cr' = cr\<lparr>cr_r := r', cr_count := i64 (cr_count cr + int (length bs))\<rparr>"
    using assms(2) by (auto simp: countingReader_Read_def split: prod.splits)
  have ok: "ok (cr_r cr)" using assms(1) by (simp add: count_ok_def)
  note laws = read_laws [OF ok rd]
  have d: "bs @ left r' = drop (nat (cr_count cr)) a" using laws(2) assms(1) by (simp add: count_ok_def)
  from arg_cong [OF d, of length] have len: "int (length bs) + int (length (left r')) = int (length a) - cr_count cr"
    using assms(1) by (auto simp: count_ok_def)
  have "left r' = drop (length bs) (drop (nat (cr_count cr)) a)" using d by (metis append_eq_conv_conj)
  then have "left r' = drop (nat (cr_count cr + int (length bs))) a"
    using assms(1) by (simp add: count_ok_def nat_add_distrib add.commute)
  moreover have "i64 (cr_count cr + int (length bs)) = cr_count cr + int (length bs)"
    using assms(1) len by (intro i64_id) (auto simp: in_i64_def count_ok_def)
  ultimately show "count_ok ok left a cr'"
    using assms(1) laws(1) len by (auto simp: cr' count_ok_def)
  show "left (cr_r cr) = bs @ left (cr_r cr')" "length bs \<le> n" "fins (cr_r cr') \<subseteq> fins (cr_r cr)"
    using laws by (simp_all add: cr')
  show "e = None \<Longrightarrow> 0 < n \<Longrightarrow> bs \<noteq> []" using read_progress [OF ok] rd by blast
  show "e = Some x \<Longrightarrow> left (cr_r cr') = [] \<and> x \<in> fins (cr_r cr)" using read_end [OF ok] rd by (auto simp: cr')
qed

lemma counting_reader:
  "seekless_reader (counting_ops ops) (count_ok ok left a) (\<lambda>cr. left (cr_r cr)) (\<lambda>cr. fins (cr_r cr))"
proof (intro seekless_reader.intro seekless_reader_axioms.intro io_readerI)
  fix cr n bs e cr'
  assume ok: "count_ok ok left a cr" and "op_read (counting_ops ops) cr n = (bs, e, cr')"
  then have "countingReader_Read ops cr n = (bs, e, cr')" by (simp add: counting_ops_def)
  note laws = counting_Read_laws [OF ok this]
  show "count_ok ok left a cr' \<and> left (cr_r cr) = bs @ left (cr_r cr') \<and> length bs \<le> n \<and>
      fins (cr_r cr') \<subseteq> fins (cr_r cr) \<and> (e = None \<longrightarrow> 0 < n \<longrightarrow> bs \<noteq> []) \<and>
      (\<forall>x. e = Some x \<longrightarrow> left (cr_r cr') = [] \<and> x \<in> fins (cr_r cr))"
    using laws(1,3-6) laws(2) by auto
qed (simp add: counting_ops_def)

end

interpretation counted: seekless_reader "counting_ops stream_ops" "count_ok (\<lambda>_. True) bytes_left a"
  "\<lambda>cr. bytes_left (cr_r cr)" "\<lambda>_. {EOF}" for a
  by (rule stream.counting_reader)

section \<open>Sessions\<close>

datatype saver_call = CallNext | CallRead nat | CallSave

datatype saver_out = OutNext "Header result" | OutRead "byte list" "go_error option" | OutSave "Checkpoint result"

text \<open>The results of a sequence of calls.\<close>

fun run_saver :: "'r io_reader_ops \<Rightarrow> nat \<Rightarrow> saver_call list \<Rightarrow> 'r saverReader \<Rightarrow> saver_out list" where
  "run_saver ops fuel [] sr = []"
| "run_saver ops fuel (CallNext # cs) sr =
     (case saverReader_Next ops fuel sr of (res, sr') \<Rightarrow> OutNext res # run_saver ops fuel cs sr')"
| "run_saver ops fuel (CallRead n # cs) sr =
     (case saverReader_Read ops sr n of (bs, e, sr') \<Rightarrow> OutRead bs e # run_saver ops fuel cs sr')"
| "run_saver ops fuel (CallSave # cs) sr = OutSave (Save sr) # run_saver ops fuel cs sr"

text \<open>The states a saver of the archive \<open>a\<close> can be in.\<close>

inductive saver_reach :: "byte list \<Rightarrow> bytes_reader saverReader \<Rightarrow> bool" for a where
  reach_new: "saver_reach a (NewSaverReader (new_bytes_reader a))"
| reach_next: "saver_reach a sr \<Longrightarrow> length a < fuel \<Longrightarrow> saver_reach a (snd (saverReader_Next stream_ops fuel sr))"
| reach_read: "saver_reach a sr \<Longrightarrow> saver_reach a (snd (snd (saverReader_Read stream_ops sr n)))"

lemma saver_reach_inv:
  assumes "saver_reach a sr" "int (length a) < 9223372036854775808"
  shows "count_ok (\<lambda>_. True) bytes_left a (tr_r sr) \<and> wf_reader sr"
  using assms(1)
proof induction
  case reach_new
  then show ?case using NewReader_wf assms(2)
    by (auto simp: NewSaverReader_def count_ok_def NewReader_def wf_reader_def)
next
  case (reach_next sr fuel)
  then have "length (bytes_left (cr_r (tr_r sr))) < fuel" by (auto simp: count_ok_def)
  then show ?case
    using counted.wf_Next [of a sr fuel] reach_next by (simp add: saverReader_Next_def)
next
  case (reach_read sr n)
  obtain bs e sr' where rd: "Reader_Read (counting_ops stream_ops) sr n = (bs, e, sr')"
    by (cases "Reader_Read (counting_ops stream_ops) sr n")
  then show ?case
    using counted.wf_Read [OF _ _ rd, of a] reach_read by (simp add: saverReader_Read_def)
qed

text \<open>
  C6. The offset stored in a checkpoint is the position of the archive: in every state a saver
  reaches by calls of \<^verbatim>\<open>Next\<close> and \<^verbatim>\<open>Read\<close>, on every archive, the underlying reader
  has exactly the bytes from \<^verbatim>\<open>Roffset\<close> on left, and \<^verbatim>\<open>Save\<close> panics only
  after a failed \<^verbatim>\<open>Next\<close> or \<^verbatim>\<open>Read\<close>.
\<close>

theorem Save_offset:
  assumes "saver_reach a sr" "int (length a) < 9223372036854775808"
  shows "(\<forall>c. Save sr = Inr c \<longrightarrow> 0 \<le> c_Roffset c \<and> bytes_left (cr_r (tr_r sr)) = drop (nat (c_Roffset c)) a) \<and>
    (tr_err sr = None \<longrightarrow> (\<exists>c. Save sr = Inr c))"
  using saver_reach_inv [OF assms]
  by (auto simp: Save_def Let_def count_ok_def wf_reader_def split: curr_reader.splits)

theorem Save_offset_witness:
  "let sr = snd (saverReader_Next stream_ops 1025 (NewSaverReader (new_bytes_reader (replicate 1024 7)))) in
   \<forall>c. Save sr = Inr c \<longrightarrow> bytes_left (cr_r (tr_r sr)) = drop (nat (c_Roffset c)) (replicate 1024 7)"
proof -
  let ?a = "replicate 1024 7 :: byte list"
  have "saver_reach ?a (snd (saverReader_Next stream_ops 1025 (NewSaverReader (new_bytes_reader ?a))))"
    by (intro reach_next reach_new) simp
  from Save_offset [OF this] show ?thesis by (simp add: Let_def)
qed

section \<open>Resuming\<close>

text \<open>Savers that differ in the contents of their buffer and the way they read what is left.\<close>

definition saver_sim :: "byte list \<Rightarrow> bytes_reader saverReader \<Rightarrow> bytes_reader saverReader \<Rightarrow> bool" where
  "saver_sim a s t \<longleftrightarrow> count_ok (\<lambda>_. True) bytes_left a (tr_r s) \<and> wf_reader s \<and>
     int (length a) < 9223372036854775808 \<and>
     bytes_left (cr_r (tr_r t)) = bytes_left (cr_r (tr_r s)) \<and> cr_count (tr_r t) = cr_count (tr_r s) \<and>
     tr_pad t = tr_pad s \<and> tr_curr t = tr_curr s \<and> tr_err t = tr_err s \<and> length (tr_blk t) = 512"

lemma saver_sim_ok: "saver_sim a s t \<Longrightarrow> count_ok (\<lambda>_. True) bytes_left a (tr_r t) \<and> wf_reader t"
  by (auto simp: saver_sim_def count_ok_def wf_reader_def)

lemma saver_sim_count:
  assumes "count_ok (\<lambda>_. True) bytes_left a c" "count_ok (\<lambda>_. True) bytes_left a d" "bytes_left (cr_r d) = bytes_left (cr_r c)"
  shows "cr_count d = cr_count c"
  using count_ok_left [OF assms(1)] count_ok_left [OF assms(2)] assms(3) by simp

lemma saver_sim_Next:
  assumes "saver_sim a s t" "length a < fuel"
  shows "fst (saverReader_Next stream_ops fuel t) = fst (saverReader_Next stream_ops fuel s) \<and>
    saver_sim a (snd (saverReader_Next stream_ops fuel s)) (snd (saverReader_Next stream_ops fuel t))"
proof -
  let ?left = "\<lambda>cr. bytes_left (cr_r cr)"
  let ?ok = "count_ok (\<lambda>_. True) bytes_left a"
  have ok: "?ok (tr_r s)" "?ok (tr_r t)" "wf_reader s" "wf_reader t"
    using assms(1) saver_sim_ok [OF assms(1)] by (auto simp: saver_sim_def)
  then have f: "length (?left (tr_r s)) < fuel" "length (?left (tr_r t)) < fuel" using assms(2) by (auto simp: count_ok_def)
  have as: "agree ?ok ?left (\<lambda>_. {EOF}) (Reader_Next (counting_ops stream_ops) fuel s) (Reader_Next stream_ops fuel (stream_of ?left s))"
    by (rule counted.sim_Reader_Next [OF _ f(1)]) (simp add: sim_stream_of ok)
  have at: "agree ?ok ?left (\<lambda>_. {EOF}) (Reader_Next (counting_ops stream_ops) fuel t) (Reader_Next stream_ops fuel (stream_of ?left t))"
    by (rule counted.sim_Reader_Next [OF _ f(2)]) (simp add: sim_stream_of ok)
  have "stream_of ?left t = (stream_of ?left s)\<lparr>tr_blk := tr_blk t\<rparr>"
    using assms(1) by (simp add: stream_of_def saver_sim_def)
  moreover obtain res tc where n: "Reader_Next stream_ops fuel (stream_of ?left s) = (res, tc)" by fastforce
  moreover have "length (tr_blk (stream_of ?left s)) = 512" "length (tr_blk t) = 512"
    using ok by (simp_all add: stream_of_def wf_reader_def)
  ultimately obtain b where b: "Reader_Next stream_ops fuel (stream_of ?left t) = (res, tc\<lparr>tr_blk := b\<rparr>)"
    using stream_Next_blk [OF n] by metis
  have w: "wf_reader (snd (Reader_Next (counting_ops stream_ops) fuel s))"
      "wf_reader (snd (Reader_Next (counting_ops stream_ops) fuel t))"
    using counted.wf_Next(1) [OF ok(1) _ f(1) ok(3)] counted.wf_Next(1) [OF ok(2) _ f(2) ok(4)] by auto
  obtain s1 t1 where st: "Reader_Next (counting_ops stream_ops) fuel s = (res, s1)" "Reader_Next (counting_ops stream_ops) fuel t = (res, t1)"
    using as at n b by (cases "Reader_Next (counting_ops stream_ops) fuel s", cases "Reader_Next (counting_ops stream_ops) fuel t") (simp add: agree_def)
  have c: "?ok (tr_r s1)" "?ok (tr_r t1)" "?left (tr_r t1) = ?left (tr_r s1)" "tr_pad t1 = tr_pad s1"
      "tr_curr t1 = tr_curr s1" "tr_err t1 = tr_err s1"
    using as at st n b by (auto simp: agree_def sim_def)
  show ?thesis
    using c saver_sim_count [OF c(1-3)] w st assms(1)
    by (simp add: saverReader_Next_def saver_sim_def wf_reader_def)
qed

text \<open>Reading from two readers that have the same bytes left.\<close>

lemma bytes_reader_Read_left:
  "bytes_reader_Read s n =
     (if bytes_left s = [] then ([], Some EOF, s)
      else (take n (bytes_left s), None, s\<lparr>br_off := br_off s + length (take n (bytes_left s))\<rparr>))"
  by (simp add: bytes_reader_Read_def bytes_left_def Let_def)

lemma bytes_left_forward: "bytes_left (s\<lparr>br_off := br_off s + k\<rparr>) = drop k (bytes_left s)"
  by (simp add: bytes_left_def add.commute)

lemma counting_Read_same:
  assumes "bytes_left (cr_r d) = bytes_left (cr_r c)" "cr_count d = cr_count c"
    and "op_read (counting_ops stream_ops) c n = (bs, e, c')"
  shows "\<exists>d'. op_read (counting_ops stream_ops) d n = (bs, e, d') \<and>
    bytes_left (cr_r d') = bytes_left (cr_r c') \<and> cr_count d' = cr_count c'"
  using assms by (auto simp: counting_ops_def countingReader_Read_def stream_ops_def bytes_reader_Read_left
      bytes_left_forward split: if_splits)

lemma curr_Read_rel:
  assumes rd: "\<And>n bs e r'. op_read ops r n = (bs, e, r') \<Longrightarrow> \<exists>q'. op_read ops q n = (bs, e, q') \<and> R r' q'"
    and R: "R r q" and c: "curr_Read ops r c n = (bs, e, r', c')"
  shows "\<exists>q'. curr_Read ops q c n = (bs, e, q', c') \<and> R r' q'"
proof -
  have reg: "\<exists>q'. regFileReader_Read ops q nb n = (bs, e, q', nb') \<and> R r' q'"
    if "regFileReader_Read ops r nb n = (bs, e, r', nb')" for nb n bs e r' nb'
  proof -
    obtain bs1 e1 r1 where o: "op_read ops r (if nb < int n then nat nb else n) = (bs1, e1, r1)"
      by (cases "op_read ops r (if nb < int n then nat nb else n)")
    from rd [OF this] obtain q1 where "op_read ops q (if nb < int n then nat nb else n) = (bs1, e1, q1)" "R r1 q1" by blast
    with o that R show ?thesis by (auto simp: regFileReader_Read_def Let_def cong: if_cong split: if_splits)
  qed
  show ?thesis
  proof (cases c)
    case (CurrReg nb)
    then show ?thesis using c reg [of nb n] by (fastforce simp: curr_Read_def split: prod.splits)
  next
    case (CurrSparse sfr)
    obtain sfr' where s: "sparseFileReader_Read ops r sfr n = (bs, e, r', sfr')" "c' = CurrSparse sfr'"
      using c CurrSparse by (auto simp: curr_Read_def split: prod.splits)
    have "\<exists>q'. sparseFileReader_Read ops q sfr n = (bs, e, q', sfr') \<and> R r' q'"
    proof (cases "skip_empty (sfr_sp sfr)")
      case Nil
      then show ?thesis using s(1) R
        by (auto simp: sparseFileReader_Read_def Let_def split: if_splits prod.splits)
    next
      case (Cons y ys)
      let ?n = "if i64 (se_end y - sfr_pos sfr) < int n then nat (i64 (se_end y - sfr_pos sfr)) else n"
      obtain bs1 e1 r1 nb1 where o: "regFileReader_Read ops r (sfr_nb sfr) ?n = (bs1, e1, r1, nb1)"
        by (cases "regFileReader_Read ops r (sfr_nb sfr) ?n")
      from reg [OF this] obtain q1 where "regFileReader_Read ops q (sfr_nb sfr) ?n = (bs1, e1, q1, nb1)" "R r1 q1" by blast
      with o s(1) R Cons show ?thesis
        by (auto simp: sparseFileReader_Read_def Let_def cong: if_cong split: prod.splits if_split_asm)
    qed
    then show ?thesis using CurrSparse s(2) by (auto simp: curr_Read_def)
  qed (use c R in \<open>auto simp: curr_Read_def\<close>)
qed

lemma saver_sim_Read:
  assumes "saver_sim a s t" "saverReader_Read stream_ops s n = (bs, e, s')"
  shows "\<exists>t'. saverReader_Read stream_ops t n = (bs, e, t') \<and> saver_sim a s' t'"
proof -
  let ?R = "\<lambda>c d. bytes_left (cr_r d) = bytes_left (cr_r c) \<and> cr_count d = cr_count c"
  have R: "?R (tr_r s) (tr_r t)" using assms(1) by (simp add: saver_sim_def)
  have same: "tr_err t = tr_err s" "tr_curr t = tr_curr s" using assms(1) by (simp_all add: saver_sim_def)
  have inv: "wf_reader s'" "count_ok (\<lambda>_. True) bytes_left a (tr_r s')"
    using counted.wf_Read [of a s n bs e s'] assms by (auto simp: saver_sim_def saverReader_Read_def)
  show ?thesis
  proof (cases "tr_err s = None \<and> tr_curr s \<noteq> CurrNil")
    case True
    obtain r' c' where c: "curr_Read (counting_ops stream_ops) (tr_r s) (tr_curr s) n = (bs, e, r', c')"
        and s': "s' = s\<lparr>tr_r := r', tr_curr := c', tr_err := if e \<noteq> None \<and> e \<noteq> Some EOF then e else tr_err s\<rparr>"
      using assms(2) True by (auto simp: saverReader_Read_def Reader_Read_def split: prod.splits)
    obtain q' where "curr_Read (counting_ops stream_ops) (tr_r t) (tr_curr s) n = (bs, e, q', c')" "?R r' q'"
      using curr_Read_rel [where R = ?R, OF _ R c] counting_Read_same R by blast
    then show ?thesis
      using True same assms(1) inv
      by (auto simp: saverReader_Read_def Reader_Read_def s' saver_sim_def)
  next
    case False
    have "saverReader_Read stream_ops x n = ([], if tr_err x = None then Some EOF else tr_err x, x)"
      if "\<not> (tr_err x = None \<and> tr_curr x \<noteq> CurrNil)" for x :: "bytes_reader saverReader"
      using that by (cases "tr_err x") (auto simp: saverReader_Read_def Reader_Read_def)
    from this [OF False] this [of t] show ?thesis using assms same False by auto
  qed
qed

lemma saver_sim_Save: "saver_sim a s t \<Longrightarrow> Save t = Save s"
  by (simp add: saver_sim_def Save_def)

lemma run_saver_sim:
  assumes "length a < fuel"
  shows "saver_sim a s t \<Longrightarrow> run_saver stream_ops fuel cs t = run_saver stream_ops fuel cs s"
proof (induction cs arbitrary: s t)
  case (Cons c cs)
  show ?case
  proof (cases c)
    case CallNext
    then show ?thesis
      using Cons.IH saver_sim_Next [OF Cons.prems assms] by (simp add: case_prod_beta)
  next
    case (CallRead n)
    obtain bs e s' where rd: "saverReader_Read stream_ops s n = (bs, e, s')" by (cases "saverReader_Read stream_ops s n")
    with saver_sim_Read [OF Cons.prems rd] Cons.IH CallRead show ?thesis by auto
  next
    case CallSave
    then show ?thesis using Cons.IH [OF Cons.prems] saver_sim_Save [OF Cons.prems] by simp
  qed
qed simp

lemma Resume_Save:
  assumes "Save sr = Inr c"
  shows "Resume c r = \<lparr>tr_r = \<lparr>cr_r = r, cr_count = cr_count (tr_r sr)\<rparr>, tr_pad = tr_pad sr, tr_curr = tr_curr sr,
    tr_blk = zeroBlock, tr_err = None\<rparr>"
proof -
  have "(\<lambda>v. \<lparr>se_offset = se_offset v, se_numBytes = se_numBytes v\<rparr>) = (\<lambda>v. v)" by (rule ext) simp
  then show ?thesis
    using assms by (cases "tr_curr sr") (auto simp: Save_def Resume_def Let_def CurrTypes comp_def)
qed

text \<open>
  C2. Resuming from a checkpoint is transparent. Take any state a saver reaches on an archive
  without having failed, save it, and resume from the checkpoint on a reader of the rest of the
  archive from the checkpoint's offset on: every sequence of calls of \<^verbatim>\<open>Next\<close>,
  \<^verbatim>\<open>Read\<close> and \<^verbatim>\<open>Save\<close> gives the same headers, data, errors and further
  checkpoints as without the interruption, also in the middle of a sparse file.
\<close>

theorem Resume_transparent:
  assumes "saver_reach a sr" "int (length a) < 9223372036854775808" "tr_err sr = None" "Save sr = Inr c" "length a < fuel"
  shows "run_saver stream_ops fuel cs (Resume c (new_bytes_reader (drop (nat (c_Roffset c)) a))) =
    run_saver stream_ops fuel cs sr"
proof -
  note inv = saver_reach_inv [OF assms(1,2)]
  have "c_Roffset c = cr_count (tr_r sr)"
    using assms(4) by (auto simp: Save_def Let_def split: curr_reader.splits)
  then have "saver_sim a sr (Resume c (new_bytes_reader (drop (nat (c_Roffset c)) a)))"
    using inv assms(2,3) by (simp add: Resume_Save [OF assms(4)] saver_sim_def count_ok_def zeroBlock_def)
  then show ?thesis by (rule run_saver_sim [OF assms(5)])
qed

theorem Resume_transparent_witness:
  "let sr = NewSaverReader (new_bytes_reader (replicate 1024 7)) in
   \<exists>c. Save sr = Inr c \<and>
     run_saver stream_ops 2000 [CallNext, CallSave, CallRead 3] (Resume c (new_bytes_reader (drop (nat (c_Roffset c)) (replicate 1024 7)))) =
     run_saver stream_ops 2000 [CallNext, CallSave, CallRead 3] sr"
proof -
  let ?a = "replicate 1024 7 :: byte list"
  let ?sr = "NewSaverReader (new_bytes_reader ?a)"
  have "saver_reach ?a ?sr" by (rule reach_new)
  moreover have "tr_err ?sr = None" "\<exists>c. Save ?sr = Inr c"
    by (simp_all add: NewSaverReader_def NewReader_def Save_def Let_def)
  ultimately show ?thesis
    using Resume_transparent [of ?a ?sr _ 2000 "[CallNext, CallSave, CallRead 3]"] by (auto simp: Let_def)
qed

end
