(* ===== verification/Go_Calendar.thy ===== *)
theory Go_Calendar
  imports Go_Time
begin

text \<open>
  The calendar of Go's package \<^verbatim>\<open>time\<close>: \<^verbatim>\<open>time.Date\<close> and the methods
  \<^verbatim>\<open>Year\<close>, \<^verbatim>\<open>Month\<close>, \<^verbatim>\<open>Day\<close>, \<^verbatim>\<open>Hour\<close>, \<^verbatim>\<open>Minute\<close>,
  \<^verbatim>\<open>Second\<close>, locations as fixed offsets from UTC, and \<^verbatim>\<open>time.Duration\<close>. The
  proleptic Gregorian calendar is defined by the number of days before each year and month; the
  facts say that taking a date apart gives back what \<^verbatim>\<open>time.Date\<close> was given.
\<close>

section \<open>Days, months, years\<close>

definition is_leap :: "int \<Rightarrow> bool" where
  "is_leap y \<longleftrightarrow> 4 dvd y \<and> (\<not> 100 dvd y \<or> 400 dvd y)"

definition days_before_year :: "int \<Rightarrow> int" where
  "days_before_year y = 365 * (y - 1) + (y - 1) div 4 - (y - 1) div 100 + (y - 1) div 400"

definition days_before_month :: "bool \<Rightarrow> int \<Rightarrow> int" where
  "days_before_month leap m =
     [0, 31, 59, 90, 120, 151, 181, 212, 243, 273, 304, 334, 365] ! nat (m - 1) + (if leap \<and> 2 < m then 1 else 0)"

definition days_in_month :: "int \<Rightarrow> int \<Rightarrow> int" where
  "days_in_month y m = days_before_month (is_leap y) (m + 1) - days_before_month (is_leap y) m"

text \<open>The year of a day counted from 1 January of year 1, by cycles of 400, 100, 4 and 1 years.\<close>

definition year_of_day :: "int \<Rightarrow> int" where
  "year_of_day d =
     (let a = d div 146097; r = d mod 146097;
          b = min 3 (r div 36524); r = r - b * 36524;
          c = r div 1461; r = r mod 1461;
          e = min 3 (r div 365)
      in 400 * a + 100 * b + 4 * c + e + 1)"

definition month_of_yday :: "bool \<Rightarrow> int \<Rightarrow> int" where
  "month_of_yday leap yd = int (length (filter (\<lambda>m. days_before_month leap m \<le> yd) [1, 2, 3, 4, 5, 6, 7, 8, 9, 10, 11, 12]))"

section \<open>Times with a location\<close>

datatype location = UTC | FixedZone int

record loctime =
  lt_time :: gotime
  lt_loc :: location

fun loc_offset :: "location \<Rightarrow> int" where
  "loc_offset UTC = 0"
| "loc_offset (FixedZone off) = off"

text \<open>Seconds since year 1 on the clock of the location.\<close>

definition local_secs :: "loctime \<Rightarrow> int" where
  "local_secs t = t_sec (lt_time t) + loc_offset (lt_loc t)"

definition time_Year :: "loctime \<Rightarrow> int" where
  "time_Year t = year_of_day (local_secs t div 86400)"

definition year_day :: "loctime \<Rightarrow> int" where
  "year_day t = local_secs t div 86400 - days_before_year (time_Year t)"

definition time_Month :: "loctime \<Rightarrow> int" where
  "time_Month t = month_of_yday (is_leap (time_Year t)) (year_day t)"

definition time_Day :: "loctime \<Rightarrow> int" where
  "time_Day t = year_day t - days_before_month (is_leap (time_Year t)) (time_Month t) + 1"

definition time_Hour :: "loctime \<Rightarrow> int" where
  "time_Hour t = local_secs t mod 86400 div 3600"

definition time_Minute :: "loctime \<Rightarrow> int" where
  "time_Minute t = local_secs t mod 3600 div 60"

definition time_Second :: "loctime \<Rightarrow> int" where
  "time_Second t = local_secs t mod 60"

text \<open>
  \<^verbatim>\<open>time.Date(y, m, d, h, min, s, 0, time.UTC)\<close>: values outside their usual ranges carry
  over to the next larger unit.
\<close>

definition time_Date :: "int \<Rightarrow> int \<Rightarrow> int \<Rightarrow> int \<Rightarrow> int \<Rightarrow> int \<Rightarrow> loctime" where
  "time_Date y m d h mi s =
     (let y' = y + (m - 1) div 12; m' = (m - 1) mod 12 + 1;
          days = days_before_year y' + days_before_month (is_leap y') m' + d - 1
      in \<lparr>lt_time = \<lparr>t_sec = i64 (days * 86400 + h * 3600 + mi * 60 + s), t_nsec = 0\<rparr>, lt_loc = UTC\<rparr>)"

definition time_UTC :: "loctime \<Rightarrow> loctime" where
  "time_UTC t = t\<lparr>lt_loc := UTC\<rparr>"

definition time_In :: "gotime \<Rightarrow> location \<Rightarrow> loctime" where
  "time_In t l = \<lparr>lt_time = t, lt_loc = l\<rparr>"

section \<open>Durations\<close>

text \<open>Nanoseconds in 64 bits. \<^verbatim>\<open>Sub\<close> saturates, \<^verbatim>\<open>Round\<close> rounds half away from zero.\<close>

definition sat64 :: "int \<Rightarrow> int" where
  "sat64 x = max (- 9223372036854775808) (min 9223372036854775807 x)"

definition time_Sub :: "gotime \<Rightarrow> gotime \<Rightarrow> int" where
  "time_Sub t u = sat64 ((t_sec t - t_sec u) * 1000000000 + (t_nsec t - t_nsec u))"

definition duration_Round :: "int \<Rightarrow> int \<Rightarrow> int" where
  "duration_Round d m =
     (if m \<le> 0 then d
      else if d < 0 then
        let r = (- d) mod m in if 2 * r < m then d + r else sat64 (d - m + r)
      else
        let r = d mod m in if 2 * r < m then d - r else sat64 (d + m - r))"

section \<open>The calendar is consistent\<close>

lemma div_pred: "0 < k \<Longrightarrow> y div k = (y - 1) div k + (if k dvd y then 1 else 0)" for k y :: int
proof -
  assume k: "0 < k"
  show ?thesis
  proof (cases "k dvd y")
    case True
    then obtain q where q: "y = k * q" by blast
    have "(k * q - 1) div k = (k - 1 + (q - 1) * k) div k" by (simp add: algebra_simps)
    also have "\<dots> = (k - 1) div k + (q - 1)" using k by simp
    also have "(k - 1) div k = 0" using k by simp
    finally show ?thesis using k q by simp
  next
    case False
    then have m: "1 \<le> y mod k" using pos_mod_sign [OF k, of y] by (simp add: dvd_eq_mod_eq_0)
    have "(y - 1) div k = (y mod k - 1 + (y div k) * k) div k" by (simp add: algebra_simps)
    also have "\<dots> = (y mod k - 1) div k + y div k" using k by simp
    also have "(y mod k - 1) div k = 0" using k m pos_mod_bound [OF k, of y] by (simp add: div_pos_pos_trivial)
    finally show ?thesis using False by simp
  qed
qed

lemma days_before_year_Suc: "days_before_year (y + 1) = days_before_year y + (if is_leap y then 366 else 365)"
proof -
  have key: "365 * y + u - v + w = 365 * (y - 1) + p - q + r + (if A \<and> (\<not> B \<or> C) then 366 else 365)"
    if "u = p + (if A then 1 else 0)" "v = q + (if B then 1 else 0)" "w = r + (if C then 1 else 0)" "B \<longrightarrow> A" "C \<longrightarrow> B"
    for u v w p q r :: int and A B C
    using that by (cases A; cases B; cases C) simp_all
  have "(4 :: int) dvd 100" "(100 :: int) dvd 400" by simp_all
  then have "100 dvd y \<longrightarrow> 4 dvd y" "400 dvd y \<longrightarrow> 100 dvd y" using dvd_trans by blast+
  then show ?thesis
    unfolding days_before_year_def is_leap_def add_diff_cancel_right'
    by (intro key [OF div_pred div_pred div_pred]) simp_all
qed

lemma days_before_year_mono: "y < z \<Longrightarrow> days_before_year (y + 1) \<le> days_before_year z"
proof -
  have "days_before_year y \<le> days_before_year (y + int n)" for y n
  proof (induction n)
    case (Suc n)
    have "y + int (Suc n) = (y + int n) + 1" by simp
    then show ?case using Suc unfolding \<open>y + int (Suc n) = _\<close> days_before_year_Suc by simp
  qed simp
  from this [of "y + 1" "nat (z - y - 1)"] show "y < z \<Longrightarrow> days_before_year (y + 1) \<le> days_before_year z" by simp
qed

lemma days_before_cycles:
  assumes "0 \<le> b" "b \<le> 3" "0 \<le> c" "c \<le> 24" "0 \<le> e" "e \<le> 3"
  shows "days_before_year (400 * a + 100 * b + 4 * c + e + 1) = 146097 * a + 36524 * b + 1461 * c + 365 * e"
proof -
  have "(400 * a + 100 * b + 4 * c + e) div 4 = 100 * a + 25 * b + c" using assms by linarith
  moreover have "(400 * a + 100 * b + 4 * c + e) div 100 = 4 * a + b" using assms by linarith
  moreover have "(400 * a + 100 * b + 4 * c + e) div 400 = a" using assms by linarith
  ultimately show ?thesis by (simp add: days_before_year_def)
qed

lemma leap_cycles:
  assumes "0 \<le> b" "b \<le> 3" "0 \<le> c" "c \<le> 24" "0 \<le> e" "e \<le> 3"
  shows "is_leap (400 * a + 100 * b + 4 * c + e + 1) \<longleftrightarrow> e = 3 \<and> (c = 24 \<longrightarrow> b = 3)"
proof -
  let ?Y = "400 * a + 100 * b + 4 * c + e + 1"
  have dvd_top: "n dvd r + n * q \<longleftrightarrow> r = n" if "0 < r" "r \<le> n" for n r q :: int
  proof -
    have "n dvd r + n * q \<longleftrightarrow> n dvd r" by (simp add: dvd_add_left_iff)
    also have "\<dots> \<longleftrightarrow> r = n" using that zdvd_imp_le [of n r] by auto
    finally show ?thesis .
  qed
  have y: "?Y = (e + 1) + 4 * (100 * a + 25 * b + c)" "?Y = (4 * c + e + 1) + 100 * (4 * a + b)"
      "?Y = (100 * b + 4 * c + e + 1) + 400 * a"
    by (simp_all add: algebra_simps)
  have "4 dvd ?Y \<longleftrightarrow> e + 1 = 4" unfolding y(1) using assms(5,6) by (intro dvd_top) linarith+
  moreover have "100 dvd ?Y \<longleftrightarrow> 4 * c + e + 1 = 100" unfolding y(2) using assms(3-6) by (intro dvd_top) linarith+
  moreover have "400 dvd ?Y \<longleftrightarrow> 100 * b + 4 * c + e + 1 = 400" unfolding y(3) using assms by (intro dvd_top) linarith+
  moreover have "4 * c + e + 1 = 100 \<longleftrightarrow> c = 24 \<and> e = 3" using assms(3-6) by linarith
  moreover have "100 * b + 4 * c + e + 1 = 400 \<longleftrightarrow> b = 3 \<and> c = 24 \<and> e = 3" using assms by linarith
  ultimately show ?thesis unfolding is_leap_def by auto
qed

lemma cycle_rest:
  fixes k r q n :: int
  assumes "r = k * (r div k) + r mod k" "0 < k" "0 \<le> r" "r \<le> 4 * k + n" "n < k" "q = min 3 (r div k)" "0 \<le> n"
  shows "0 \<le> q" "q \<le> 3" "0 \<le> r - k * q" "q < 3 \<longrightarrow> r - k * q < k" "q = 3 \<longrightarrow> r - k * q \<le> k + n"
proof -
  have d: "0 \<le> r div k" using assms(2,3) by (simp add: pos_imp_zdiv_nonneg_iff)
  have m: "0 \<le> r mod k" "r mod k < k" using assms(2) by simp_all
  show "0 \<le> q" "q \<le> 3" using d assms(6) by auto
  have "k * q \<le> k * (r div k)" using assms(2,6) by (intro mult_left_mono) auto
  then show "0 \<le> r - k * q" using assms(1) m(1) by linarith
  show "q < 3 \<longrightarrow> r - k * q < k" using assms(6) m(2) by (auto simp: min_def minus_mult_div_eq_mod split: if_splits)
  show "q = 3 \<longrightarrow> r - k * q \<le> k + n" using assms(4) by auto
qed

lemma year_of_day_bounds: "days_before_year (year_of_day d) \<le> d \<and> d < days_before_year (year_of_day d + 1)"
proof -
  define a where "a = d div 146097"
  define r1 where "r1 = d mod 146097"
  define b where "b = min 3 (r1 div 36524)"
  define r2 where "r2 = r1 - b * 36524"
  define c where "c = r2 div 1461"
  define r3 where "r3 = r2 mod 1461"
  define e where "e = min 3 (r3 div 365)"
  have r1: "0 \<le> r1" "r1 < 146097" "d = 146097 * a + r1" by (simp_all add: r1_def a_def)
  have c1: "r1 \<le> 4 * 36524 + 0" using r1(2) by linarith
  have "r1 = 36524 * (r1 div 36524) + r1 mod 36524" by simp
  note b = cycle_rest [OF this _ r1(1) c1 _ b_def, simplified]
  have r2: "0 \<le> r2" "r2 \<le> 36524" "b < 3 \<longrightarrow> r2 < 36524" using b by (auto simp: r2_def mult.commute)
  have c0: "0 \<le> c" using r2(1) by (simp add: c_def pos_imp_zdiv_nonneg_iff)
  have r3: "0 \<le> r3" "r3 < 1461" by (simp_all add: r3_def)
  have r23: "r2 = 1461 * c + r3" by (simp add: c_def r3_def)
  have c24: "c \<le> 24" using r23 r3(1) r2(2) by linarith
  have e1: "r3 \<le> 4 * 365 + 0" using r3(2) by linarith
  have "r3 = 365 * (r3 div 365) + r3 mod 365" by simp
  note e = cycle_rest [OF this _ r3(1) e1 _ e_def, simplified]
  have y: "year_of_day d = 400 * a + 100 * b + 4 * c + e + 1"
    by (simp only: year_of_day_def Let_def a_def b_def c_def e_def r1_def r2_def r3_def)
  have dby: "days_before_year (year_of_day d) = 146097 * a + 36524 * b + 1461 * c + 365 * e"
    unfolding y using b(1,2) c0 c24 e(1,2) by (rule days_before_cycles)
  have leap: "is_leap (year_of_day d) \<longleftrightarrow> e = 3 \<and> (c = 24 \<longrightarrow> b = 3)"
    unfolding y using b(1,2) c0 c24 e(1,2) by (rule leap_cycles)
  have d: "d = 146097 * a + 36524 * b + 1461 * c + r3" using r1(3) r23 by (simp add: r2_def)
  have "r3 < 365 * e + (if e = 3 \<and> (c = 24 \<longrightarrow> b = 3) then 366 else 365)"
  proof (cases "e = 3")
    case True
    then show ?thesis using r3(2) r23 r2(3) b(2) by (cases "c = 24"; cases "b = 3") simp_all
  next
    case False
    then have "e < 3" using e(2) by simp
    then show ?thesis using e(4) False by simp
  qed
  then show ?thesis
    using e(3) days_before_year_Suc [of "year_of_day d", unfolded dby leap] dby d by (simp split: if_splits)
qed

lemma year_of_day_eq:
  assumes "days_before_year y \<le> d" "d < days_before_year (y + 1)"
  shows "year_of_day d = y"
proof (rule linorder_cases [of "year_of_day d" y])
  assume "year_of_day d < y"
  then show ?thesis using days_before_year_mono [of "year_of_day d" y] year_of_day_bounds [of d] assms by linarith
next
  assume "y < year_of_day d"
  then show ?thesis using days_before_year_mono [of y "year_of_day d"] year_of_day_bounds [of d] assms by linarith
qed

lemma month_cases:
  assumes "1 \<le> m" "m \<le> (12 :: int)"
  obtains "m = 1" | "m = 2" | "m = 3" | "m = 4" | "m = 5" | "m = 6" | "m = 7" | "m = 8" | "m = 9" | "m = 10" | "m = 11" | "m = 12"
proof -
  have "m = 1 \<or> m = 2 \<or> m = 3 \<or> m = 4 \<or> m = 5 \<or> m = 6 \<or> m = 7 \<or> m = 8 \<or> m = 9 \<or> m = 10 \<or> m = 11 \<or> m = 12"
    using assms by arith
  then show thesis using that by blast
qed

lemma month_of_yday_eq:
  assumes "1 \<le> m" "m \<le> 12" "days_before_month leap m \<le> yd" "yd < days_before_month leap (m + 1)"
  shows "month_of_yday leap yd = m"
  using assms(1,2) by (cases rule: month_cases)
    (use assms(3,4) in \<open>simp_all add: month_of_yday_def days_before_month_def split: if_splits\<close>)

lemma days_before_month_range:
  assumes "1 \<le> m" "m \<le> 12"
  shows "0 \<le> days_before_month leap m" "days_before_month leap (m + 1) \<le> (if leap then 366 else 365)"
proof -
  show "0 \<le> days_before_month leap m" using assms by (cases rule: month_cases) (simp_all add: days_before_month_def)
  show "days_before_month leap (m + 1) \<le> (if leap then 366 else 365)"
    using assms by (cases rule: month_cases) (simp_all add: days_before_month_def)
qed

text \<open>A time of day on a valid date.\<close>

definition valid_date :: "int \<Rightarrow> int \<Rightarrow> int \<Rightarrow> bool" where
  "valid_date y m d \<longleftrightarrow> 1 \<le> m \<and> m \<le> 12 \<and> 1 \<le> d \<and> d \<le> days_in_month y m"

definition valid_clock :: "int \<Rightarrow> int \<Rightarrow> int \<Rightarrow> bool" where
  "valid_clock h mi s \<longleftrightarrow> 0 \<le> h \<and> h < 24 \<and> 0 \<le> mi \<and> mi < 60 \<and> 0 \<le> s \<and> s < 60"

text \<open>The day a date denotes and the second of a day.\<close>

definition day_number :: "int \<Rightarrow> int \<Rightarrow> int \<Rightarrow> int" where
  "day_number y m d = days_before_year y + days_before_month (is_leap y) m + d - 1"

lemma day_number_parts:
  assumes "valid_date y m d" "local_secs t div 86400 = day_number y m d"
  shows "time_Year t = y" "time_Month t = m" "time_Day t = d"
proof -
  have v: "1 \<le> m" "m \<le> 12" "1 \<le> d" "d \<le> days_in_month y m" using assms(1) by (auto simp: valid_date_def)
  note r = days_before_month_range [OF v(1,2), of "is_leap y"]
  show y: "time_Year t = y"
    using v r days_before_year_Suc [of y] unfolding time_Year_def assms(2)
    by (intro year_of_day_eq) (auto simp: day_number_def days_in_month_def split: if_splits)
  have yd: "year_day t = days_before_month (is_leap y) m + d - 1" by (simp add: year_day_def y assms(2) day_number_def)
  show m: "time_Month t = m"
    using v unfolding time_Month_def y yd by (intro month_of_yday_eq) (auto simp: days_in_month_def)
  show "time_Day t = d" by (simp add: time_Day_def y m yd)
qed

lemma clock_parts:
  assumes "valid_clock h mi s" "local_secs t = n * 86400 + h * 3600 + mi * 60 + s"
  shows "local_secs t div 86400 = n" "time_Hour t = h" "time_Minute t = mi" "time_Second t = s"
proof -
  have v: "0 \<le> h" "h < 24" "0 \<le> mi" "mi < 60" "0 \<le> s" "s < 60" using assms(1) by (simp_all add: valid_clock_def)
  have split: "local_secs t = (h * 3600 + mi * 60 + s) + n * 86400" "local_secs t = (mi * 60 + s) + (n * 24 + h) * 3600"
      "local_secs t = s + (n * 1440 + h * 60 + mi) * 60"
    using assms(2) by simp_all
  show "local_secs t div 86400 = n" using v unfolding split(1) by simp
  have "local_secs t mod 86400 = h * 3600 + mi * 60 + s" using v unfolding split(1) by simp
  then show "time_Hour t = h" using v by (simp add: time_Hour_def)
  have "local_secs t mod 3600 = mi * 60 + s" using v by (simp only: split(2) mod_mult_self1) simp
  then show "time_Minute t = mi" using v by (simp add: time_Minute_def)
  show "time_Second t = s" using v by (simp only: time_Second_def split(3) mod_mult_self1) simp
qed

lemma time_Date_valid:
  assumes "valid_date y m d" "\<bar>y\<bar> \<le> 100000" "valid_clock h mi s"
  shows "local_secs (time_Date y m d h mi s) = day_number y m d * 86400 + h * 3600 + mi * 60 + s"
proof -
  have m: "(m - 1) div 12 = 0" "(m - 1) mod 12 = m - 1" using assms(1) by (auto simp: valid_date_def)
  have "\<bar>day_number y m d\<bar> \<le> 40000000"
  proof -
    have v: "1 \<le> m" "m \<le> 12" "1 \<le> d" "d \<le> days_in_month y m" using assms(1) by (auto simp: valid_date_def)
    have "\<bar>days_before_year y\<bar> \<le> 38000000" using assms(2) unfolding days_before_year_def by (simp add: abs_le_iff) linarith
    then show ?thesis using days_before_month_range [OF v(1,2), of "is_leap y"] v
      by (auto simp: day_number_def days_in_month_def abs_le_iff split: if_splits)
  qed
  then have "in_i64 (day_number y m d * 86400 + h * 3600 + mi * 60 + s)"
    using assms(3) by (auto simp: in_i64_def valid_clock_def abs_le_iff)
  then show ?thesis by (simp add: time_Date_def local_secs_def Let_def m day_number_def)
qed

text \<open>Every time has a valid date and clock, which determine its second.\<close>

lemma month_exists:
  assumes "0 \<le> yd" "yd < (if leap then 366 else 365)"
  shows "\<exists>m. 1 \<le> m \<and> m \<le> 12 \<and> days_before_month leap m \<le> yd \<and> yd < days_before_month leap (m + 1)"
proof (rule ccontr)
  assume "\<not> ?thesis"
  then have step: "days_before_month leap m \<le> yd \<Longrightarrow> 1 \<le> m \<Longrightarrow> m \<le> 12 \<Longrightarrow> days_before_month leap (m + 1) \<le> yd" for m
    by force
  have "days_before_month leap 1 \<le> yd" using assms(1) by (simp add: days_before_month_def)
  then have "days_before_month leap 13 \<le> yd"
    using step [of 1] step [of 2] step [of 3] step [of 4] step [of 5] step [of 6] step [of 7] step [of 8]
      step [of 9] step [of 10] step [of 11] step [of 12] by simp
  then show False using assms(2) by (simp add: days_before_month_def split: if_splits)
qed

lemma date_parts:
  "valid_date (time_Year t) (time_Month t) (time_Day t)"
  "day_number (time_Year t) (time_Month t) (time_Day t) = local_secs t div 86400"
proof -
  define y d where "y = time_Year t" and "d = local_secs t div 86400"
  have b: "days_before_year y \<le> d" "d < days_before_year (y + 1)"
    using year_of_day_bounds [of d] by (simp_all add: y_def d_def time_Year_def)
  have yd: "year_day t = d - days_before_year y" by (simp add: year_day_def y_def d_def)
  then have "0 \<le> year_day t" "year_day t < (if is_leap y then 366 else 365)"
    using b days_before_year_Suc [of y] by auto
  then obtain m where m: "1 \<le> m" "m \<le> 12" "days_before_month (is_leap y) m \<le> year_day t"
      "year_day t < days_before_month (is_leap y) (m + 1)"
    using month_exists by blast
  then have M: "time_Month t = m" unfolding time_Month_def y_def [symmetric] by (intro month_of_yday_eq)
  show "valid_date (time_Year t) (time_Month t) (time_Day t)"
    using m unfolding valid_date_def time_Day_def days_in_month_def M y_def [symmetric] by auto
  show "day_number (time_Year t) (time_Month t) (time_Day t) = local_secs t div 86400"
    unfolding day_number_def time_Day_def M y_def [symmetric] d_def [symmetric] yd by simp
qed

lemma time_parts:
  "valid_clock (time_Hour t) (time_Minute t) (time_Second t)"
  "local_secs t = day_number (time_Year t) (time_Month t) (time_Day t) * 86400 + time_Hour t * 3600 + time_Minute t * 60 + time_Second t"
proof -
  let ?n = "local_secs t"
  have h: "?n = 86400 * (?n div 86400) + ?n mod 86400" by simp
  have "?n mod 3600 = ?n mod 86400 mod 3600" by (rule mod_mod_cancel [symmetric]) simp
  then have m: "?n mod 86400 = 3600 * (?n mod 86400 div 3600) + ?n mod 3600" by simp
  have "?n mod 60 = ?n mod 3600 mod 60" by (rule mod_mod_cancel [symmetric]) simp
  then have s: "?n mod 3600 = 60 * (?n mod 3600 div 60) + ?n mod 60" by simp
  show "valid_clock (time_Hour t) (time_Minute t) (time_Second t)"
    using pos_mod_bound [of 86400 ?n] pos_mod_sign [of 86400 ?n] pos_mod_bound [of 3600 ?n] pos_mod_sign [of 3600 ?n]
    unfolding valid_clock_def time_Hour_def time_Minute_def time_Second_def by (intro conjI; simp; linarith)
  show "?n = day_number (time_Year t) (time_Month t) (time_Day t) * 86400 + time_Hour t * 3600 + time_Minute t * 60 + time_Second t"
    unfolding date_parts time_Hour_def time_Minute_def time_Second_def using h m s by linarith
qed

lemma day_in_month: "valid_date y m d \<Longrightarrow> 1 \<le> m \<and> m \<le> 12 \<and> 1 \<le> d \<and> d \<le> 31"
proof -
  assume v: "valid_date y m d"
  then have "1 \<le> m" "m \<le> 12" by (simp_all add: valid_date_def)
  then have "days_in_month y m \<le> 31"
    by (cases rule: month_cases) (simp_all add: days_in_month_def days_before_month_def)
  with v show ?thesis by (simp add: valid_date_def)
qed

end
