(* ===== verification/Zip_Struct.thy ===== *)
theory Zip_Struct
  imports Go_Calendar Go_Os Go_Path
begin

text \<open>
  The file \<^verbatim>\<open>zip/struct.go\<close>: the header of a file in a zip archive, its view as an
  \<^verbatim>\<open>os.FileInfo\<close>, MS-DOS dates and times, and the conversions of file modes.
\<close>

section \<open>Constants\<close>

definition Store :: "16 word" where "Store = 0"
definition Deflate :: "16 word" where "Deflate = 8"
definition LZMA :: "16 word" where "LZMA = 14"

definition fileHeaderSignature :: "32 word" where "fileHeaderSignature = 0x04034b50"
definition directoryHeaderSignature :: "32 word" where "directoryHeaderSignature = 0x02014b50"
definition directoryEndSignature :: "32 word" where "directoryEndSignature = 0x06054b50"
definition directory64LocSignature :: "32 word" where "directory64LocSignature = 0x07064b50"
definition directory64EndSignature :: "32 word" where "directory64EndSignature = 0x06064b50"
definition dataDescriptorSignature :: "32 word" where "dataDescriptorSignature = 0x08074b50"

definition fileHeaderLen :: nat where [simp]: "fileHeaderLen = 30"
definition directoryHeaderLen :: nat where [simp]: "directoryHeaderLen = 46"
definition directoryEndLen :: nat where [simp]: "directoryEndLen = 22"
definition dataDescriptorLen :: nat where [simp]: "dataDescriptorLen = 16"
definition dataDescriptor64Len :: nat where [simp]: "dataDescriptor64Len = 24"
definition directory64LocLen :: nat where [simp]: "directory64LocLen = 20"
definition directory64EndLen :: nat where [simp]: "directory64EndLen = 56"

definition creatorFAT :: "16 word" where "creatorFAT = 0"
definition creatorUnix :: "16 word" where "creatorUnix = 3"
definition creatorNTFS :: "16 word" where "creatorNTFS = 11"
definition creatorVFAT :: "16 word" where "creatorVFAT = 14"
definition creatorMacOSX :: "16 word" where "creatorMacOSX = 19"

definition zipVersion20 :: "16 word" where "zipVersion20 = 20"
definition zipVersion45 :: "16 word" where "zipVersion45 = 45"

definition uint16max :: nat where [simp]: "uint16max = 65535"
definition uint32max :: nat where [simp]: "uint32max = 4294967295"

definition zip64ExtraID :: "16 word" where "zip64ExtraID = 1"
definition ntfsExtraID :: "16 word" where "ntfsExtraID = 0x000a"
definition unixExtraID :: "16 word" where "unixExtraID = 0x000d"
definition extTimeExtraID :: "16 word" where "extTimeExtraID = 0x5455"
definition infoZipUnixExtraID :: "16 word" where "infoZipUnixExtraID = 0x5855"

section \<open>FileHeader\<close>

record FileHeader =
  fh_Name :: gostring
  fh_Comment :: gostring
  fh_NonUTF8 :: bool
  fh_CreatorVersion :: "16 word"
  fh_ReaderVersion :: "16 word"
  fh_Flags :: "16 word"
  fh_Method :: "16 word"
  fh_Modified :: loctime
  fh_ModifiedTime :: "16 word"
  fh_ModifiedDate :: "16 word"
  fh_CRC32 :: "32 word"
  fh_CompressedSize :: "32 word"
  fh_UncompressedSize :: "32 word"
  fh_CompressedSize64 :: "64 word"
  fh_UncompressedSize64 :: "64 word"
  fh_Extra :: "byte list"
  fh_ExternalAttrs :: "32 word"

definition zero_loctime :: loctime where
  "zero_loctime = \<lparr>lt_time = zero_time, lt_loc = UTC\<rparr>"

definition new_FileHeader :: FileHeader where
  "new_FileHeader =
     \<lparr>fh_Name = [], fh_Comment = [], fh_NonUTF8 = False, fh_CreatorVersion = 0, fh_ReaderVersion = 0,
      fh_Flags = 0, fh_Method = 0, fh_Modified = zero_loctime, fh_ModifiedTime = 0, fh_ModifiedDate = 0,
      fh_CRC32 = 0, fh_CompressedSize = 0, fh_UncompressedSize = 0, fh_CompressedSize64 = 0,
      fh_UncompressedSize64 = 0, fh_Extra = [], fh_ExternalAttrs = 0\<rparr>"

section \<open>MS-DOS times\<close>

text \<open>
  \<^verbatim>\<open>timeZone\<close>: offsets are rounded to a quarter of an hour, and those outside the range of
  real time zones become zero.
\<close>

definition timeZone :: "int \<Rightarrow> location" where
  "timeZone offset =
     (let offset = duration_Round offset (15 * 60 * 1000000000);
          offset = (if offset < - 12 * 3600 * 1000000000 \<or> 14 * 3600 * 1000000000 < offset then 0 else offset)
      in FixedZone (if offset < 0 then - ((- offset) div 1000000000) else offset div 1000000000))"

definition msDosTimeToTime :: "16 word \<Rightarrow> 16 word \<Rightarrow> loctime" where
  "msDosTimeToTime dosDate dosTime =
     time_Date (uint (drop_bit 9 dosDate + 1980)) (uint (drop_bit 5 dosDate AND 0xf)) (uint (dosDate AND 0x1f))
       (uint (drop_bit 11 dosTime)) (uint (drop_bit 5 dosTime AND 0x3f)) (uint ((dosTime AND 0x1f) * 2))"

definition timeToMsDosTime :: "loctime \<Rightarrow> 16 word \<times> 16 word" where
  "timeToMsDosTime t =
     (word_of_int (time_Day t + time_Month t * 2 ^ 5 + (time_Year t - 1980) * 2 ^ 9),
      word_of_int (time_Second t div 2 + time_Minute t * 2 ^ 5 + time_Hour t * 2 ^ 11))"

definition fh_ModTime :: "FileHeader \<Rightarrow> loctime" where
  "fh_ModTime h = msDosTimeToTime (fh_ModifiedDate h) (fh_ModifiedTime h)"

definition SetModTime :: "loctime \<Rightarrow> FileHeader \<Rightarrow> FileHeader" where
  "SetModTime t h =
     (let t = time_UTC t; (d, tm) = timeToMsDosTime t
      in h\<lparr>fh_Modified := t, fh_ModifiedDate := d, fh_ModifiedTime := tm\<rparr>)"

section \<open>Modes\<close>

definition s_IFMT :: "32 word" where "s_IFMT = 0xf000"
definition s_IFSOCK :: "32 word" where "s_IFSOCK = 0xc000"
definition s_IFLNK :: "32 word" where "s_IFLNK = 0xa000"
definition s_IFREG :: "32 word" where "s_IFREG = 0x8000"
definition s_IFBLK :: "32 word" where "s_IFBLK = 0x6000"
definition s_IFDIR :: "32 word" where "s_IFDIR = 0x4000"
definition s_IFCHR :: "32 word" where "s_IFCHR = 0x2000"
definition s_IFIFO :: "32 word" where "s_IFIFO = 0x1000"
definition s_ISUID :: "32 word" where "s_ISUID = 0x800"
definition s_ISGID :: "32 word" where "s_ISGID = 0x400"
definition s_ISVTX :: "32 word" where "s_ISVTX = 0x200"
definition msdosDir :: "32 word" where "msdosDir = 0x10"
definition msdosReadOnly :: "32 word" where "msdosReadOnly = 0x01"

lemmas unix_defs = s_IFMT_def s_IFSOCK_def s_IFLNK_def s_IFREG_def s_IFBLK_def s_IFDIR_def s_IFCHR_def s_IFIFO_def
  s_ISUID_def s_ISGID_def s_ISVTX_def msdosDir_def msdosReadOnly_def

definition msdosModeToFileMode :: "32 word \<Rightarrow> filemode" where
  "msdosModeToFileMode m =
     (let mode = (if m AND msdosDir \<noteq> 0 then ModeDir OR 0x1ff else 0x1b6)
      in if m AND msdosReadOnly \<noteq> 0 then mode AND NOT 0x92 else mode)"

definition fileModeToUnixMode :: "filemode \<Rightarrow> 32 word" where
  "fileModeToUnixMode mode =
     (let ty = mode AND ModeType;
          m = (if ty = ModeDir then s_IFDIR
               else if ty = ModeSymlink then s_IFLNK
               else if ty = ModeNamedPipe then s_IFIFO
               else if ty = ModeSocket then s_IFSOCK
               else if ty = ModeDevice then if mode AND ModeCharDevice \<noteq> 0 then s_IFCHR else s_IFBLK
               else s_IFREG);
          m = m OR bit_if (mode AND ModeSetuid \<noteq> 0) s_ISUID;
          m = m OR bit_if (mode AND ModeSetgid \<noteq> 0) s_ISGID;
          m = m OR bit_if (mode AND ModeSticky \<noteq> 0) s_ISVTX
      in m OR (mode AND 0x1ff))"

definition unixModeToFileMode :: "32 word \<Rightarrow> filemode" where
  "unixModeToFileMode m =
     (let mode = m AND 0x1ff;
          ty = m AND s_IFMT;
          mode = mode OR (if ty = s_IFBLK then ModeDevice
                          else if ty = s_IFCHR then ModeDevice OR ModeCharDevice
                          else if ty = s_IFDIR then ModeDir
                          else if ty = s_IFIFO then ModeNamedPipe
                          else if ty = s_IFLNK then ModeSymlink
                          else if ty = s_IFREG then 0
                          else if ty = s_IFSOCK then ModeSocket
                          else 0);
          mode = mode OR bit_if (m AND s_ISGID \<noteq> 0) ModeSetgid;
          mode = mode OR bit_if (m AND s_ISUID \<noteq> 0) ModeSetuid
      in mode OR bit_if (m AND s_ISVTX \<noteq> 0) ModeSticky)"

definition fh_Mode :: "FileHeader \<Rightarrow> filemode" where
  "fh_Mode h =
     (let creator = drop_bit 8 (fh_CreatorVersion h);
          mode = (if creator \<in> {creatorUnix, creatorMacOSX} then unixModeToFileMode (drop_bit 16 (fh_ExternalAttrs h))
                  else if creator \<in> {creatorNTFS, creatorVFAT, creatorFAT} then msdosModeToFileMode (fh_ExternalAttrs h)
                  else 0)
      in if fh_Name h \<noteq> [] \<and> last (fh_Name h) = 47 then mode OR ModeDir else mode)"

definition SetMode :: "filemode \<Rightarrow> FileHeader \<Rightarrow> FileHeader" where
  "SetMode mode h =
     h\<lparr>fh_CreatorVersion := (fh_CreatorVersion h AND 0xff) OR push_bit 8 creatorUnix,
       fh_ExternalAttrs :=
         (push_bit 16 (fileModeToUnixMode mode) OR bit_if (mode AND ModeDir \<noteq> 0) msdosDir)
         OR bit_if (mode AND 0x80 = 0) msdosReadOnly\<rparr>"

definition isZip64 :: "FileHeader \<Rightarrow> bool" where
  "isZip64 fh \<longleftrightarrow> uint32max \<le> unat (fh_CompressedSize64 fh) \<or> uint32max \<le> unat (fh_UncompressedSize64 fh)"

section \<open>File information\<close>

text \<open>What the code uses of an \<^verbatim>\<open>os.FileInfo\<close>: the results of its methods.\<close>

record zip_info =
  zi_Name :: gostring
  zi_Size :: int
  zi_Mode :: filemode
  zi_ModTime :: loctime
  zi_IsDir :: bool

definition info_Size :: "FileHeader \<Rightarrow> int" where
  "info_Size fh =
     (if 0 < fh_UncompressedSize64 fh then sint (fh_UncompressedSize64 fh) else uint (fh_UncompressedSize fh))"

definition zip_FileInfo :: "FileHeader \<Rightarrow> zip_info" where
  "zip_FileInfo fh =
     \<lparr>zi_Name = path_Base (fh_Name fh), zi_Size = info_Size fh, zi_Mode = fh_Mode fh, zi_ModTime = fh_ModTime fh,
      zi_IsDir = (fh_Mode fh AND ModeDir \<noteq> 0)\<rparr>"

definition zip_FileInfoHeader :: "zip_info \<Rightarrow> FileHeader" where
  "zip_FileInfoHeader fi =
     (let fh = new_FileHeader\<lparr>fh_Name := zi_Name fi, fh_UncompressedSize64 := word_of_int (zi_Size fi)\<rparr>;
          fh = SetModTime (zi_ModTime fi) fh;
          fh = SetMode (zi_Mode fi) fh
      in if uint32max < unat (fh_UncompressedSize64 fh) then fh\<lparr>fh_UncompressedSize := of_nat uint32max\<rparr>
         else fh\<lparr>fh_UncompressedSize := ucast (fh_UncompressedSize64 fh)\<rparr>)"

section \<open>MS-DOS times are read back\<close>

lemma uint_drop_bit: "uint (drop_bit n w) = uint w div 2 ^ n" for w :: "'a :: len word"
  by (subst unsigned_drop_bit_eq) (simp add: drop_bit_eq_div take_bit_int_eq_self)

lemma uint_and_mask:
  "uint (w AND 0xf) = uint w mod 16" "uint (w AND 0x1f) = uint w mod 32" "uint (w AND 0x3f) = uint w mod 64"
  for w :: "16 word"
proof -
  have "uint (w AND mask n) = take_bit n (uint w)" for n
    by (simp add: unsigned_take_bit_eq flip: take_bit_eq_mask)
  then have "uint (w AND mask n) = uint w mod 2 ^ n" for n by (simp add: take_bit_eq_mod)
  from this [of 4] this [of 5] this [of 6]
  show "uint (w AND 0xf) = uint w mod 16" "uint (w AND 0x1f) = uint w mod 32" "uint (w AND 0x3f) = uint w mod 64"
    by (simp_all add: mask_eq_exp_minus_1)
qed

lemma uint_word_of_int16: "0 \<le> x \<Longrightarrow> x < 65536 \<Longrightarrow> uint (word_of_int x :: 16 word) = x"
  by (simp add: uint_word_of_int_eq take_bit_eq_mod)

text \<open>The fields packed into a word, least significant first.\<close>

lemma dos_fields:
  fixes a b c p q :: int
  assumes "0 \<le> a" "a < p" "0 \<le> b" "b < q" "0 \<le> c" "0 < p" "0 < q"
  shows "(a + b * p + c * (p * q)) mod p = a" "(a + b * p + c * (p * q)) div p mod q = b"
    and "(a + b * p + c * (p * q)) div (p * q) = c"
proof -
  have e: "a + b * p + c * (p * q) = a + (b + c * q) * p" by (simp add: algebra_simps)
  show "(a + b * p + c * (p * q)) mod p = a" using assms unfolding e by simp
  have d: "(a + b * p + c * (p * q)) div p = b + c * q" using assms unfolding e by simp
  then show "(a + b * p + c * (p * q)) div p mod q = b" using assms by simp
  have "(a + b * p + c * (p * q)) div (p * q) = (b + c * q) div q" using d assms by (simp add: zdiv_zmult2_eq)
  then show "(a + b * p + c * (p * q)) div (p * q) = c" using assms by simp
qed

lemma dos_date_fields:
  fixes y m d :: int
  assumes "1980 \<le> y" "y \<le> 2107" "1 \<le> m" "m \<le> 12" "1 \<le> d" "d \<le> 31"
    and w: "w = word_of_int (d + m * 2 ^ 5 + (y - 1980) * 2 ^ 9)"
  shows "uint (drop_bit 9 w + 1980) = y" "uint (drop_bit 5 w AND 0xf) = m" "uint ((w :: 16 word) AND 0x1f) = d"
proof -
  define x where "x = d + m * 32 + (y - 1980) * (32 * 16)"
  have "x = d + 32 * m + 512 * (y - 1980)" by (simp add: x_def)
  then have "0 \<le> x \<and> x < 65536" using assms(1-6) by auto
  moreover have "w = word_of_int x" by (simp add: w x_def)
  ultimately have u: "uint w = x" using uint_word_of_int16 by simp
  have f: "x mod 32 = d" "x div 32 mod 16 = m" "x div (32 * 16) = y - 1980"
    unfolding x_def using assms(1-6) by (intro dos_fields; linarith)+
  show "uint ((w :: 16 word) AND 0x1f) = d" "uint (drop_bit 5 w AND 0xf) = m"
    using f(1,2) by (simp_all add: uint_and_mask uint_drop_bit u)
  have "uint (drop_bit 9 w) = y - 1980" using f(3) by (simp add: uint_drop_bit u)
  then have "uint (drop_bit 9 w + 1980) = (y - 1980 + 1980) mod 65536" by (simp add: uint_word_ariths(1))
  then show "uint (drop_bit 9 w + 1980) = y" using assms(1,2) by simp
qed

lemma dos_time_fields:
  fixes h m s :: int
  assumes "0 \<le> h" "h < 24" "0 \<le> m" "m < 60" "0 \<le> s" "s < 30"
    and w: "w = word_of_int (s + m * 2 ^ 5 + h * 2 ^ 11)"
  shows "uint (drop_bit 11 w) = h" "uint (drop_bit 5 w AND 0x3f) = m" "uint (((w :: 16 word) AND 0x1f) * 2) = s * 2"
proof -
  define x where "x = s + m * 32 + h * (32 * 64)"
  have "0 \<le> x" "x < 65536" using assms(1-6) unfolding x_def by linarith+
  moreover have "w = word_of_int x" by (simp add: w x_def)
  ultimately have u: "uint w = x" using uint_word_of_int16 by simp
  have f: "x mod 32 = s" "x div 32 mod 64 = m" "x div (32 * 64) = h"
    unfolding x_def using assms(1-6) by (intro dos_fields; linarith)+
  show "uint (drop_bit 11 w) = h" "uint (drop_bit 5 w AND 0x3f) = m"
    using f(2,3) by (simp_all add: uint_and_mask uint_drop_bit u)
  have "uint (w AND 0x1f) = s" using f(1) by (simp add: uint_and_mask u)
  then have "uint ((w AND 0x1f) * 2) = (s * 2) mod 65536" by (simp add: uint_word_ariths(3))
  then show "uint ((w AND 0x1f) * 2) = s * 2" using assms(5,6) by simp
qed

lemma msdos_decode:
  assumes "1980 \<le> time_Year t" "time_Year t \<le> 2107" "timeToMsDosTime t = (d, w)"
  shows "msDosTimeToTime d w =
    time_Date (time_Year t) (time_Month t) (time_Day t) (time_Hour t) (time_Minute t) (time_Second t div 2 * 2)"
proof -
  note dm = day_in_month [OF date_parts(1) [of t]]
  have cl: "0 \<le> time_Hour t" "time_Hour t < 24" "0 \<le> time_Minute t" "time_Minute t < 60"
      "0 \<le> time_Second t" "time_Second t < 60"
    using time_parts(1) [of t] by (simp_all add: valid_clock_def)
  then have s: "0 \<le> time_Second t div 2" "time_Second t div 2 < 30" by linarith+
  have "d = word_of_int (time_Day t + time_Month t * 2 ^ 5 + (time_Year t - 1980) * 2 ^ 9)"
      "w = word_of_int (time_Second t div 2 + time_Minute t * 2 ^ 5 + time_Hour t * 2 ^ 11)"
    using assms(3) by (simp_all only: timeToMsDosTime_def prod.inject)
  note dw = this
  have "time_Day t \<le> 31" "1 \<le> time_Day t" "1 \<le> time_Month t" "time_Month t \<le> 12" using dm by simp_all
  note date = dos_date_fields [OF assms(1,2) this(3,4,2,1) dw(1)]
  note clock = dos_time_fields [OF cl(1-4) s dw(2)]
  show ?thesis unfolding msDosTimeToTime_def date clock ..
qed

text \<open>
  A time in the years from 1980 to 2107 is stored as an MS-DOS date and time and read back as the
  same time on the clock of its location, in UTC, with the seconds rounded down to an even number.
\<close>

lemma msDosTime_roundtrip:
  assumes "1980 \<le> time_Year t" "time_Year t \<le> 2107" "timeToMsDosTime t = (d, w)"
  shows "lt_loc (msDosTimeToTime d w) = UTC \<and>
    t_sec (lt_time (msDosTimeToTime d w)) = local_secs t - local_secs t mod 2 \<and> t_nsec (lt_time (msDosTimeToTime d w)) = 0"
proof -
  note m = msdos_decode [OF assms]
  have "valid_clock (time_Hour t) (time_Minute t) (time_Second t div 2 * 2)"
    using time_parts(1) [of t] by (auto simp: valid_clock_def)
  from time_Date_valid [OF date_parts(1) _ this]
  have "local_secs (msDosTimeToTime d w) = day_number (time_Year t) (time_Month t) (time_Day t) * 86400 +
      time_Hour t * 3600 + time_Minute t * 60 + time_Second t div 2 * 2"
    using assms(1,2) by (simp add: m)
  also have "\<dots> = local_secs t - time_Second t mod 2"
    using time_parts(2) [of t] by (simp add: minus_mod_eq_div_mult [symmetric])
  also have "time_Second t mod 2 = local_secs t mod 2"
    unfolding time_Second_def by (rule mod_mod_cancel) simp
  finally show ?thesis by (simp add: m time_Date_def Let_def local_secs_def)
qed

section \<open>Modes are read back\<close>

text \<open>The modes a Unix archive can hold: permissions, the three special bits, and one type.\<close>

definition unix_mode :: "filemode \<Rightarrow> bool \<Rightarrow> bool \<Rightarrow> bool \<Rightarrow> filemode \<Rightarrow> filemode" where
  "unix_mode p u g s ty = (p AND 0x1ff) OR bit_if u ModeSetuid OR bit_if g ModeSetgid OR bit_if s ModeSticky OR ty"

lemma and_disjoint: "(p AND 0x1ff) AND c = 0" if "(0x1ff :: filemode) AND c = 0" for p c :: filemode
  using that by (simp add: and.assoc)

lemma perm_and:
  "(p AND 0x1ff) AND 0xf000 = (0 :: filemode)" "(p AND 0x1ff) AND 0x800 = (0 :: filemode)" "(p AND 0x1ff) AND 0x400 = (0 :: filemode)"
  "(p AND 0x1ff) AND 0x200 = (0 :: filemode)" "(p AND 0x1ff) AND 0x800000 = (0 :: filemode)" "(p AND 0x1ff) AND 0x400000 = (0 :: filemode)"
  "(p AND 0x1ff) AND 0x200000 = (0 :: filemode)" "(p AND 0x1ff) AND 0x100000 = (0 :: filemode)" "(p AND 0x1ff) AND 0x8f280000 = (0 :: filemode)"
  "(p AND 0x1ff) AND 0x1ff = (p AND 0x1ff :: filemode)"
  by (simp_all add: and.assoc)

lemma mode_numerals:
  "ModeDir = 0x80000000" "ModeSymlink = 0x8000000" "ModeDevice = 0x4000000" "ModeNamedPipe = 0x2000000" "ModeSocket = 0x1000000"
  "ModeSetuid = 0x800000" "ModeSetgid = 0x400000" "ModeCharDevice = 0x200000" "ModeSticky = 0x100000" "ModeIrregular = 0x80000"
  "ModeType = 0x8f280000"
  by (simp_all add: mode_defs)

lemma bit_if_and: "bit_if c x AND m = bit_if c (x AND m)"
  by (simp add: bit_if_def)

lemma bit_if_zero [simp]: "bit_if c 0 = 0" "bit_if c x = 0 \<longleftrightarrow> \<not> c \<or> x = 0"
  by (simp_all add: bit_if_def)

definition unix_bits :: "filemode \<Rightarrow> bool \<Rightarrow> bool \<Rightarrow> bool \<Rightarrow> filemode \<Rightarrow> filemode" where
  "unix_bits p u g s ty = (p AND 0x1ff) OR bit_if u s_ISUID OR bit_if g s_ISGID OR bit_if s s_ISVTX OR ty"

definition type_bits :: "filemode \<Rightarrow> filemode" where
  "type_bits ty = (if ty = ModeDir then s_IFDIR else if ty = ModeSymlink then s_IFLNK else if ty = ModeNamedPipe then s_IFIFO
     else if ty = ModeSocket then s_IFSOCK else if ty = ModeDevice then s_IFBLK else s_IFREG)"

abbreviation "plain_types \<equiv> {0, ModeDir, ModeSymlink, ModeNamedPipe, ModeSocket, ModeDevice}"

lemma unix_mode_and:
  assumes "ty \<in> plain_types"
  shows "unix_mode p u g s ty AND ModeType = ty" "unix_mode p u g s ty AND ModeSetuid = bit_if u ModeSetuid"
    "unix_mode p u g s ty AND ModeSetgid = bit_if g ModeSetgid" "unix_mode p u g s ty AND ModeSticky = bit_if s ModeSticky"
    "unix_mode p u g s ty AND ModeCharDevice = 0" "unix_mode p u g s ty AND 0x1ff = p AND 0x1ff"
  using assms
  by (auto simp: unix_mode_def mode_numerals bit.conj_disj_distrib2 perm_and bit_if_and)

lemma unix_bits_and:
  assumes "ty \<in> plain_types"
  shows "unix_bits p u g s (type_bits ty) AND s_IFMT = type_bits ty" "unix_bits p u g s (type_bits ty) AND s_ISUID = bit_if u s_ISUID"
    "unix_bits p u g s (type_bits ty) AND s_ISGID = bit_if g s_ISGID" "unix_bits p u g s (type_bits ty) AND s_ISVTX = bit_if s s_ISVTX"
    "unix_bits p u g s (type_bits ty) AND 0x1ff = p AND 0x1ff"
  using assms
  by (auto simp: unix_bits_def type_bits_def unix_defs mode_numerals bit.conj_disj_distrib2 perm_and bit_if_and)

lemma fileModeToUnixMode_bits:
  assumes "ty \<in> plain_types"
  shows "fileModeToUnixMode (unix_mode p u g s ty) = unix_bits p u g s (type_bits ty)"
proof -
  have "ModeSetuid \<noteq> 0" "ModeSetgid \<noteq> 0" "ModeSticky \<noteq> 0" by (simp_all add: mode_numerals)
  then show ?thesis
    unfolding fileModeToUnixMode_def Let_def unix_mode_and [OF assms] type_bits_def unix_bits_def
    by (simp add: ac_simps)
qed

lemma unixModeToFileMode_bits:
  assumes "ty \<in> plain_types"
  shows "unixModeToFileMode (unix_bits p u g s (type_bits ty)) = unix_mode p u g s ty"
proof -
  have nz: "s_ISUID \<noteq> 0" "s_ISGID \<noteq> 0" "s_ISVTX \<noteq> 0" by (simp_all add: unix_defs)
  have "unixModeToFileMode (unix_bits p u g s (type_bits ty)) =
      ((((p AND 0x1ff) OR ty) OR bit_if g ModeSetgid) OR bit_if u ModeSetuid) OR bit_if s ModeSticky"
    unfolding unixModeToFileMode_def Let_def unix_bits_and [OF assms] using assms nz
    by (auto simp: type_bits_def unix_defs mode_numerals)
  then show ?thesis by (simp add: unix_mode_def ac_simps)
qed

lemma and_single_bit: "x AND 2 ^ n = (if x AND 2 ^ n \<noteq> 0 then 2 ^ n else 0)" for x :: filemode
proof -
  have "x AND 2 ^ n = (if bit x n then 2 ^ n else 0)"
    by (rule bit_word_eqI) (auto simp: bit_simps)
  then show ?thesis by (metis (full_types))
qed

lemma unix_mode_complete:
  assumes "mode AND NOT (ModeType OR ModeSetuid OR ModeSetgid OR ModeSticky OR 0x1ff) = 0"
  shows "mode = unix_mode mode (mode AND ModeSetuid \<noteq> 0) (mode AND ModeSetgid \<noteq> 0) (mode AND ModeSticky \<noteq> 0) (mode AND ModeType)"
proof -
  let ?K = "ModeType OR ModeSetuid OR ModeSetgid OR ModeSticky OR 0x1ff"
  have "mode = mode AND (?K OR NOT ?K)" by (simp only: bit.disj_cancel_right and.right_neutral)
  also have "\<dots> = mode AND ?K" using assms by (simp only: bit.conj_disj_distrib or.right_neutral)
  also have "\<dots> = (mode AND 0x1ff) OR (mode AND ModeSetuid) OR (mode AND ModeSetgid) OR (mode AND ModeSticky) OR (mode AND ModeType)"
    by (simp only: bit.conj_disj_distrib ac_simps)
  also have "\<dots> = unix_mode mode (mode AND ModeSetuid \<noteq> 0) (mode AND ModeSetgid \<noteq> 0) (mode AND ModeSticky \<noteq> 0) (mode AND ModeType)"
    unfolding unix_mode_def bit_if_def
    using and_single_bit [of mode 23] and_single_bit [of mode 22] and_single_bit [of mode 20]
    by (simp only: ModeSetuid_def ModeSetgid_def ModeSticky_def)
  finally show ?thesis .
qed

lemma uint_unix_bits: "ty \<in> plain_types \<Longrightarrow> uint (unix_bits p u g s (type_bits ty)) < 65536"
proof -
  assume ty: "ty \<in> plain_types"
  have "unix_bits p u g s (type_bits ty) = unix_bits p u g s (type_bits ty) AND mask 16"
    using ty by (auto simp: unix_bits_def type_bits_def unix_defs mode_numerals bit.conj_disj_distrib2 bit_if_and and.assoc mask_eq_exp_minus_1)
  then have "unix_bits p u g s (type_bits ty) = take_bit 16 (unix_bits p u g s (type_bits ty))" by (simp add: take_bit_eq_mask)
  then have "uint (unix_bits p u g s (type_bits ty)) = take_bit 16 (uint (unix_bits p u g s (type_bits ty)))"
    by (metis unsigned_take_bit_eq)
  then show ?thesis using take_bit_int_less_exp [of 16 "uint (unix_bits p u g s (type_bits ty))"] by simp
qed

lemma drop_push_attrs:
  fixes x a b :: "32 word"
  assumes "uint x < 65536" "a = 0 \<or> a = msdosDir" "b = 0 \<or> b = msdosReadOnly"
  shows "drop_bit 16 ((push_bit 16 x OR a) OR b) = x"
proof -
  have "drop_bit 16 a = 0" "drop_bit 16 b = 0" using assms(2,3) by (auto simp: msdosDir_def msdosReadOnly_def)
  moreover have "drop_bit 16 (push_bit 16 x) = x"
  proof (rule bit_word_eqI)
    fix n assume n: "n < LENGTH(32)"
    have "take_bit 16 (uint x) = uint x" using assms(1) by (simp add: take_bit_int_eq_self)
    moreover have "bit (uint x) n \<longleftrightarrow> bit x n" by (simp add: bit_unsigned_iff)
    ultimately have "bit x n \<Longrightarrow> n < 16" by (metis bit_take_bit_iff)
    then show "bit (drop_bit 16 (push_bit 16 x)) n = bit x n" using n by (auto simp: bit_simps)
  qed
  ultimately show ?thesis by (simp add: drop_bit_or)
qed

lemma creator_byte: "drop_bit 8 ((v AND 0xff) OR push_bit 8 creatorUnix) = creatorUnix"
proof -
  have "drop_bit 8 (v AND 0xff) = 0" by (rule bit_word_eqI) (auto simp: bit_simps)
  moreover have "drop_bit 8 (push_bit 8 creatorUnix) = creatorUnix" by (simp add: creatorUnix_def)
  ultimately show ?thesis by (simp add: drop_bit_or)
qed

lemma mode_stored:
  assumes "mode AND NOT (ModeType OR ModeSetuid OR ModeSetgid OR ModeSticky OR 0x1ff) = 0"
    and "mode AND ModeType \<in> {0, ModeDir, ModeSymlink, ModeNamedPipe, ModeSocket, ModeDevice}"
  shows "fh_Mode (SetMode mode h) = mode OR bit_if (fh_Name h \<noteq> [] \<and> last (fh_Name h) = 47) ModeDir"
proof -
  define u g s ty where "u \<longleftrightarrow> mode AND ModeSetuid \<noteq> 0" and "g \<longleftrightarrow> mode AND ModeSetgid \<noteq> 0"
    and "s \<longleftrightarrow> mode AND ModeSticky \<noteq> 0" and "ty = mode AND ModeType"
  have ty: "ty \<in> plain_types" using assms(2) by (simp add: ty_def)
  have mode: "mode = unix_mode mode u g s ty" using unix_mode_complete [OF assms(1)] by (simp add: u_def g_def s_def ty_def)
  have f: "fileModeToUnixMode mode = unix_bits mode u g s (type_bits ty)"
    by (subst mode) (rule fileModeToUnixMode_bits [OF ty])
  have attrs: "drop_bit 16 (fh_ExternalAttrs (SetMode mode h)) = unix_bits mode u g s (type_bits ty)"
  proof -
    have "fh_ExternalAttrs (SetMode mode h) =
        (push_bit 16 (unix_bits mode u g s (type_bits ty)) OR bit_if (mode AND ModeDir \<noteq> 0) msdosDir)
        OR bit_if (mode AND 0x80 = 0) msdosReadOnly"
      by (simp add: SetMode_def f)
    then show ?thesis using drop_push_attrs [OF uint_unix_bits [OF ty]] by (simp only: bit_if_def split: if_split) blast
  qed
  have "drop_bit 8 (fh_CreatorVersion (SetMode mode h)) = creatorUnix" "fh_Name (SetMode mode h) = fh_Name h"
    using creator_byte by (simp_all add: SetMode_def del: drop_bit_or)
  moreover have "unixModeToFileMode (unix_bits mode u g s (type_bits ty)) = mode"
    using unixModeToFileMode_bits [OF ty] mode by simp
  ultimately show ?thesis
    unfolding fh_Mode_def Let_def attrs by (simp add: bit_if_def)
qed

text \<open>
  C19. \<^verbatim>\<open>SetMode\<close> stores every mode that Unix knows, that is permission bits, set-user,
  set-group and sticky bits and the type of a regular file, directory, symbolic link, pipe,
  socket or block device, and \<^verbatim>\<open>Mode\<close> returns it unchanged (with the directory bit added
  for a name that ends in a slash).
\<close>

theorem Mode_SetMode:
  assumes "mode AND NOT (ModeType OR ModeSetuid OR ModeSetgid OR ModeSticky OR 0x1ff) = 0"
    and "mode AND ModeType \<in> {0, ModeDir, ModeSymlink, ModeNamedPipe, ModeSocket, ModeDevice}"
  shows "fh_Mode (SetMode mode h) = mode OR bit_if (fh_Name h \<noteq> [] \<and> last (fh_Name h) = 47) ModeDir"
  using assms by (rule mode_stored)

theorem Mode_SetMode_witness:
  "fh_Mode (SetMode (ModeDir OR ModeSticky OR 0x1ff) new_FileHeader) = ModeDir OR ModeSticky OR 0x1ff"
proof -
  let ?m = "ModeDir OR ModeSticky OR 0x1ff"
  have "?m AND NOT (ModeType OR ModeSetuid OR ModeSetgid OR ModeSticky OR 0x1ff) = 0" by (simp add: mode_numerals)
  moreover have "?m AND ModeType \<in> {0, ModeDir, ModeSymlink, ModeNamedPipe, ModeSocket, ModeDevice}" by (simp add: mode_numerals)
  ultimately show ?thesis using Mode_SetMode [of ?m new_FileHeader] by (simp add: new_FileHeader_def bit_if_def)
qed

lemma and_NOT_ModeType: "c AND ModeType = 0 \<Longrightarrow> (mode AND NOT ModeType) AND c = mode AND c" for c :: filemode
proof -
  assume "c AND ModeType = 0"
  then have "c AND NOT ModeType = c"
    using bit.conj_disj_distrib [of c ModeType "NOT ModeType"] by (simp add: bit.disj_cancel_right)
  then show ?thesis by (simp add: and.assoc and.commute [of "NOT ModeType"])
qed

text \<open>
  C21. A character device loses its type. With the \<^verbatim>\<open>os.ModeType\<close> of Go 1.12, the version in
  \<^verbatim>\<open>go.mod\<close>, the type bits of its mode are those of a device and of a character device, which no case of
  \<^verbatim>\<open>fileModeToUnixMode\<close> matches: whatever its other bits and the header, \<^verbatim>\<open>SetMode\<close> stores it as
  a regular file with the same permission, set-user, set-group and sticky bits, and that is what \<^verbatim>\<open>Mode\<close> returns
  (with the directory bit added for a name that ends in a slash).
\<close>

theorem SetMode_char_device:
  assumes "mode AND NOT (ModeType OR ModeSetuid OR ModeSetgid OR ModeSticky OR 0x1ff) = 0"
    and "mode AND ModeType = ModeDevice OR ModeCharDevice"
  shows "SetMode mode h = SetMode (mode AND NOT ModeType) h \<and>
    fh_Mode (SetMode mode h) = (mode AND NOT ModeType) OR bit_if (fh_Name h \<noteq> [] \<and> last (fh_Name h) = 47) ModeDir"
proof -
  let ?m = "mode AND NOT ModeType"
  have m: "?m AND c = mode AND c" if "c \<in> {ModeSetuid, ModeSetgid, ModeSticky, 0x1ff, 0x80}" for c
    using that by (intro and_NOT_ModeType) (auto simp: mode_numerals)
  have ty: "?m AND ModeType = 0" "?m AND ModeDir = 0" "mode AND ModeDir = 0"
  proof -
    show t: "?m AND ModeType = 0" by (simp add: and.assoc)
    have d: "x AND ModeDir = (x AND ModeType) AND ModeDir" for x :: filemode by (simp add: and.assoc mode_numerals)
    show "?m AND ModeDir = 0" "mode AND ModeDir = 0" by (subst d, simp only: t assms(2), simp add: mode_numerals)+
  qed
  have f: "fileModeToUnixMode mode = fileModeToUnixMode ?m"
    unfolding fileModeToUnixMode_def Let_def ty(1) assms(2) using m by (simp add: mode_numerals)
  have "mode AND 0x80 = ?m AND 0x80" using m by simp
  then have eq: "SetMode mode h = SetMode ?m h" unfolding SetMode_def f ty(2,3) by simp
  have "?m AND NOT (ModeType OR ModeSetuid OR ModeSetgid OR ModeSticky OR 0x1ff) = 0"
    using assms(1) by (metis and.assoc and.commute and_zero_eq)
  then have "fh_Mode (SetMode ?m h) = ?m OR bit_if (fh_Name h \<noteq> [] \<and> last (fh_Name h) = 47) ModeDir"
    by (rule mode_stored) (simp add: ty)
  then show ?thesis by (simp add: eq)
qed

theorem SetMode_char_device_witness:
  "fh_Mode (SetMode (ModeDevice OR ModeCharDevice OR ModeSetgid OR 0x1b6) new_FileHeader) = ModeSetgid OR 0x1b6"
proof -
  let ?m = "ModeDevice OR ModeCharDevice OR ModeSetgid OR 0x1b6"
  have "?m AND NOT (ModeType OR ModeSetuid OR ModeSetgid OR ModeSticky OR 0x1ff) = 0" "?m AND ModeType = ModeDevice OR ModeCharDevice"
    "?m AND NOT ModeType = ModeSetgid OR 0x1b6" by (simp_all add: mode_numerals)
  then show ?thesis using SetMode_char_device [of ?m new_FileHeader, THEN conjunct2] by (simp add: new_FileHeader_def bit_if_def)
qed

text \<open>A rounded duration is a multiple of the unit or the end of the range.\<close>

lemma sat64_cases: "sat64 x = x \<or> sat64 x = 9223372036854775807 \<or> sat64 x = - 9223372036854775808"
  by (auto simp: sat64_def max_def min_def)

lemma duration_Round_multiple:
  assumes "0 < m"
  shows "m dvd duration_Round d m \<or> duration_Round d m = 9223372036854775807 \<or> duration_Round d m = - 9223372036854775808"
proof -
  have 2: "m dvd d - d mod m" by (rule dvd_minus_mod)
  have "m dvd - (- d - (- d) mod m)" using dvd_minus_mod [of m "- d"] by (simp only: dvd_minus_iff)
  then have 1: "m dvd d + (- d) mod m" by (simp add: add.commute)
  have 3: "m dvd d - m + (- d) mod m"
  proof -
    have "d - m + (- d) mod m = (d + (- d) mod m) - m" by simp
    then show ?thesis using 1 by (simp only: dvd_diff dvd_refl)
  qed
  have 4: "m dvd d + m - d mod m"
  proof -
    have "d + m - d mod m = (d - d mod m) + m" by simp
    then show ?thesis using 2 by (simp only: dvd_add dvd_refl)
  qed
  from 1 2 3 4 show ?thesis
    using assms sat64_cases [of "d - m + (- d) mod m"] sat64_cases [of "d + m - d mod m"]
    unfolding duration_Round_def Let_def by auto
qed

lemma timeZone_quarters:
  obtains q where "timeZone d = FixedZone (900 * q)" "- 48 \<le> q" "q \<le> 56"
proof -
  let ?m = "15 * 60 * 1000000000 :: int"
  define r where "r = duration_Round d ?m"
  define s where "s = (if r < - 12 * 3600 * 1000000000 \<or> 14 * 3600 * 1000000000 < r then 0 else r)"
  have tz: "timeZone d = FixedZone (if s < 0 then - ((- s) div 1000000000) else s div 1000000000)"
    by (simp add: timeZone_def Let_def r_def s_def)
  have "?m dvd r \<or> r = 9223372036854775807 \<or> r = - 9223372036854775808"
    using duration_Round_multiple [of ?m d] by (simp add: r_def)
  then have "?m dvd s" "- 12 * 3600 * 1000000000 \<le> s" "s \<le> 14 * 3600 * 1000000000" by (auto simp: s_def)
  then obtain q where q: "s = ?m * q" "- 48 \<le> q" "q \<le> 56" by (auto elim!: dvdE)
  have "(if s < 0 then - ((- s) div 1000000000) else s div 1000000000) = 900 * q"
  proof -
    have "s = (900 * q) * 1000000000" "- s = (- 900 * q) * 1000000000" using q(1) by simp_all
    then show ?thesis by (simp only: nonzero_mult_div_cancel_right) simp
  qed
  then show thesis using that q tz by simp
qed
text \<open>
  C20. The zone guessed from the two time stamps of a file is a whole number of quarters of an hour
  and lies between twelve hours behind and fourteen hours ahead of UTC.
\<close>

theorem timeZone_range:
  "\<exists>q. timeZone d = FixedZone (900 * q) \<and> - 48 \<le> q \<and> q \<le> 56"
  by (rule timeZone_quarters [of d]) blast

end
