(* ===== verification/Zip_Register.thy ===== *)
theory Zip_Register
  imports Zip_Struct Go_IO
begin

text \<open>
  The file \<^verbatim>\<open>zip/register.go\<close>: compression settings and their validation, and the registries
  of compressors and decompressors. Messages are without the numbers
  formatted into them.
\<close>

section \<open>Settings\<close>

record FlateSettings =
  fs_Level :: int
  fs_BlockSize :: int
  fs_Blocks :: int

record CompressionSettings =
  cs_Flate :: FlateSettings

definition FlateSettings_Validate :: "FlateSettings \<Rightarrow> go_error option" where
  "FlateSettings_Validate fs =
     (if fs_Level fs < - 2 \<or> 9 < fs_Level fs then Some (ErrMsg ''flate settings: level must be within [-2,9]'')
      else if fs_Blocks fs \<le> 0 then Some (ErrMsg ''flate settings: blocks must be equal or greater than 0'')
      else if fs_BlockSize fs \<le> 16384 then Some (ErrMsg ''flate settings: block size must be equal or greater than 16384'')
      else None)"

definition CompressionSettings_Validate :: "CompressionSettings \<Rightarrow> go_error option" where
  "CompressionSettings_Validate cs =
     (case FlateSettings_Validate (cs_Flate cs) of Some e \<Rightarrow> Some e | None \<Rightarrow> None)"

definition defaultCompressionSettings :: CompressionSettings where
  "defaultCompressionSettings = \<lparr>cs_Flate = \<lparr>fs_Level = - 1, fs_BlockSize = 256 * 1024, fs_Blocks = 16\<rparr>\<rparr>"

definition bestCompressionSettings :: CompressionSettings where
  "bestCompressionSettings = \<lparr>cs_Flate = \<lparr>fs_Level = 9, fs_BlockSize = 512 * 1024, fs_Blocks = 16\<rparr>\<rparr>"

text \<open>Settings that are accepted, with blocks and a number of blocks that fit the address space.\<close>

definition usable_settings :: "CompressionSettings \<Rightarrow> bool" where
  "usable_settings s \<longleftrightarrow> CompressionSettings_Validate s = None \<and> fs_BlockSize (cs_Flate s) \<le> 2 ^ 47 \<and> fs_Blocks (cs_Flate s) \<le> 2 ^ 40"

lemma usable_default: "usable_settings defaultCompressionSettings"
  by (simp add: usable_settings_def CompressionSettings_Validate_def FlateSettings_Validate_def defaultCompressionSettings_def)

section \<open>Registries\<close>

text \<open>
  A compressor makes, from settings and the writer it writes to, a \<^verbatim>\<open>io.WriteCloser\<close>: a
  state and the operations on it, which take and return the state of the writer below.
\<close>

record ('c, 'u) compressor_ops =
  cp_write :: "'c \<Rightarrow> 'u \<Rightarrow> byte list \<Rightarrow> nat \<times> go_error option \<times> 'c \<times> 'u"
  cp_close :: "'c \<Rightarrow> 'u \<Rightarrow> go_error option \<times> 'c \<times> 'u"

type_synonym ('c, 'u) compressor_fun =
  "CompressionSettings \<Rightarrow> 'u io_writer_ops \<Rightarrow> 'u \<Rightarrow> (('c, 'u) compressor_ops \<times> 'c) result \<times> 'u"

text \<open>\<^verbatim>\<open>sync.Map.LoadOrStore\<close>: the map and whether the key was there.\<close>

definition LoadOrStore :: "'k \<Rightarrow> 'v \<Rightarrow> ('k \<rightharpoonup> 'v) \<Rightarrow> bool \<times> ('k \<rightharpoonup> 'v)" where
  "LoadOrStore k v m = (case m k of Some _ \<Rightarrow> (True, m) | None \<Rightarrow> (False, m(k \<mapsto> v)))"

definition RegisterDecompressor :: "16 word \<Rightarrow> 'd \<Rightarrow> (16 word \<rightharpoonup> 'd) \<Rightarrow> (16 word \<rightharpoonup> 'd) result" where
  "RegisterDecompressor method dcomp decompressors =
     (case LoadOrStore method dcomp decompressors of
        (dup, m) \<Rightarrow> if dup then Inl (Panic ''decompressor already registered'') else Inr m)"

definition RegisterCompressor :: "16 word \<Rightarrow> 'c \<Rightarrow> (16 word \<rightharpoonup> 'c) \<Rightarrow> (16 word \<rightharpoonup> 'c) result" where
  "RegisterCompressor method compr compressors =
     (case LoadOrStore method compr compressors of
        (dup, m) \<Rightarrow> if dup then Inl (Panic ''compressor already registered'') else Inr m)"

text \<open>
  \<^verbatim>\<open>nopCloser\<close>, the writer of the method \<^verbatim>\<open>Store\<close>: it passes everything on. It has no
  state; the value that stands for it is any one.
\<close>

definition nopCloser_ops :: "'u io_writer_ops \<Rightarrow> ('c, 'u) compressor_ops" where
  "nopCloser_ops wops =
     \<lparr>cp_write = (\<lambda>c u p. case op_write wops u p of (n, e, u') \<Rightarrow> (n, e, c, u')),
      cp_close = (\<lambda>c u. (None, c, u))\<rparr>"

definition store_compressor :: "'c \<Rightarrow> ('c, 'u) compressor_fun" where
  "store_compressor c = (\<lambda>s wops u. (Inr (nopCloser_ops wops, c), u))"

text \<open>
  The package's registry after \<^verbatim>\<open>init\<close>, with the compressor of \<^verbatim>\<open>newFlateWriter\<close> as
  a parameter, and the package level lookup.
\<close>

definition init_compressors :: "'c \<Rightarrow> ('c, 'u) compressor_fun \<Rightarrow> 16 word \<Rightarrow> ('c, 'u) compressor_fun option" where
  "init_compressors c newFlateWriter = [Store \<mapsto> store_compressor c, Deflate \<mapsto> newFlateWriter]"

definition init_decompressors :: "'d \<Rightarrow> 'd \<Rightarrow> 16 word \<Rightarrow> 'd option" where
  "init_decompressors nopCloser newFlateReader = [Store \<mapsto> nopCloser, Deflate \<mapsto> newFlateReader]"

end
