(* ===== verification/Zip_Buf.thy ===== *)
theory Zip_Buf
  imports Go_Prelude "HOL-Library.Monad_Syntax"
begin

text \<open>
  The types \<^verbatim>\<open>readBuf\<close> (\<^verbatim>\<open>zip/reader.go\<close>) and \<^verbatim>\<open>writeBuf\<close>
  (\<^verbatim>\<open>zip/writer.go\<close>): little-endian numbers taken from the front of a slice, or stored
  there, after which the slice starts behind them. An access beyond the end of the slice is a
  run-time panic in Go; the operations are in the option monad and \<open>None\<close> is that panic.

  A \<^verbatim>\<open>writeBuf\<close> is a window into an array that is written out later. It is a pair of
  the part of the array before the window, and the window.
\<close>

section \<open>Little-endian numbers\<close>

fun le_val :: "byte list \<Rightarrow> nat" where
  "le_val [] = 0"
| "le_val (b # bs) = unat b + 256 * le_val bs"

fun le_bytes :: "nat \<Rightarrow> nat \<Rightarrow> byte list" where
  "le_bytes 0 x = []"
| "le_bytes (Suc n) x = of_nat x # le_bytes n (x div 256)"

lemma length_le_bytes [simp]: "length (le_bytes n x) = n"
  by (induction n x rule: le_bytes.induct) simp_all

lemma le_val_bound: "le_val bs < 256 ^ length bs"
proof (induction bs)
  case (Cons b bs)
  have "unat b < 256" using unsigned_less [where 'a = nat, of b] by simp
  with Cons show ?case by simp
qed simp

lemma le_val_bytes: "x < 256 ^ n \<Longrightarrow> le_val (le_bytes n x) = x"
proof (induction n x rule: le_bytes.induct)
  case (2 n x)
  then have "le_val (le_bytes n (x div 256)) = x div 256" by (simp add: less_mult_imp_div_less mult.commute)
  then show ?case by (simp add: unat_of_nat)
qed simp

lemma le_bytes_val: "le_bytes (length bs) (le_val bs) = bs"
proof (induction bs)
  case (Cons b bs)
  have "unat b < 256" using unsigned_less [where 'a = nat, of b] by simp
  then have "(unat b + 256 * le_val bs) div 256 = le_val bs" by simp
  moreover have "unat (of_nat (unat b + 256 * le_val bs) :: byte) = unat b"
    using \<open>unat b < 256\<close> by (simp add: unat_of_nat del: of_nat_add)
  then have "of_nat (unat b + 256 * le_val bs) = b" by (metis of_nat_unat ucast_id)
  ultimately show ?case using Cons by simp
qed simp

section \<open>readBuf\<close>

definition rb_uint8 :: "byte list \<Rightarrow> (8 word \<times> byte list) option" where
  "rb_uint8 b = (if length b < 1 then None else Some (b ! 0, drop 1 b))"

definition rb_uint16 :: "byte list \<Rightarrow> (16 word \<times> byte list) option" where
  "rb_uint16 b = (if length b < 2 then None else Some (of_nat (le_val (take 2 b)), drop 2 b))"

definition rb_uint32 :: "byte list \<Rightarrow> (32 word \<times> byte list) option" where
  "rb_uint32 b = (if length b < 4 then None else Some (of_nat (le_val (take 4 b)), drop 4 b))"

definition rb_uint64 :: "byte list \<Rightarrow> (64 word \<times> byte list) option" where
  "rb_uint64 b = (if length b < 8 then None else Some (of_nat (le_val (take 8 b)), drop 8 b))"

definition rb_sub :: "nat \<Rightarrow> byte list \<Rightarrow> (byte list \<times> byte list) option" where
  "rb_sub n b = (if length b < n then None else Some (take n b, drop n b))"

text \<open>\<^verbatim>\<open>b = b[n:]\<close>\<close>

definition rb_skip :: "nat \<Rightarrow> byte list \<Rightarrow> byte list option" where
  "rb_skip n b = (if length b < n then None else Some (drop n b))"

section \<open>writeBuf\<close>

type_synonym wbuf = "byte list \<times> byte list"

definition wb_make :: "nat \<Rightarrow> wbuf" where
  "wb_make n = ([], replicate n 0)"

text \<open>The whole array.\<close>

definition wb_bytes :: "wbuf \<Rightarrow> byte list" where
  "wb_bytes b = fst b @ snd b"

definition wb_store :: "byte list \<Rightarrow> wbuf \<Rightarrow> wbuf option" where
  "wb_store xs b = (if length (snd b) < length xs then None
     else Some (fst b @ xs, drop (length xs) (snd b)))"

definition wb_uint8 :: "8 word \<Rightarrow> wbuf \<Rightarrow> wbuf option" where
  "wb_uint8 v b = wb_store [v] b"

definition wb_uint16 :: "16 word \<Rightarrow> wbuf \<Rightarrow> wbuf option" where
  "wb_uint16 v b = wb_store (le_bytes 2 (unat v)) b"

definition wb_uint32 :: "32 word \<Rightarrow> wbuf \<Rightarrow> wbuf option" where
  "wb_uint32 v b = wb_store (le_bytes 4 (unat v)) b"

definition wb_uint64 :: "64 word \<Rightarrow> wbuf \<Rightarrow> wbuf option" where
  "wb_uint64 v b = wb_store (le_bytes 8 (unat v)) b"

definition wb_skip :: "nat \<Rightarrow> wbuf \<Rightarrow> wbuf option" where
  "wb_skip n b = (if length (snd b) < n then None
     else Some (fst b @ take n (snd b), drop n (snd b)))"

section \<open>Reading what was written\<close>

named_theorems buf_simps "reading little-endian numbers back from a buffer"

lemma rb_uint8_store [buf_simps]: "rb_uint8 (v # xs) = Some (v, xs)"
  by (simp add: rb_uint8_def)

lemma rb_uint16_store [buf_simps]: "rb_uint16 (le_bytes 2 (unat v) @ xs) = Some (v, xs)"
proof -
  have "unat v < 256 ^ 2" using unsigned_less [where 'a = nat, of v] by simp
  then show ?thesis by (simp add: rb_uint16_def le_val_bytes)
qed

lemma rb_uint32_store [buf_simps]: "rb_uint32 (le_bytes 4 (unat v) @ xs) = Some (v, xs)"
proof -
  have "unat v < 256 ^ 4" using unsigned_less [where 'a = nat, of v] by simp
  then show ?thesis by (simp add: rb_uint32_def le_val_bytes)
qed

lemma rb_uint64_store [buf_simps]: "rb_uint64 (le_bytes 8 (unat v) @ xs) = Some (v, xs)"
proof -
  have "unat v < 256 ^ 8" using unsigned_less [where 'a = nat, of v] by simp
  then show ?thesis by (simp add: rb_uint64_def le_val_bytes)
qed

lemma rb_sub_append [buf_simps]: "length xs = n \<Longrightarrow> rb_sub n (xs @ ys) = Some (xs, ys)"
  by (simp add: rb_sub_def)

lemma rb_skip_append [buf_simps]: "length xs = n \<Longrightarrow> rb_skip n (xs @ ys) = Some ys"
  by (simp add: rb_skip_def)

text \<open>The numbers at the front of a long enough buffer.\<close>

lemma rb_defined:
  "b \<noteq> [] \<Longrightarrow> rb_uint8 b = Some (b ! 0, drop 1 b)"
  "2 \<le> length b \<Longrightarrow> rb_uint16 b = Some (of_nat (le_val (take 2 b)), drop 2 b)"
  "4 \<le> length b \<Longrightarrow> rb_uint32 b = Some (of_nat (le_val (take 4 b)), drop 4 b)"
  "8 \<le> length b \<Longrightarrow> rb_uint64 b = Some (of_nat (le_val (take 8 b)), drop 8 b)"
  "n \<le> length b \<Longrightarrow> rb_sub n b = Some (take n b, drop n b)"
  "n \<le> length b \<Longrightarrow> rb_skip n b = Some (drop n b)"
  by (simp_all add: rb_uint8_def rb_uint16_def rb_uint32_def rb_uint64_def rb_sub_def rb_skip_def)

lemma wb_defined:
  "r \<noteq> [] \<Longrightarrow> wb_uint8 u8 (d, r) = Some (d @ [u8], drop 1 r)"
  "2 \<le> length r \<Longrightarrow> wb_uint16 u16 (d, r) = Some (d @ le_bytes 2 (unat u16), drop 2 r)"
  "4 \<le> length r \<Longrightarrow> wb_uint32 u32 (d, r) = Some (d @ le_bytes 4 (unat u32), drop 4 r)"
  "8 \<le> length r \<Longrightarrow> wb_uint64 u64 (d, r) = Some (d @ le_bytes 8 (unat u64), drop 8 r)"
  "n \<le> length r \<Longrightarrow> wb_skip n (d, r) = Some (d @ take n r, drop n r)"
  by (simp_all add: wb_uint8_def wb_uint16_def wb_uint32_def wb_uint64_def wb_skip_def wb_store_def)

end
