(* ===== verification/Go_Crc32.thy ===== *)
theory Go_Crc32
  imports Go_Prelude
begin

text \<open>
  Go's \<^verbatim>\<open>hash/crc32\<close> with the IEEE polynomial, bit by bit. The state of a
  \<^verbatim>\<open>hash.Hash32\<close> is its current sum; writing updates it, \<^verbatim>\<open>Sum32\<close> returns it.
\<close>

definition crc_shift :: "32 word \<Rightarrow> 32 word" where
  "crc_shift c = (if bit c 0 then drop_bit 1 c XOR 0xedb88320 else drop_bit 1 c)"

definition crc_byte :: "32 word \<Rightarrow> byte \<Rightarrow> 32 word" where
  "crc_byte c b = (crc_shift ^^ 8) (c XOR ucast b)"

definition crc32_Write :: "32 word \<Rightarrow> byte list \<Rightarrow> 32 word" where
  "crc32_Write crc p = NOT (foldl crc_byte (NOT crc) p)"

definition crc32_NewIEEE :: "32 word" where
  "crc32_NewIEEE = 0"

abbreviation crc32_of :: "byte list \<Rightarrow> 32 word" where
  "crc32_of p \<equiv> crc32_Write crc32_NewIEEE p"

lemma crc32_Write_append: "crc32_Write c (xs @ ys) = crc32_Write (crc32_Write c xs) ys"
  by (simp add: crc32_Write_def)

lemma crc32_Write_Nil [simp]: "crc32_Write c [] = c"
  by (simp add: crc32_Write_def)

text \<open>For evaluation.\<close>

lemma crc_byte_unfold:
  "crc_byte c b = (let step = crc_shift in step (step (step (step (step (step (step (step (c XOR ucast b)))))))))"
  by (simp add: crc_byte_def eval_nat_numeral)

end
