(* ===== verification/Zip_Reader.thy ===== *)
theory Zip_Reader
  imports Zip_Buf Zip_Struct Go_IO Go_Utf8 Go_Crc32
begin

text \<open>
  The file \<^verbatim>\<open>zip/reader.go\<close>: the search for the end of the central directory, the
  entries of the directory with their extra fields, the position of a file's data, data
  descriptors, and the reader that checks sizes and checksums; and
  \<^verbatim>\<open>zip/normalize_name_encoding.go\<close>.

  The archive is an \<^verbatim>\<open>io.ReaderAt\<close>, a function of an offset and a length that has no
  state of its own. An \<^verbatim>\<open>io.SectionReader\<close> is its position, and is an
  \<^verbatim>\<open>io.Reader\<close>. The \<^verbatim>\<open>bufio.Reader\<close> between the section and
  \<^verbatim>\<open>readDirectoryHeader\<close> changes the sizes of the pieces read and nothing else, and is left out.
\<close>

section \<open>io.ReaderAt and io.SectionReader\<close>

text \<open>
  A call of \<^verbatim>\<open>ReadAt\<close> stores what it reads at the front of a new buffer of zeros
  (\<open>fill_buf\<close>).
\<close>

type_synonym reader_at = "int \<Rightarrow> nat \<Rightarrow> byte list \<times> go_error option"

definition fill_buf :: "nat \<Rightarrow> byte list \<Rightarrow> byte list" where
  "fill_buf n bs = copy_into (replicate n 0) bs"

definition section_Read :: "reader_at \<Rightarrow> int \<Rightarrow> int \<Rightarrow> nat \<Rightarrow> byte list \<times> go_error option \<times> int" where
  "section_Read ra limit off n =
     (if limit \<le> off then ([], Some EOF, off)
      else case ra off (min n (nat (limit - off))) of (bs, e) \<Rightarrow> (bs, e, off + int (length bs)))"

definition section_ops :: "reader_at \<Rightarrow> int \<Rightarrow> int io_reader_ops" where
  "section_ops ra limit = \<lparr>op_read = section_Read ra limit, op_seek = None\<rparr>"

section \<open>Names and encodings\<close>

definition ValidRune :: "nat \<Rightarrow> bool" where
  "ValidRune r \<longleftrightarrow> r < 0xd800 \<or> (0xdfff < r \<and> r \<le> 0x10ffff)"

text \<open>\<^verbatim>\<open>detectUTF8\<close>: the pair of \<^verbatim>\<open>valid\<close> and \<^verbatim>\<open>require\<close>.\<close>

function detect_loop :: "gostring \<Rightarrow> bool \<Rightarrow> bool \<times> bool" where
  "detect_loop s require =
     (if s = [] then (True, require)
      else
        let r = fst (DecodeRune s); size = snd (DecodeRune s)
        in if r < 0x20 \<or> 0x7d < r \<or> r = 0x5c then
             if \<not> ValidRune r \<or> (r = RuneError \<and> size = 1) then (False, False)
             else detect_loop (drop size s) True
           else detect_loop (drop size s) require)"
  by pat_completeness auto

termination
  by (relation "measure (\<lambda>(s, _). length s)") (auto dest: DecodeRune_size)

definition detectUTF8 :: "gostring \<Rightarrow> bool \<times> bool" where
  "detectUTF8 s = detect_loop s False"

function ValidString :: "gostring \<Rightarrow> bool" where
  "ValidString s =
     (if s = [] then True
      else \<not> (fst (DecodeRune s) = RuneError \<and> snd (DecodeRune s) = 1) \<and> ValidString (drop (snd (DecodeRune s)) s))"
  by pat_completeness auto

termination
  by (relation "measure length") (auto dest: DecodeRune_size)

declare detect_loop.simps [simp del] ValidString.simps [simp del]

text \<open>The result of code that reads from a \<^verbatim>\<open>readBuf\<close>.\<close>

definition or_panic :: "'a result option \<Rightarrow> 'a result" where
  "or_panic r = (case r of None \<Rightarrow> Inl (Panic ''index out of range'') | Some res \<Rightarrow> res)"

section \<open>Files\<close>

text \<open>
  A \<^verbatim>\<open>File\<close> without its pointers to the \<^verbatim>\<open>Reader\<close> and the archive, which the
  operations take as arguments.
\<close>

record File =
  f_header :: FileHeader
  f_zipsize :: int
  f_headerOffset :: int

definition hasDataDescriptor :: "File \<Rightarrow> bool" where
  "hasDataDescriptor f \<longleftrightarrow> fh_Flags (f_header f) AND 0x8 \<noteq> 0"

definition findBodyOffset :: "reader_at \<Rightarrow> File \<Rightarrow> int result" where
  "findBodyOffset ra f =
     (case ra (f_headerOffset f) fileHeaderLen of
        (buf, Some e) \<Rightarrow> Inl e
      | (buf, None) \<Rightarrow>
          or_panic (do {
             (sig, b) \<leftarrow> rb_uint32 (fill_buf fileHeaderLen buf);
             if sig \<noteq> fileHeaderSignature then Some (Inl ErrFormat)
             else do {
               b \<leftarrow> rb_skip 22 b;
               (filenameLen, b) \<leftarrow> rb_uint16 b;
               (extraLen, b) \<leftarrow> rb_uint16 b;
               Some (Inr (int (fileHeaderLen + unat filenameLen + unat extraLen)))
             }
           }))"

definition DataOffset :: "reader_at \<Rightarrow> File \<Rightarrow> int result" where
  "DataOffset ra f =
     (case findBodyOffset ra f of
        Inl e \<Rightarrow> Inl e
      | Inr bodyOffset \<Rightarrow> Inr (i64 (f_headerOffset f + bodyOffset)))"

section \<open>Extra fields\<close>

text \<open>The variables of the loop over the extra fields of a directory entry.\<close>

record extras =
  x_needUSize :: bool
  x_needCSize :: bool
  x_needHeaderOffset :: bool
  x_file :: File
  x_modified :: gotime

abbreviation upd_header :: "(FileHeader \<Rightarrow> FileHeader) \<Rightarrow> File \<Rightarrow> File" where
  "upd_header g f \<equiv> f\<lparr>f_header := g (f_header f)\<rparr>"

text \<open>Take a 64-bit value when it is needed; a field that is too short is an error.\<close>

definition need64 :: "bool \<Rightarrow> byte list \<Rightarrow> (64 word option \<times> byte list) result option" where
  "need64 need fieldBuf =
     (if \<not> need then Some (Inr (None, fieldBuf))
      else if length fieldBuf < 8 then Some (Inl ErrFormat)
      else do { (v, fieldBuf) \<leftarrow> rb_uint64 fieldBuf; Some (Inr (Some v, fieldBuf)) })"

definition zip64_field :: "byte list \<Rightarrow> extras \<Rightarrow> extras result option" where
  "zip64_field fieldBuf x = do {
     r \<leftarrow> need64 (x_needUSize x) fieldBuf;
     case r of Inl e \<Rightarrow> Some (Inl e) | Inr (u, fieldBuf) \<Rightarrow> do {
       r \<leftarrow> need64 (x_needCSize x) fieldBuf;
       case r of Inl e \<Rightarrow> Some (Inl e) | Inr (c, fieldBuf) \<Rightarrow> do {
         r \<leftarrow> need64 (x_needHeaderOffset x) fieldBuf;
         case r of Inl e \<Rightarrow> Some (Inl e) | Inr (off, fieldBuf) \<Rightarrow>
           let f = x_file x;
               f = (case u of None \<Rightarrow> f | Some v \<Rightarrow> upd_header (\<lambda>h. h\<lparr>fh_UncompressedSize64 := v\<rparr>) f);
               f = (case c of None \<Rightarrow> f | Some v \<Rightarrow> upd_header (\<lambda>h. h\<lparr>fh_CompressedSize64 := v\<rparr>) f);
               f = (case off of None \<Rightarrow> f | Some v \<Rightarrow> f\<lparr>f_headerOffset := sint v\<rparr>)
           in Some (Inr (x\<lparr>x_needUSize := False, x_needCSize := False, x_needHeaderOffset := False, x_file := f\<rparr>))
       }
     }
   }"

text \<open>Go's integer division for a positive divisor.\<close>

definition go_quot :: "int \<Rightarrow> int \<Rightarrow> int" where
  "go_quot a b = (if a < 0 then - ((- a) div b) else a div b)"

definition ntfs_time :: "64 word \<Rightarrow> gotime" where
  "ntfs_time v =
     (let ticksPerSecond = 10000000;
          ts = sint v;
          secs = go_quot ts ticksPerSecond;
          nsecs = (1000000000 div ticksPerSecond) * go_rem ts ticksPerSecond;
          epoch = time_Date 1601 1 1 0 0 0
      in time_Unix (i64 (Unix_of (lt_time epoch) + secs)) nsecs)"

text \<open>The loop over the attributes of an NTFS field; it yields the last modification time found.\<close>

function ntfs_attrs :: "byte list \<Rightarrow> gotime \<Rightarrow> gotime option" where
  "ntfs_attrs fieldBuf modified =
     (if length fieldBuf < 4 then Some modified
      else do {
        (attrTag, b) \<leftarrow> rb_uint16 fieldBuf;
        (attrSize, b) \<leftarrow> rb_uint16 b;
        if length b < unat attrSize then Some modified
        else do {
          (attrBuf, b) \<leftarrow> rb_sub (unat attrSize) b;
          if attrTag \<noteq> 1 \<or> unat attrSize \<noteq> 24 then ntfs_attrs b modified
          else do {
            (ts, _) \<leftarrow> rb_uint64 attrBuf;
            ntfs_attrs b (ntfs_time ts)
          }
        }
      })"
  by pat_completeness auto

termination
  by (relation "measure (\<lambda>(b, _). length b)") (auto simp: rb_uint16_def rb_sub_def split: if_splits)

declare ntfs_attrs.simps [simp del]

definition extra_field :: "16 word \<Rightarrow> byte list \<Rightarrow> extras \<Rightarrow> extras result option" where
  "extra_field fieldTag fieldBuf x =
     (if fieldTag = zip64ExtraID then zip64_field fieldBuf x
      else if fieldTag = ntfsExtraID then
        if length fieldBuf < 4 then Some (Inr x)
        else do {
          (_, fieldBuf) \<leftarrow> rb_uint32 fieldBuf;
          t \<leftarrow> ntfs_attrs fieldBuf (x_modified x);
          Some (Inr (x\<lparr>x_modified := t\<rparr>))
        }
      else if fieldTag = unixExtraID \<or> fieldTag = infoZipUnixExtraID then
        if length fieldBuf < 8 then Some (Inr x)
        else do {
          (_, fieldBuf) \<leftarrow> rb_uint32 fieldBuf;
          (ts, _) \<leftarrow> rb_uint32 fieldBuf;
          Some (Inr (x\<lparr>x_modified := time_Unix (uint ts) 0\<rparr>))
        }
      else if fieldTag = extTimeExtraID then
        if length fieldBuf < 5 then Some (Inr x)
        else do {
          (flags, fieldBuf) \<leftarrow> rb_uint8 fieldBuf;
          if flags AND 1 = 0 then Some (Inr x)
          else do {
            (ts, _) \<leftarrow> rb_uint32 fieldBuf;
            Some (Inr (x\<lparr>x_modified := time_Unix (uint ts) 0\<rparr>))
          }
        }
      else Some (Inr x))"

function parse_extras :: "byte list \<Rightarrow> extras \<Rightarrow> extras result option" where
  "parse_extras extra x =
     (if length extra < 4 then Some (Inr x)
      else do {
        (fieldTag, b) \<leftarrow> rb_uint16 extra;
        (fieldSize, b) \<leftarrow> rb_uint16 b;
        if length b < unat fieldSize then Some (Inr x)
        else do {
          (fieldBuf, b) \<leftarrow> rb_sub (unat fieldSize) b;
          r \<leftarrow> extra_field fieldTag fieldBuf x;
          case r of Inl e \<Rightarrow> Some (Inl e) | Inr x' \<Rightarrow> parse_extras b x'
        }
      })"
  by pat_completeness auto

termination
  by (relation "measure (\<lambda>(b, _). length b)") (auto simp: rb_uint16_def rb_sub_def split: if_splits)

declare parse_extras.simps [simp del]

section \<open>Directory entries\<close>

text \<open>The fixed part of an entry, with the lengths of name, extra fields and comment.\<close>

definition dir_fixed :: "byte list \<Rightarrow> File \<Rightarrow> (File \<times> nat \<times> nat \<times> nat) result option" where
  "dir_fixed buf f = do {
     (sig, b) \<leftarrow> rb_uint32 buf;
     if sig \<noteq> directoryHeaderSignature then Some (Inl ErrFormat)
     else do {
       (creator, b) \<leftarrow> rb_uint16 b;
       (reader, b) \<leftarrow> rb_uint16 b;
       (flags, b) \<leftarrow> rb_uint16 b;
       (method, b) \<leftarrow> rb_uint16 b;
       (mtime, b) \<leftarrow> rb_uint16 b;
       (mdate, b) \<leftarrow> rb_uint16 b;
       (crc, b) \<leftarrow> rb_uint32 b;
       (csize, b) \<leftarrow> rb_uint32 b;
       (usize, b) \<leftarrow> rb_uint32 b;
       (filenameLen, b) \<leftarrow> rb_uint16 b;
       (extraLen, b) \<leftarrow> rb_uint16 b;
       (commentLen, b) \<leftarrow> rb_uint16 b;
       b \<leftarrow> rb_skip 4 b;
       (attrs, b) \<leftarrow> rb_uint32 b;
       (offset, b) \<leftarrow> rb_uint32 b;
       Some (Inr
         (f\<lparr>f_header := (f_header f)\<lparr>fh_CreatorVersion := creator, fh_ReaderVersion := reader, fh_Flags := flags,
              fh_Method := method, fh_ModifiedTime := mtime, fh_ModifiedDate := mdate, fh_CRC32 := crc,
              fh_CompressedSize := csize, fh_UncompressedSize := usize, fh_CompressedSize64 := ucast csize,
              fh_UncompressedSize64 := ucast usize, fh_ExternalAttrs := attrs\<rparr>,
            f_headerOffset := uint offset\<rparr>,
          unat filenameLen, unat extraLen, unat commentLen))
     }
   }"

text \<open>The name, the extra fields and the comment, and what they say of the encoding.\<close>

definition dir_texts :: "byte list \<Rightarrow> nat \<Rightarrow> nat \<Rightarrow> File \<Rightarrow> File" where
  "dir_texts d filenameLen extraLen f =
     (let name = take filenameLen d;
          extra = take extraLen (drop filenameLen d);
          comment = drop (filenameLen + extraLen) d;
          (valid1, require1) = detectUTF8 name;
          (valid2, require2) = detectUTF8 comment;
          nonUTF8 = (if \<not> valid1 \<or> \<not> valid2 then True
                     else if \<not> require1 \<and> \<not> require2 then False
                     else fh_Flags (f_header f) AND 0x800 = 0)
      in upd_header (\<lambda>h. h\<lparr>fh_Name := name, fh_Extra := extra, fh_Comment := comment, fh_NonUTF8 := nonUTF8\<rparr>) f)"

definition start_extras :: "File \<Rightarrow> extras" where
  "start_extras f =
     \<lparr>x_needUSize = (fh_UncompressedSize (f_header f) = - 1), x_needCSize = (fh_CompressedSize (f_header f) = - 1),
      x_needHeaderOffset = (f_headerOffset f = 0xffffffff), x_file = f, x_modified = zero_time\<rparr>"

definition dir_modified :: "FileHeader \<Rightarrow> gotime \<Rightarrow> loctime" where
  "dir_modified h modified =
     (let msdosModified = msDosTimeToTime (fh_ModifiedDate h) (fh_ModifiedTime h)
      in if IsZero modified then msdosModified
         else if fh_ModifiedTime h \<noteq> 0 \<or> fh_ModifiedDate h \<noteq> 0
         then time_In modified (timeZone (time_Sub (lt_time msdosModified) modified))
         else time_In modified UTC)"

definition dir_finish :: "File \<Rightarrow> File result option" where
  "dir_finish f = do {
     r \<leftarrow> parse_extras (fh_Extra (f_header f)) (start_extras f);
     Some (case r of
       Inl e \<Rightarrow> Inl e
     | Inr x \<Rightarrow>
         if x_needCSize x \<or> x_needHeaderOffset x then Inl ErrFormat
         else Inr (upd_header (\<lambda>h. h\<lparr>fh_Modified := dir_modified h (x_modified x)\<rparr>) (x_file x)))
   }"

definition readDirectoryHeader :: "'r io_reader_ops \<Rightarrow> File \<Rightarrow> 'r \<Rightarrow> File result \<times> 'r" where
  "readDirectoryHeader ops f r =
     (case ReadFull ops r directoryHeaderLen of
        (buf, Some e, r1) \<Rightarrow> (Inl e, r1)
      | (buf, None, r1) \<Rightarrow>
          case or_panic (dir_fixed buf f) of
            Inl e \<Rightarrow> (Inl e, r1)
          | Inr (f1, filenameLen, extraLen, commentLen) \<Rightarrow>
              case ReadFull ops r1 (filenameLen + extraLen + commentLen) of
                (d, Some e, r2) \<Rightarrow> (Inl e, r2)
              | (d, None, r2) \<Rightarrow> (or_panic (dir_finish (dir_texts d filenameLen extraLen f1)), r2))"

section \<open>The end of the directory\<close>

record directoryEnd =
  de_diskNbr :: "32 word"
  de_dirDiskNbr :: "32 word"
  de_dirRecordsThisDisk :: "64 word"
  de_directoryRecords :: "64 word"
  de_directorySize :: "64 word"
  de_directoryOffset :: "64 word"
  de_commentLen :: "16 word"
  de_comment :: gostring
  de_startSkipLen :: "64 word"

text \<open>The backward loop of \<^verbatim>\<open>findSignatureInBlock\<close>; \<open>None\<close> is its result -1.\<close>

definition sig_at :: "byte list \<Rightarrow> nat \<Rightarrow> bool" where
  "sig_at b i \<longleftrightarrow> b ! i = 0x50 \<and> b ! (i + 1) = 0x4b \<and> b ! (i + 2) = 0x05 \<and> b ! (i + 3) = 0x06 \<and>
     unat (b ! (i + directoryEndLen - 2)) + 256 * unat (b ! (i + directoryEndLen - 1)) + directoryEndLen + i \<le> length b"

fun find_sig :: "byte list \<Rightarrow> nat \<Rightarrow> nat option" where
  "find_sig b 0 = None"
| "find_sig b (Suc i) = (if sig_at b i then Some i else find_sig b i)"

definition findSignatureInBlock :: "byte list \<Rightarrow> nat option" where
  "findSignatureInBlock b = find_sig b (Suc (length b) - directoryEndLen)"

definition findDirectory64End :: "reader_at \<Rightarrow> int \<Rightarrow> int result" where
  "findDirectory64End ra directoryEndOffset =
     (let locOffset = directoryEndOffset - int directory64LocLen
      in if locOffset < 0 then Inr (- 1)
         else case ra locOffset directory64LocLen of
           (buf, Some e) \<Rightarrow> Inl e
         | (buf, None) \<Rightarrow> or_panic (do {
             (sig, b) \<leftarrow> rb_uint32 (fill_buf directory64LocLen buf);
             if sig \<noteq> directory64LocSignature then Some (Inr (- 1))
             else do {
               (disk, b) \<leftarrow> rb_uint32 b;
               if disk \<noteq> 0 then Some (Inr (- 1))
               else do {
                 (p, b) \<leftarrow> rb_uint64 b;
                 (disks, b) \<leftarrow> rb_uint32 b;
                 if disks \<noteq> 1 then Some (Inr (- 1)) else Some (Inr (sint p))
               }
             }
           }))"

definition readDirectory64End :: "reader_at \<Rightarrow> int \<Rightarrow> directoryEnd \<Rightarrow> directoryEnd result" where
  "readDirectory64End ra offset d =
     (case ra offset directory64EndLen of
        (buf, Some e) \<Rightarrow> Inl e
      | (buf, None) \<Rightarrow> or_panic (do {
          (sig, b) \<leftarrow> rb_uint32 (fill_buf directory64EndLen buf);
          if sig \<noteq> directory64EndSignature then Some (Inl ErrFormat)
          else do {
            b \<leftarrow> rb_skip 12 b;
            (diskNbr, b) \<leftarrow> rb_uint32 b;
            (dirDiskNbr, b) \<leftarrow> rb_uint32 b;
            (recordsThisDisk, b) \<leftarrow> rb_uint64 b;
            (records, b) \<leftarrow> rb_uint64 b;
            (size, b) \<leftarrow> rb_uint64 b;
            (offset, b) \<leftarrow> rb_uint64 b;
            Some (Inr (d\<lparr>de_diskNbr := diskNbr, de_dirDiskNbr := dirDiskNbr, de_dirRecordsThisDisk := recordsThisDisk,
              de_directoryRecords := records, de_directorySize := size, de_directoryOffset := offset\<rparr>))
          }
        }))"

text \<open>The end record at the front of the buffer.\<close>

definition end_record :: "byte list \<Rightarrow> directoryEnd result option" where
  "end_record buf = do {
     b \<leftarrow> rb_skip 4 buf;
     (diskNbr, b) \<leftarrow> rb_uint16 b;
     (dirDiskNbr, b) \<leftarrow> rb_uint16 b;
     (recordsThisDisk, b) \<leftarrow> rb_uint16 b;
     (records, b) \<leftarrow> rb_uint16 b;
     (size, b) \<leftarrow> rb_uint32 b;
     (offset, b) \<leftarrow> rb_uint32 b;
     (commentLen, b) \<leftarrow> rb_uint16 b;
     if length b < unat commentLen then Some (Inl (ErrMsg ''zip: invalid comment length''))
     else Some (Inr \<lparr>de_diskNbr = ucast diskNbr, de_dirDiskNbr = ucast dirDiskNbr,
       de_dirRecordsThisDisk = ucast recordsThisDisk, de_directoryRecords = ucast records,
       de_directorySize = ucast size, de_directoryOffset = ucast offset, de_commentLen = commentLen,
       de_comment = take (unat commentLen) b, de_startSkipLen = 0\<rparr>)
   }"

text \<open>
  The search for a zip64 record: the directory end after it, and the offset of the zip64 record
  when there is one. An error counts only when the end record asks for zip64.
\<close>

definition probablyZip64 :: "directoryEnd \<Rightarrow> bool" where
  "probablyZip64 d \<longleftrightarrow> de_directoryRecords d = 0xffff \<or> de_directorySize d = 0xffff \<or> de_directoryOffset d = 0xffffffff"

definition zip64_end :: "reader_at \<Rightarrow> int \<Rightarrow> directoryEnd \<Rightarrow> (directoryEnd \<times> int option) result" where
  "zip64_end ra directoryEndOffset d =
     (case findDirectory64End ra directoryEndOffset of
        Inl e \<Rightarrow> if probablyZip64 d then Inl e else Inr (d, None)
      | Inr p \<Rightarrow>
          if p < 0 then Inr (d, None)
          else case readDirectory64End ra p d of
            Inl e \<Rightarrow> if probablyZip64 d then Inl e else Inr (d, None)
          | Inr d' \<Rightarrow> Inr (d', Some p))"

text \<open>The position of the directory, moved when there is something in front of the archive.\<close>

definition fix_offset :: "int \<Rightarrow> int \<Rightarrow> directoryEnd \<Rightarrow> directoryEnd" where
  "fix_offset sz base d =
     (let computed = i64 (base - sint (de_directorySize d))
      in if 0 < computed \<and> computed < sz \<and> computed \<noteq> sint (de_directoryOffset d)
         then d\<lparr>de_startSkipLen := word_of_int computed - de_directoryOffset d, de_directoryOffset := word_of_int computed\<rparr>
         else d)"

definition readDirectoryEnd :: "reader_at \<Rightarrow> int \<Rightarrow> directoryEnd result" where
  "readDirectoryEnd ra sz =
     (let bLen = (if sz < 65 * 1024 then sz else 65 * 1024)
      in if bLen < 0 then Inl (Panic ''makeslice: len out of range'')
         else case ra (sz - bLen) (nat bLen) of
           (bs, err) \<Rightarrow>
             if err \<noteq> None \<and> err \<noteq> Some EOF then Inl (the err)
             else
               let buf = fill_buf (nat bLen) bs
               in case findSignatureInBlock buf of
                    None \<Rightarrow> Inl ErrFormat
                  | Some p \<Rightarrow>
                      let directoryEndOffset = sz - bLen + int p
                      in case or_panic (end_record (drop p buf)) of
                           Inl e \<Rightarrow> Inl e
                         | Inr d \<Rightarrow>
                             case zip64_end ra directoryEndOffset d of
                               Inl e \<Rightarrow> Inl e
                             | Inr (d, zip64Offset) \<Rightarrow>
                                 let d = fix_offset sz (case zip64Offset of None \<Rightarrow> directoryEndOffset | Some p \<Rightarrow> p) d;
                                     o' = sint (de_directoryOffset d)
                                 in if o' < 0 \<or> sz \<le> o' then Inl ErrFormat else Inr d)"

section \<open>Name encodings\<close>

text \<open>
  The third-party code that guesses an encoding and decodes names: the best guess for a sample,
  if any, with its confidence, and the decoders for code page 437 and Shift JIS.
\<close>

record name_codec =
  nc_DetectBest :: "byte list \<Rightarrow> (gostring \<times> int) option"
  nc_CodePage437 :: "gostring \<Rightarrow> gostring option"
  nc_ShiftJIS :: "gostring \<Rightarrow> gostring option"

fun name_sample :: "FileHeader list \<Rightarrow> byte list \<Rightarrow> byte list" where
  "name_sample [] buf = buf"
| "name_sample (h # hs) buf =
     (if fh_NonUTF8 h \<and> \<not> ValidString (fh_Name h) then
        let buf = buf @ fh_Name h @ [32] in if 4096 < length buf then buf else name_sample hs buf
      else name_sample hs buf)"

definition normalizeNameEncoding :: "name_codec \<Rightarrow> File list \<Rightarrow> File list" where
  "normalizeNameEncoding nc files =
     (let hs = map f_header files;
          hasNonUtf8 = (\<exists>h \<in> set hs. fh_NonUTF8 h \<and> \<not> ValidString (fh_Name h))
      in if hasNonUtf8 then
           let decoder =
             (case nc_DetectBest nc (name_sample hs []) of
                Some (charset, confidence) \<Rightarrow>
                  if 70 < confidence \<and> charset = str ''Shift_JIS'' then nc_ShiftJIS nc else nc_CodePage437 nc
              | None \<Rightarrow> nc_CodePage437 nc)
           in map (\<lambda>f. if fh_NonUTF8 (f_header f) then
                     case decoder (fh_Name (f_header f)) of
                       None \<Rightarrow> f
                     | Some decoded \<Rightarrow> upd_header (\<lambda>h. h\<lparr>fh_Name := decoded\<rparr>) f
                   else f) files
         else files)"

section \<open>Opening an archive\<close>

text \<open>
  A decompressor makes a reader of the data from a section reader of the stored bytes. The
  registries map methods to decompressors.
\<close>

type_synonym 'd decompressor = "int io_reader_ops \<Rightarrow> int \<Rightarrow> File \<Rightarrow> 'd io_reader_ops \<times> 'd"
type_synonym 'd decompressors = "16 word \<Rightarrow> 'd decompressor option"

record 'd zip_Reader =
  zr_File :: "File list"
  zr_Comment :: gostring
  zr_decompressors :: "'d decompressors"

text \<open>The loop over the directory: the files and the error that ended it, or an error to return.\<close>

fun read_directory :: "'r io_reader_ops \<Rightarrow> nat \<Rightarrow> int \<Rightarrow> int \<Rightarrow> 'r \<Rightarrow> File list \<Rightarrow> (File list \<times> go_error) result" where
  "read_directory ops 0 sz skip r files = Inl NoProgress"
| "read_directory ops (Suc fuel) sz skip r files =
     (case readDirectoryHeader ops \<lparr>f_header = new_FileHeader, f_zipsize = sz, f_headerOffset = 0\<rparr> r of
        (Inl e, r1) \<Rightarrow> if e = ErrFormat \<or> e = ErrUnexpectedEOF then Inr (files, e) else Inl e
      | (Inr f, r1) \<Rightarrow>
          read_directory ops fuel sz skip r1 (files @ [f\<lparr>f_headerOffset := i64 (f_headerOffset f + skip)\<rparr>]))"

text \<open>
  \<^verbatim>\<open>init\<close>. The \<^verbatim>\<open>bufio.Reader\<close> between the section of the archive and the parser is left out: the
  parser reads with \<^verbatim>\<open>io.ReadFull\<close>, which gives the same bytes and errors with and without it.
\<close>

definition zip_init :: "name_codec \<Rightarrow> reader_at \<Rightarrow> int \<Rightarrow> 'd zip_Reader \<Rightarrow> 'd zip_Reader result" where
  "zip_init nc ra sz z =
     (case readDirectoryEnd ra sz of
        Inl e \<Rightarrow> Inl e
      | Inr end' \<Rightarrow>
          if sz div int fileHeaderLen < uint (de_directoryRecords end') then
            Inl (ErrMsg ''archive/zip: TOC declares impossible files in zip'')
          else
            case read_directory (section_ops ra sz) (Suc (nat sz)) sz (sint (de_startSkipLen end'))
                   (sint (de_directoryOffset end')) [] of
              Inl e \<Rightarrow> Inl e
            | Inr (files, e) \<Rightarrow>
                if (of_nat (length files) :: 16 word) \<noteq> ucast (de_directoryRecords end') then Inl e
                else Inr (z\<lparr>zr_File := normalizeNameEncoding nc files, zr_Comment := de_comment end'\<rparr>))"

definition zip_NewReader :: "name_codec \<Rightarrow> reader_at \<Rightarrow> int \<Rightarrow> 'd zip_Reader result" where
  "zip_NewReader nc ra sz = zip_init nc ra sz \<lparr>zr_File = [], zr_Comment = [], zr_decompressors = Map.empty\<rparr>"

definition zip_RegisterDecompressor :: "16 word \<Rightarrow> 'd decompressor \<Rightarrow> 'd zip_Reader \<Rightarrow> 'd zip_Reader" where
  "zip_RegisterDecompressor method dcomp z = z\<lparr>zr_decompressors := (zr_decompressors z)(method \<mapsto> dcomp)\<rparr>"

definition zip_decompressor :: "'d decompressors \<Rightarrow> 'd zip_Reader \<Rightarrow> 16 word \<Rightarrow> 'd decompressor option" where
  "zip_decompressor global z method =
     (case zr_decompressors z method of None \<Rightarrow> global method | Some dcomp \<Rightarrow> Some dcomp)"

section \<open>Reading a file\<close>

definition readDataDescriptor :: "'r io_reader_ops \<Rightarrow> 'r \<Rightarrow> File \<Rightarrow> go_error option \<times> 'r" where
  "readDataDescriptor ops r f =
     (case ReadFull ops r 4 of
        (buf, Some e, r1) \<Rightarrow> (Some e, r1)
      | (buf, None, r1) \<Rightarrow>
          case rb_uint32 buf of
            None \<Rightarrow> (Some (Panic ''index out of range''), r1)
          | Some (maybeSig, _) \<Rightarrow>
              let kept = (if maybeSig \<noteq> dataDescriptorSignature then buf else [])
              in case ReadFull ops r1 (12 - length kept) of
                   (bs, Some e, r2) \<Rightarrow> (Some e, r2)
                 | (bs, None, r2) \<Rightarrow>
                     case rb_uint32 (kept @ bs) of
                       None \<Rightarrow> (Some (Panic ''index out of range''), r2)
                     | Some (crc, _) \<Rightarrow> (if crc \<noteq> fh_CRC32 (f_header f) then Some ErrChecksum else None, r2))"

record 'd checksumReader =
  ck_rc_ops :: "'d io_reader_ops"
  ck_rc :: 'd
  ck_hash :: "32 word"
  ck_nread :: "64 word"
  ck_f :: File
  ck_desr :: "(int io_reader_ops \<times> int) option"
  ck_err :: "go_error option"

text \<open>What happens at the end of the data: the error to report, \<open>EOF\<close> when all is well.\<close>

definition check_end :: "'d checksumReader \<Rightarrow> go_error \<times> 'd checksumReader" where
  "check_end r =
     (case ck_desr r of
        Some (dops, desr) \<Rightarrow>
          (case readDataDescriptor dops desr (ck_f r) of
             (Some e, desr') \<Rightarrow> (if e = EOF then ErrUnexpectedEOF else e, r\<lparr>ck_desr := Some (dops, desr')\<rparr>)
           | (None, desr') \<Rightarrow>
               (if ck_hash r \<noteq> fh_CRC32 (f_header (ck_f r)) then ErrChecksum else EOF,
                r\<lparr>ck_desr := Some (dops, desr')\<rparr>))
      | None \<Rightarrow>
          (if fh_CRC32 (f_header (ck_f r)) \<noteq> 0 \<and> ck_hash r \<noteq> fh_CRC32 (f_header (ck_f r)) then ErrChecksum else EOF, r))"

definition checksumReader_Read :: "'d checksumReader \<Rightarrow> nat \<Rightarrow> byte list \<times> go_error option \<times> 'd checksumReader" where
  "checksumReader_Read r n =
     (if ck_err r \<noteq> None then ([], ck_err r, r)
      else case op_read (ck_rc_ops r) (ck_rc r) n of
        (bs, err, rc') \<Rightarrow>
          let r = r\<lparr>ck_rc := rc', ck_hash := crc32_Write (ck_hash r) bs, ck_nread := ck_nread r + of_nat (length bs)\<rparr>
          in case err of
               None \<Rightarrow> (bs, None, r)
             | Some e \<Rightarrow>
                 if e = EOF then
                   if ck_nread r \<noteq> fh_UncompressedSize64 (f_header (ck_f r)) then ([], Some ErrUnexpectedEOF, r)
                   else case check_end r of (e', r') \<Rightarrow> (bs, Some e', r'\<lparr>ck_err := Some e'\<rparr>)
                 else (bs, Some e, r\<lparr>ck_err := Some e\<rparr>))"

definition checksum_ops :: "'d checksumReader io_reader_ops" where
  "checksum_ops = \<lparr>op_read = checksumReader_Read, op_seek = None\<rparr>"

text \<open>\<^verbatim>\<open>Open\<close>: a section reader is the limit of the section, in its operations, and a position.\<close>

definition File_Open :: "'d decompressors \<Rightarrow> reader_at \<Rightarrow> 'd zip_Reader \<Rightarrow> File \<Rightarrow> 'd checksumReader result" where
  "File_Open global ra z f =
     (case findBodyOffset ra f of
        Inl e \<Rightarrow> Inl e
      | Inr bodyOffset \<Rightarrow>
          let sz = sint (fh_CompressedSize64 (f_header f));
              start = i64 (f_headerOffset f + bodyOffset)
          in case zip_decompressor global z (fh_Method (f_header f)) of
               None \<Rightarrow> Inl ErrAlgorithm
             | Some dcomp \<Rightarrow>
                 case dcomp (section_ops ra (i64 (start + sz))) start f of
                   (rops, rc) \<Rightarrow>
                     let desr = (if hasDataDescriptor f then
                                   let dstart = i64 (start + sz)
                                   in Some (section_ops ra (i64 (dstart + int dataDescriptorLen)), dstart)
                                 else None)
                     in Inr \<lparr>ck_rc_ops = rops, ck_rc = rc, ck_hash = crc32_NewIEEE, ck_nread = 0, ck_f = f,
                             ck_desr = desr, ck_err = None\<rparr>)"

section \<open>Finding the end record\<close>

lemma find_sig_spec:
  "find_sig b n = Some i \<longleftrightarrow> i < n \<and> sig_at b i \<and> (\<forall>j. i < j \<and> j < n \<longrightarrow> \<not> sig_at b j)"
proof (induction n)
  case (Suc n)
  show ?case
  proof (cases "sig_at b n")
    case True
    then show ?thesis by (auto simp: less_Suc_eq)
  next
    case False
    then show ?thesis using Suc by (auto simp: less_Suc_eq)
  qed
qed simp

lemma find_sig_none: "find_sig b n = None \<longleftrightarrow> (\<forall>j < n. \<not> sig_at b j)"
  by (induction n) (auto simp: less_Suc_eq)

text \<open>
  An end record at position \<open>i\<close> of a block, by its layout: the four bytes of the signature, sixteen bytes of other
  fields, the length of the comment in two bytes, and at least that many bytes after it.
\<close>

definition end_record_at :: "byte list \<Rightarrow> nat \<Rightarrow> bool" where
  "end_record_at b i \<longleftrightarrow>
     (\<exists>pre fields lo hi post. b = pre @ [0x50, 0x4b, 0x05, 0x06] @ fields @ [lo, hi] @ post \<and>
        length pre = i \<and> length fields = 16 \<and> unat lo + 256 * unat hi \<le> length post)"

lemma split_record:
  assumes "i + 22 \<le> length b"
  shows "b = take i b @ [b ! i, b ! (i + 1), b ! (i + 2), b ! (i + 3)] @ take 16 (drop (i + 4) b) @ [b ! (i + 20), b ! (i + 21)] @ drop (i + 22) b"
proof -
  define f where "f = take 16 (drop (i + 4) b)"
  have d: "drop (i + k) b = b ! (i + k) # drop (i + l) b" if "k < 22" "l = Suc k" for k l
    using that assms Cons_nth_drop_Suc [of "i + k" b] by simp
  have f: "drop (i + 4) b = f @ drop (i + 20) b"
    using append_take_drop_id [of 16 "drop (i + 4) b"] by (simp add: f_def add.commute)
  have "b = take i b @ drop i b" by simp
  also have "drop i b = b ! i # drop (i + 1) b" using d [of 0 1] by simp
  also have "drop (i + 1) b = b ! (i + 1) # b ! (i + 2) # b ! (i + 3) # f @ b ! (i + 20) # b ! (i + 21) # drop (i + 22) b"
    by (simp only: d [of 1 2] d [of 2 3] d [of 3 4] f d [of 20 21] d [of 21 22])
  finally show ?thesis unfolding f_def [symmetric] by simp
qed

lemma end_record_at_iff: "end_record_at b i \<longleftrightarrow> i + 22 \<le> length b \<and> sig_at b i"
proof
  assume "end_record_at b i"
  then obtain pre fields lo hi post where b: "b = pre @ [0x50, 0x4b, 0x05, 0x06] @ fields @ [lo, hi] @ post"
    "length pre = i" "length fields = 16" "unat lo + 256 * unat hi \<le> length post" by (auto simp: end_record_at_def)
  then show "i + 22 \<le> length b \<and> sig_at b i" by (auto simp: sig_at_def nth_append)
next
  assume r: "i + 22 \<le> length b \<and> sig_at b i"
  then have sig: "b ! i = 0x50" "b ! (i + 1) = 0x4b" "b ! (i + 2) = 0x05" "b ! (i + 3) = 0x06"
    and fits: "unat (b ! (i + 20)) + 256 * unat (b ! (i + 21)) \<le> length (drop (i + 22) b)"
    by (auto simp: sig_at_def add.commute [of i])
  from r have len: "length (take i b) = i" "length (take 16 (drop (i + 4) b)) = 16" by auto
  from r have "i + 22 \<le> length b" ..
  from split_record [OF this, unfolded sig] len fits show "end_record_at b i" unfolding end_record_at_def by blast
qed

text \<open>
  C17. \<^verbatim>\<open>findSignatureInBlock\<close> returns the last position of the block at which a whole end record
  starts: the signature, the fixed fields, and a comment whose stated length fits into the block. It returns -1
  exactly when there is no such position.
\<close>

theorem findSignatureInBlock_spec:
  "(findSignatureInBlock b = Some i \<longleftrightarrow> end_record_at b i \<and> (\<forall>j. i < j \<longrightarrow> \<not> end_record_at b j)) \<and>
   (findSignatureInBlock b = None \<longleftrightarrow> (\<forall>j. \<not> end_record_at b j))"
  unfolding findSignatureInBlock_def find_sig_spec find_sig_none end_record_at_iff by auto

theorem findSignatureInBlock_spec_witness:
  "findSignatureInBlock ([0] @ [0x50, 0x4b, 5, 6] @ replicate 18 0) = Some 1"
proof -
  let ?b = "[0] @ [0x50, 0x4b, 5, 6] @ replicate 18 0 :: byte list"
  have "end_record_at ?b 1 \<and> (\<forall>j. 1 < j \<longrightarrow> \<not> end_record_at ?b j)"
    unfolding end_record_at_iff by (auto simp: sig_at_def)
  with findSignatureInBlock_spec [of ?b 1] show ?thesis by blast
qed

section \<open>Encodings\<close>

text \<open>A decoded rune is valid, so that the test for it never fails.\<close>

lemma cont_mod: "128 \<le> c \<Longrightarrow> c \<le> 191 \<Longrightarrow> c mod 64 = c - 128" for c :: nat
  using mod_mult_self2 [of "c - 128" 64 2] by simp

lemma valid_rune_small: "r < 0xd800 \<Longrightarrow> ValidRune r" and valid_rune_large: "0xdfff < r \<Longrightarrow> r \<le> 0x10ffff \<Longrightarrow> ValidRune r"
  by (simp_all add: ValidRune_def)

lemma valid_rune_2: "ValidRune ((b mod 32) * 64 + c mod 64)" for b c :: nat
proof -
  have "p * 64 + q < 0xd800" if "p < 32" "q < 64" for p q :: nat using that by linarith
  from this [of "b mod 32" "c mod 64"] show ?thesis by (intro valid_rune_small) simp
qed

lemma valid_rune_3:
  fixes b c d :: nat
  assumes "lead_info b = Some (3, lo, hi)" "lo \<le> c" "c \<le> hi"
  shows "ValidRune ((b mod 16) * 4096 + (c mod 64) * 64 + d mod 64)"
proof -
  have key: "ValidRune (p * 4096 + q * 64 + e)"
    if "p \<le> 12 \<or> p = 13 \<and> q < 32 \<or> 14 \<le> p \<and> p \<le> 15" "q < 64" "e < 64" for p q e
    using that by (elim disjE conjE) (rule valid_rune_small, linarith, rule valid_rune_small, linarith, rule valid_rune_large, linarith+)
  have c: "c mod 64 = c - 128" "c \<le> 191" using assms by (auto simp: lead_info_def cont_mod split: if_splits)
  have b: "224 \<le> b" "b \<le> 239" "b = 237 \<longrightarrow> c \<le> 159" using assms by (auto simp: lead_info_def split: if_splits)
  then have m: "b mod 16 = b - 224" using mod_mult_self2 [of "b - 224" 16 14] by simp
  have "b - 224 \<le> 12 \<or> b - 224 = 13 \<and> c - 128 < 32 \<or> 14 \<le> b - 224 \<and> b - 224 \<le> 15" "c - 128 < 64"
    using b c(2) by linarith+
  then show ?thesis unfolding m c(1) by (intro key) simp_all
qed

lemma valid_rune_4:
  fixes b c d e :: nat
  assumes "lead_info b = Some (4, lo, hi)" "lo \<le> c" "c \<le> hi"
  shows "ValidRune ((b mod 8) * 262144 + (c mod 64) * 4096 + (d mod 64) * 64 + e mod 64)"
proof -
  have key: "ValidRune (p * 262144 + q * 4096 + u * 64 + v)"
    if "p = 0 \<and> 16 \<le> q \<or> 1 \<le> p \<and> p \<le> 3 \<or> p = 4 \<and> q < 16" "q < 64" "u < 64" "v < 64" for p q u v
    using that by (elim disjE conjE) (rule valid_rune_large, linarith+)+
  have c: "c mod 64 = c - 128" "c \<le> 191" using assms by (auto simp: lead_info_def cont_mod split: if_splits)
  have b: "240 \<le> b" "b \<le> 244" "b = 240 \<longrightarrow> 144 \<le> c" "b = 244 \<longrightarrow> c \<le> 143"
    using assms by (auto simp: lead_info_def split: if_splits)
  then have m: "b mod 8 = b - 240" using mod_mult_self2 [of "b - 240" 8 30] by simp
  have "b - 240 = 0 \<and> 16 \<le> c - 128 \<or> 1 \<le> b - 240 \<and> b - 240 \<le> 3 \<or> b - 240 = 4 \<and> c - 128 < 16" "c - 128 < 64"
    using b c(2) by linarith+
  then show ?thesis unfolding m c(1) by (intro key) simp_all
qed

lemma DecodeRune_ValidRune: "ValidRune (fst (DecodeRune s))"
proof (cases "s = [] \<or> unat (s ! 0) < 128")
  case True
  then show ?thesis by (auto simp: DecodeRune_def ValidRune_def RuneError_def)
next
  case False
  have e: "ValidRune RuneError" by (simp add: ValidRune_def RuneError_def)
  show ?thesis
  proof (cases "lead_info (unat (s ! 0))")
    case None
    then show ?thesis using False e by (simp add: DecodeRune_def)
  next
    case (Some t)
    obtain sz lo hi where t: "t = (sz, lo, hi)" by (cases t)
    then have l: "lead_info (unat (s ! 0)) = Some (sz, lo, hi)" using Some by simp
    have "sz = 2 \<or> sz = 3 \<or> sz = 4" using l by (auto simp: lead_info_def split: if_splits)
    then show ?thesis
      using False l e valid_rune_2 valid_rune_3 [of "unat (s ! 0)" lo hi "unat (s ! 1)"]
        valid_rune_4 [of "unat (s ! 0)" lo hi "unat (s ! 1)"]
      by (auto simp: DecodeRune_def Let_def)
  qed
qed
text \<open>The bytes that other encodings than UTF-8 may use differently.\<close>

definition special :: "byte \<Rightarrow> bool" where
  "special b \<longleftrightarrow> b < 0x20 \<or> 0x7d < b \<or> b = 0x5c"

lemma detect_loop_spec:
  "detect_loop s q = (if ValidString s then (True, q \<or> (\<exists>b \<in> set s. special b)) else (False, False))"
proof (induction s q rule: detect_loop.induct)
  case (1 s q)
  show ?case
  proof (cases "s = []")
    case True
    then show ?thesis by (simp add: detect_loop.simps ValidString.simps)
  next
    case False
    then obtain c cs where s: "s = c # cs" by (cases s) auto
    show ?thesis
    proof (cases "unat c < 128")
      case True
      have D: "DecodeRune s = (unat c, 1)" using DecodeRune_ascii [of s] True by (simp add: s)
      have sp: "unat c < 0x20 \<or> 0x7d < unat c \<or> unat c = 0x5c \<longleftrightarrow> special c"
        by (simp add: special_def word_less_nat_alt word_unat_eq_iff)
      have V: "ValidString s = ValidString cs"
        using D True by (subst ValidString.simps) (simp add: s RuneError_def)
      have vr: "ValidRune (unat c)" "unat c \<noteq> RuneError" using True by (auto simp: ValidRune_def RuneError_def)
      show ?thesis
        using 1 [OF False refl refl] D vr sp V by (subst detect_loop.simps) (auto simp: s)
    next
      case False
      then have hi: "128 \<le> unat (hd s)" by (simp add: s)
      have c: "special c" using False by (auto simp: special_def word_less_nat_alt)
      from \<open>s \<noteq> []\<close> hi show ?thesis
      proof (cases rule: DecodeRune_high_cases)
        case invalid
        then show ?thesis using \<open>s \<noteq> []\<close>
          by (subst detect_loop.simps) (simp add: ValidString.simps [of s] RuneError_def)
      next
        case (valid r sz)
        have V: "ValidString s = ValidString (drop sz s)"
          using valid \<open>s \<noteq> []\<close> by (subst ValidString.simps) auto
        have "detect_loop s q = detect_loop (drop sz s) True"
          using valid \<open>s \<noteq> []\<close> DecodeRune_ValidRune [of s] by (subst detect_loop.simps) auto
        moreover have "detect_loop (drop sz s) True =
            (if ValidString (drop sz s) then (True, True \<or> (\<exists>b \<in> set (drop sz s). special b)) else (False, False))"
          using 1(1) [OF \<open>s \<noteq> []\<close> refl refl] valid DecodeRune_ValidRune [of s] by auto
        ultimately show ?thesis using V c by (auto simp: s)
      qed
    qed
  qed
qed

text \<open>
  C18. \<^verbatim>\<open>detectUTF8\<close> says whether a string is valid UTF-8, in agreement with
  \<^verbatim>\<open>utf8.ValidString\<close>, and for a valid one whether it has a byte that is not
  interpreted alike in all common encodings.
\<close>

theorem detectUTF8_spec:
  "detectUTF8 s = (ValidString s, ValidString s \<and> (\<exists>b \<in> set s. b < 0x20 \<or> 0x7d < b \<or> b = 0x5c))"
  by (simp add: detectUTF8_def detect_loop_spec special_def)

section \<open>Reading from a buffer never goes out of range\<close>

named_theorems in_range

lemma dir_fixed_defined [in_range]: "46 \<le> length buf \<Longrightarrow> \<exists>res. dir_fixed buf f = Some res"
  by (simp add: dir_fixed_def rb_defined)

lemma end_record_defined [in_range]: "22 \<le> length buf \<Longrightarrow> \<exists>res. end_record buf = Some res"
  by (simp add: end_record_def rb_defined)

lemma need64_defined [in_range]: "\<exists>res. need64 need b = Some res"
  by (simp add: need64_def rb_defined)

lemma zip64_field_defined [in_range]: "\<exists>res. zip64_field b x = Some res"
proof -
  obtain r1 where 1: "need64 (x_needUSize x) b = Some r1" using need64_defined by blast
  show ?thesis
  proof (cases r1)
    case (Inl e)
    then show ?thesis using 1 by (simp add: zip64_field_def)
  next
    case (Inr p)
    obtain u b1 where p: "p = (u, b1)" by (cases p)
    obtain r2 where 2: "need64 (x_needCSize x) b1 = Some r2" using need64_defined by blast
    show ?thesis
    proof (cases r2)
      case (Inl e)
      then show ?thesis using 1 2 Inr p by (simp add: zip64_field_def)
    next
      case q: (Inr q)
      obtain c b2 where "q = (c, b2)" by (cases q)
      moreover obtain r3 where "need64 (x_needHeaderOffset x) b2 = Some r3" using need64_defined by blast
      ultimately show ?thesis using 1 2 Inr p q by (cases r3) (auto simp: zip64_field_def Let_def)
    qed
  qed
qed

lemma ntfs_attrs_defined [in_range]: "\<exists>t. ntfs_attrs b m = Some t"
proof (induction b m rule: ntfs_attrs.induct)
  case (1 b m)
  show ?case
  proof (cases "length b < 4")
    case False
    define tag where "tag = (of_nat (le_val (take 2 b)) :: 16 word)"
    define sz where "sz = (of_nat (le_val (take 2 (drop 2 b))) :: 16 word)"
    have rd: "rb_uint16 b = Some (tag, drop 2 b)" "rb_uint16 (drop 2 b) = Some (sz, drop 4 b)"
      using False by (simp_all add: rb_defined tag_def sz_def)
    show ?thesis
    proof (cases "length (drop 4 b) < unat sz")
      case True
      then show ?thesis using False rd by (simp add: ntfs_attrs.simps [of b])
    next
      case big: False
      then have sub: "rb_sub (unat sz) (drop 4 b) = Some (take (unat sz) (drop 4 b), drop (unat sz) (drop 4 b))"
        by (intro rb_defined) simp
      show ?thesis
      proof (cases "tag \<noteq> 1 \<or> unat sz \<noteq> 24")
        case True
        then show ?thesis
          using 1(1) [OF False rd(1) refl rd(2) refl big sub refl True] False rd big sub
          by (simp add: ntfs_attrs.simps [of b] del: drop_drop)
      next
        case attr: False
        then obtain v w where v: "rb_uint64 (take (unat sz) (drop 4 b)) = Some (v, w)"
          using big by (simp add: rb_defined)
        then show ?thesis
          using 1(2) [OF False rd(1) refl rd(2) refl big sub refl attr v refl] False rd big sub attr
          by (simp add: ntfs_attrs.simps [of b] del: drop_drop)
      qed
    qed
  qed (simp add: ntfs_attrs.simps)
qed

lemma extra_field_defined [in_range]: "\<exists>res. extra_field tag b x = Some res"
proof -
  obtain t where "ntfs_attrs (drop 4 b) (x_modified x) = Some t" using ntfs_attrs_defined by blast
  moreover have "5 \<le> length b \<Longrightarrow> b \<noteq> []" by auto
  ultimately show ?thesis
    using zip64_field_defined [of b x] by (auto simp: extra_field_def rb_defined)
qed

lemma parse_extras_defined [in_range]: "\<exists>res. parse_extras b x = Some res"
proof (induction b x rule: parse_extras.induct)
  case (1 b x)
  show ?case
  proof (cases "length b < 4")
    case False
    define tag where "tag = (of_nat (le_val (take 2 b)) :: 16 word)"
    define sz where "sz = (of_nat (le_val (take 2 (drop 2 b))) :: 16 word)"
    have rd: "rb_uint16 b = Some (tag, drop 2 b)" "rb_uint16 (drop 2 b) = Some (sz, drop 4 b)"
      using False by (simp_all add: rb_defined tag_def sz_def)
    show ?thesis
    proof (cases "length (drop 4 b) < unat sz")
      case True
      then show ?thesis using False rd by (simp add: parse_extras.simps [of b])
    next
      case big: False
      then have sub: "rb_sub (unat sz) (drop 4 b) = Some (take (unat sz) (drop 4 b), drop (unat sz) (drop 4 b))"
        by (intro rb_defined) simp
      obtain r where r: "extra_field tag (take (unat sz) (drop 4 b)) x = Some r" using extra_field_defined by blast
      show ?thesis
      proof (cases r)
        case (Inl e)
        then show ?thesis using False rd big sub r by (simp add: parse_extras.simps [of b] del: drop_drop)
      next
        case (Inr x')
        then show ?thesis
          using 1 [OF False rd(1) refl rd(2) refl big sub refl r Inr] False rd big sub r
          by (simp add: parse_extras.simps [of b] del: drop_drop)
      qed
    qed
  qed (simp add: parse_extras.simps)
qed

lemma dir_finish_defined [in_range]: "\<exists>res. dir_finish f = Some res"
  using parse_extras_defined [of "fh_Extra (f_header f)" "start_extras f"] by (auto simp: dir_finish_def)

section \<open>The contract of io.ReaderAt\<close>

text \<open>
  The contents \<open>a\<close> of an archive: a read at an offset yields the bytes there, with
  \<^verbatim>\<open>io.EOF\<close> when there are fewer than asked for and perhaps when they are the last ones.
\<close>

locale archive_at =
  fixes ra :: reader_at and a :: "byte list"
  assumes at_bytes: "0 \<le> off \<Longrightarrow> fst (ra off n) = take n (drop (nat off) a)"
    and at_err: "0 \<le> off \<Longrightarrow> snd (ra off n) = None \<or> snd (ra off n) = Some EOF"
    and at_full: "0 \<le> off \<Longrightarrow> off + int n < int (length a) \<Longrightarrow> snd (ra off n) = None"
    and at_short: "0 \<le> off \<Longrightarrow> int (length a) < off + int n \<Longrightarrow> snd (ra off n) = Some EOF"
begin

lemma section_reader:
  "io_reader (section_ops ra limit) (\<lambda>s. 0 \<le> s) (\<lambda>s. drop (nat s) (take (nat limit) a)) (\<lambda>_. {EOF})"
proof (rule io_readerI)
  fix s n bs e s'
  assume s: "0 \<le> s" and rd: "op_read (section_ops ra limit) s n = (bs, e, s')"
  show "0 \<le> s' \<and> drop (nat s) (take (nat limit) a) = bs @ drop (nat s') (take (nat limit) a) \<and> length bs \<le> n \<and>
      {EOF} \<subseteq> {EOF} \<and> (e = None \<longrightarrow> 0 < n \<longrightarrow> bs \<noteq> []) \<and>
      (\<forall>x. e = Some x \<longrightarrow> drop (nat s') (take (nat limit) a) = [] \<and> x \<in> {EOF})"
  proof (cases "limit \<le> s")
    case True
    then show ?thesis using rd s by (auto simp: section_ops_def section_Read_def)
  next
    case False
    define k where "k = min n (nat (limit - s))"
    obtain b e' where r: "ra s k = (b, e')" by fastforce
    have res: "bs = b" "e = e'" "s' = s + int (length b)"
      using rd False r by (auto simp: section_ops_def section_Read_def k_def)
    have b: "b = take k (drop (nat s) a)" using at_bytes [OF s, of k] r by simp
    have lim: "nat s + k \<le> nat limit" using False s by (auto simp: k_def)
    have left: "drop (nat s') (take (nat limit) a) = drop (length b) (drop (nat s) (take (nat limit) a))"
      using s by (simp add: res nat_add_distrib add.commute)
    have front: "take k (drop (nat s) (take (nat limit) a)) = b"
      using lim by (auto simp: b drop_take min_def)
    have eq: "drop (nat s) (take (nat limit) a) = b @ drop (nat s') (take (nat limit) a)"
    proof -
      define L where "L = drop (nat s) (take (nat limit) a)"
      have "drop (length b) L = drop k L" using front by (auto simp: L_def [symmetric] min_def)
      then have "L = b @ drop (length b) L"
        using front append_take_drop_id [of k L] by (simp add: L_def [symmetric])
      then show ?thesis using left by (simp only: L_def)
    qed
    have prog: "e' = None \<longrightarrow> 0 < n \<longrightarrow> b \<noteq> []"
    proof (intro impI)
      assume "e' = None" "0 < n"
      then have "s + int k \<le> int (length a)" using at_short [OF s, of k] r by fastforce
      moreover have "0 < k" using \<open>0 < n\<close> False by (simp add: k_def)
      ultimately show "b \<noteq> []" using s by (auto simp: b)
    qed
    have fin: "e' = Some x \<longrightarrow> drop (nat s') (take (nat limit) a) = [] \<and> x = EOF" for x
    proof
      assume x: "e' = Some x"
      then have "x = EOF" using at_err [OF s, of k] r by auto
      moreover have "int (length a) \<le> s + int k" using at_full [OF s, of k] r x by force
      then have "length a \<le> nat s' " using s by (auto simp: res b min_def nat_add_distrib)
      ultimately show "drop (nat s') (take (nat limit) a) = [] \<and> x = EOF" by simp
    qed
    show ?thesis using eq prog fin s b by (auto simp: res k_def)
  qed
qed

end

text \<open>\<^verbatim>\<open>bytes.Reader\<close> is such a reader.\<close>

definition bytes_ReadAt :: "byte list \<Rightarrow> reader_at" where
  "bytes_ReadAt a off n =
     (if off < 0 then ([], Some (ErrMsg ''bytes.Reader.ReadAt: negative offset''))
      else if int (length a) \<le> off then ([], Some EOF)
      else let bs = take n (drop (nat off) a) in (bs, if length bs < n then Some EOF else None))"

interpretation bytes_at: archive_at "bytes_ReadAt a" a for a
  by unfold_locales (auto simp: bytes_ReadAt_def Let_def)

section \<open>Opening returns\<close>

text \<open>The errors of the package, as opposed to a panic or a loop that goes on.\<close>

definition zip_error :: "go_error \<Rightarrow> bool" where
  "zip_error e \<longleftrightarrow> e = EOF \<or> e = ErrUnexpectedEOF \<or> e = ErrFormat \<or> (\<exists>m. e = ErrMsg m)"

definition zip_fine :: "'x result \<Rightarrow> bool" where
  "zip_fine res \<longleftrightarrow> (case res of Inl e \<Rightarrow> zip_error e | Inr _ \<Rightarrow> True)"

lemma zip_fine_simps [simp]:
  "zip_fine (Inl e) \<longleftrightarrow> zip_error e" "zip_fine (Inr x)" "zip_error EOF" "zip_error ErrUnexpectedEOF"
  "zip_error ErrFormat" "zip_error (ErrMsg m)"
  by (simp_all add: zip_fine_def zip_error_def)

lemma or_panic_Some [simp]: "or_panic (Some r) = r"
  by (simp add: or_panic_def)

lemma dir_fixed_fine: "46 \<le> length buf \<Longrightarrow> zip_fine (or_panic (dir_fixed buf f))"
  by (simp add: dir_fixed_def rb_defined)

lemma need64_fine: "need64 need b = Some r \<Longrightarrow> zip_fine r"
  by (auto simp: need64_def rb_defined split: if_splits)

lemma zip64_field_fine: "zip64_field b x = Some r \<Longrightarrow> zip_fine r"
proof -
  obtain r1 where 1: "need64 (x_needUSize x) b = Some r1" using need64_defined by blast
  show "zip64_field b x = Some r \<Longrightarrow> zip_fine r"
  proof (cases r1)
    case (Inl e)
    then show "zip64_field b x = Some r \<Longrightarrow> zip_fine r" using 1 need64_fine [OF 1] by (auto simp: zip64_field_def)
  next
    case (Inr p)
    obtain u b1 where p: "p = (u, b1)" by (cases p)
    obtain r2 where 2: "need64 (x_needCSize x) b1 = Some r2" using need64_defined by blast
    show "zip64_field b x = Some r \<Longrightarrow> zip_fine r"
    proof (cases r2)
      case (Inl e)
      then show "zip64_field b x = Some r \<Longrightarrow> zip_fine r"
        using 1 2 Inr p need64_fine [OF 2] by (auto simp: zip64_field_def)
    next
      case q: (Inr q)
      obtain c b2 where q': "q = (c, b2)" by (cases q)
      obtain r3 where 3: "need64 (x_needHeaderOffset x) b2 = Some r3" using need64_defined by blast
      then show "zip64_field b x = Some r \<Longrightarrow> zip_fine r"
        using 1 2 Inr p q q' need64_fine [OF 3] by (cases r3) (auto simp: zip64_field_def Let_def)
    qed
  qed
qed

lemma extra_field_fine: "extra_field tag b x = Some r \<Longrightarrow> zip_fine r"
proof -
  obtain t where "ntfs_attrs (drop 4 b) (x_modified x) = Some t" using ntfs_attrs_defined by blast
  moreover have "5 \<le> length b \<Longrightarrow> b \<noteq> []" by auto
  ultimately show "extra_field tag b x = Some r \<Longrightarrow> zip_fine r"
    using zip64_field_fine [of b x r] by (auto simp: extra_field_def rb_defined split: if_splits)
qed

lemma parse_extras_fine: "parse_extras b x = Some r \<Longrightarrow> zip_fine r"
proof (induction b x rule: parse_extras.induct)
  case (1 b x)
  show ?case
  proof (cases "length b < 4")
    case True
    then show ?thesis using 1(2) by (auto simp: parse_extras.simps [of b])
  next
    case False
    define tag where "tag = (of_nat (le_val (take 2 b)) :: 16 word)"
    define sz where "sz = (of_nat (le_val (take 2 (drop 2 b))) :: 16 word)"
    have rd: "rb_uint16 b = Some (tag, drop 2 b)" "rb_uint16 (drop 2 b) = Some (sz, drop 4 b)"
      using False by (simp_all add: rb_defined tag_def sz_def)
    show ?thesis
    proof (cases "length (drop 4 b) < unat sz")
      case True
      then show ?thesis using 1(2) False rd by (auto simp: parse_extras.simps [of b])
    next
      case big: False
      then have sub: "rb_sub (unat sz) (drop 4 b) = Some (take (unat sz) (drop 4 b), drop (unat sz) (drop 4 b))"
        by (intro rb_defined) simp
      obtain r' where r: "extra_field tag (take (unat sz) (drop 4 b)) x = Some r'" using extra_field_defined by blast
      show ?thesis
      proof (cases r')
        case (Inl e)
        then show ?thesis using 1(2) False rd big sub r extra_field_fine [OF r]
          by (auto simp: parse_extras.simps [of b] simp del: drop_drop)
      next
        case (Inr x')
        then show ?thesis
          using 1(1) [OF False rd(1) refl rd(2) refl big sub refl r Inr] 1(2) False rd big sub r
          by (simp add: parse_extras.simps [of b] del: drop_drop)
      qed
    qed
  qed
qed

lemma dir_finish_fine: "zip_fine (or_panic (dir_finish f))"
proof -
  obtain r where r: "parse_extras (fh_Extra (f_header f)) (start_extras f) = Some r" using parse_extras_defined by blast
  then show ?thesis using parse_extras_fine [OF r] by (cases r) (auto simp: dir_finish_def)
qed

context archive_at
begin

abbreviation "tail_from limit s \<equiv> drop (nat s) (take (nat limit) a)"

lemma readDirectoryHeader_fine:
  assumes "0 \<le> s" "readDirectoryHeader (section_ops ra limit) f s = (res, s')"
  shows "zip_fine res \<and> ((\<exists>f'. res = Inr f') \<longrightarrow> 0 \<le> s' \<and> length (tail_from limit s') + 46 \<le> length (tail_from limit s))"
proof -
  let ?ops = "section_ops ra limit"
  note rd = io_reader.ReadFull_exact [OF section_reader [of limit] _ subset_refl]
  obtain s1 where 1: "ReadFull ?ops s 46 = (take 46 (tail_from limit s), if 46 \<le> length (tail_from limit s) then None
        else Some (if tail_from limit s = [] then EOF else ErrUnexpectedEOF), s1)" "0 \<le> s1"
      "tail_from limit s1 = drop 46 (tail_from limit s)"
    by (rule rd [OF assms(1), of 46])
  show ?thesis
  proof (cases "46 \<le> length (tail_from limit s)")
    case False
    then show ?thesis using assms(2) 1(1) by (auto simp: readDirectoryHeader_def)
  next
    case True
    then have fine: "zip_fine (or_panic (dir_fixed (take 46 (tail_from limit s)) f))" by (intro dir_fixed_fine) simp
    show ?thesis
    proof (cases "or_panic (dir_fixed (take 46 (tail_from limit s)) f)")
      case (Inl e)
      then show ?thesis using assms(2) 1(1) True fine by (auto simp: readDirectoryHeader_def)
    next
      case (Inr p)
      obtain f1 nl xl cl where p: "p = (f1, nl, xl, cl)" by (cases p)
      let ?n = "nl + xl + cl"
      obtain s2 where 2: "ReadFull ?ops s1 ?n = (take ?n (tail_from limit s1), if ?n \<le> length (tail_from limit s1) then None
          else Some (if tail_from limit s1 = [] then EOF else ErrUnexpectedEOF), s2)" "0 \<le> s2"
          "tail_from limit s2 = drop ?n (tail_from limit s1)"
        by (rule rd [OF 1(2), of ?n])
      have "length (tail_from limit s1) = length (tail_from limit s) - 46" using 1(3) by (metis length_drop)
      moreover have "length (tail_from limit s2) = length (tail_from limit s1) - ?n" using 2(3) by (metis length_drop)
      ultimately have "length (tail_from limit s2) + 46 \<le> length (tail_from limit s)" using True by linarith
      note left = this
      note run = assms(2) [unfolded readDirectoryHeader_def]
      show ?thesis
      proof (cases "?n \<le> length (tail_from limit s1)")
        case enough: True
        have "res = or_panic (dir_finish (dir_texts (take ?n (tail_from limit s1)) nl xl f1))" "s' = s2"
          using run 1(1) True Inr p 2(1) enough by (auto simp del: length_drop)
        then show ?thesis using dir_finish_fine left 2(2) by simp
      next
        case short: False
        have "\<exists>e. res = Inl e \<and> zip_error e"
          using run 1(1) True Inr p 2(1) short by (auto simp del: length_drop)
        then show ?thesis by auto
      qed
    qed
  qed
qed

lemma read_directory_fine:
  "0 \<le> s \<Longrightarrow> length (tail_from limit s) < fuel \<Longrightarrow> zip_fine (read_directory (section_ops ra limit) fuel sz skip s files) \<and>
    (\<forall>fs e. read_directory (section_ops ra limit) fuel sz skip s files = Inr (fs, e) \<longrightarrow> zip_error e)"
proof (induction fuel arbitrary: s files)
  case (Suc fuel)
  let ?f = "\<lparr>f_header = new_FileHeader, f_zipsize = sz, f_headerOffset = 0\<rparr>"
  obtain res s' where r: "readDirectoryHeader (section_ops ra limit) ?f s = (res, s')" by fastforce
  note fine = readDirectoryHeader_fine [OF Suc.prems(1) r]
  show ?case
  proof (cases res)
    case (Inl e)
    then show ?thesis using r fine by auto
  next
    case (Inr f)
    then have "0 \<le> s'" "length (tail_from limit s') < fuel" using fine Suc.prems(2) by auto
    then show ?thesis using Suc.IH r Inr by simp
  qed
qed simp

lemma end_record_fine: "22 \<le> length buf \<Longrightarrow> zip_fine (or_panic (end_record buf))"
  by (simp add: end_record_def rb_defined)

lemma length_fill_buf [simp]: "length (fill_buf n bs) = n"
  by (simp add: fill_buf_def copy_into_def)

lemma findDirectory64End_fine: "0 \<le> off \<Longrightarrow> zip_fine (findDirectory64End ra off)"
  using at_err [of "off - 20" 20]
  by (auto simp: findDirectory64End_def Let_def rb_defined split: prod.splits option.splits)

lemma readDirectory64End_fine: "0 \<le> off \<Longrightarrow> zip_fine (readDirectory64End ra off d)"
  using at_err [of off 56]
  by (auto simp: readDirectory64End_def Let_def rb_defined split: prod.splits option.splits)

lemma zip64_end_fine:
  assumes "0 \<le> off"
  shows "zip_fine (zip64_end ra off d)"
proof (cases "findDirectory64End ra off")
  case (Inl e)
  then show ?thesis using findDirectory64End_fine [OF assms] by (simp add: zip64_end_def)
next
  case (Inr p)
  show ?thesis
  proof (cases "p < 0")
    case False
    then show ?thesis using Inr readDirectory64End_fine [of p d]
      by (cases "readDirectory64End ra p d") (simp_all add: zip64_end_def)
  qed (simp add: zip64_end_def Inr)
qed

lemma readDirectoryEnd_fine: "0 \<le> sz \<Longrightarrow> zip_fine (readDirectoryEnd ra sz)"
proof -
  assume sz: "0 \<le> sz"
  define bLen where "bLen = (if sz < 65 * 1024 then sz else 65 * 1024)"
  have b: "0 \<le> bLen" "bLen \<le> sz" using sz by (auto simp: bLen_def)
  obtain bs err where ra: "ra (sz - bLen) (nat bLen) = (bs, err)" by fastforce
  have err: "err = None \<or> err = Some EOF" using at_err [of "sz - bLen" "nat bLen"] b ra by simp
  let ?buf = "fill_buf (nat bLen) bs"
  show ?thesis
  proof (cases "findSignatureInBlock ?buf")
    case None
    then show ?thesis using ra err b unfolding readDirectoryEnd_def Let_def bLen_def [symmetric] by auto
  next
    case (Some p)
    then have p: "p + 22 \<le> nat bLen" by (auto simp: findSignatureInBlock_def find_sig_spec)
    then have e: "zip_fine (or_panic (end_record (drop p ?buf)))" by (intro end_record_fine) simp
    have z: "zip_fine (zip64_end ra (sz - bLen + int p) d)" for d using b by (intro zip64_end_fine) simp
    show ?thesis
      using ra err b Some e z unfolding readDirectoryEnd_def Let_def bLen_def [symmetric]
      by (fastforce simp: zip_fine_def split: sum.splits prod.splits)
  qed
qed

lemma readDirectoryEnd_offset:
  "readDirectoryEnd ra sz = Inr d \<Longrightarrow> 0 \<le> sint (de_directoryOffset d) \<and> sint (de_directoryOffset d) < sz"
  unfolding readDirectoryEnd_def Let_def by (auto split: sum.splits prod.splits if_splits option.splits)

lemma zip_NewReader_fine:
  assumes "sz = int (length a)"
  shows "zip_fine (zip_NewReader nc ra sz)"
proof (cases "readDirectoryEnd ra sz")
  case (Inl e)
  then show ?thesis using readDirectoryEnd_fine [of sz] assms by (simp add: zip_NewReader_def zip_init_def)
next
  case (Inr d)
  have "length (tail_from sz (sint (de_directoryOffset d))) < Suc (nat sz)" using assms by simp
  note f = read_directory_fine [OF conjunct1 [OF readDirectoryEnd_offset [OF Inr]] this, of sz "sint (de_startSkipLen d)" "[]"]
  then show ?thesis
    using Inr by (auto simp: zip_NewReader_def zip_init_def split: sum.splits)
qed

end

text \<open>
  C16. Opening an archive returns on every input and never panics: for every reader that keeps the
  contract of \<^verbatim>\<open>io.ReaderAt\<close>, whatever bytes it holds, \<^verbatim>\<open>NewReader\<close> yields a
  \<^verbatim>\<open>Reader\<close> or one of the errors \<^verbatim>\<open>ErrFormat\<close>, \<^verbatim>\<open>io.EOF\<close>,
  \<^verbatim>\<open>io.ErrUnexpectedEOF\<close> or a message; no read from a buffer leaves its bounds and the
  loops over directory and extra fields end.
\<close>

theorem zip_NewReader_returns:
  assumes "archive_at ra a"
  shows "case zip_NewReader nc ra (int (length a)) :: 'd zip_Reader result of
      Inl e \<Rightarrow> e = ErrFormat \<or> e = EOF \<or> e = ErrUnexpectedEOF \<or> (\<exists>m. e = ErrMsg m)
    | Inr z \<Rightarrow> True"
proof -
  have "zip_fine (zip_NewReader nc ra (int (length a)) :: 'd zip_Reader result)"
    by (rule archive_at.zip_NewReader_fine [OF assms refl])
  then show ?thesis by (auto simp: zip_fine_def zip_error_def split: sum.splits)
qed

theorem zip_NewReader_returns_witness:
  "case zip_NewReader \<lparr>nc_DetectBest = (\<lambda>_. None), nc_CodePage437 = Some, nc_ShiftJIS = Some\<rparr>
      (bytes_ReadAt (replicate 100 0x50)) 100 :: int zip_Reader result of
      Inl e \<Rightarrow> e = ErrFormat \<or> e = EOF \<or> e = ErrUnexpectedEOF \<or> (\<exists>m. e = ErrMsg m)
    | Inr z \<Rightarrow> True"
  using zip_NewReader_returns [OF bytes_at.archive_at_axioms [of "replicate 100 0x50"], where 'd = int and nc = "\<lparr>nc_DetectBest = (\<lambda>_. None), nc_CodePage437 = Some, nc_ShiftJIS = Some\<rparr>"]
  by simp

end
