(* ===== verification/Go_Bufio.thy ===== *)
theory Go_Bufio
  imports Go_IO
begin

text \<open>
  \<^verbatim>\<open>bufio.Writer\<close> with its default buffer of 4096 bytes. It keeps the contract of
  \<^verbatim>\<open>io.Writer\<close> when what it has accepted is what it has passed on and what it still holds.
\<close>

record 'w bufio_Writer =
  bw_wr :: 'w
  bw_buf :: "byte list"
  bw_err :: "go_error option"

definition bufio_NewWriter :: "'w \<Rightarrow> 'w bufio_Writer" where
  "bufio_NewWriter w = \<lparr>bw_wr = w, bw_buf = [], bw_err = None\<rparr>"

definition bufio_Flush :: "'w io_writer_ops \<Rightarrow> 'w bufio_Writer \<Rightarrow> go_error option \<times> 'w bufio_Writer" where
  "bufio_Flush wops b =
     (if bw_err b \<noteq> None then (bw_err b, b)
      else if bw_buf b = [] then (None, b)
      else case op_write wops (bw_wr b) (bw_buf b) of
        (n, e, w) \<Rightarrow>
          let e = (if n < length (bw_buf b) \<and> e = None then Some ErrShortWrite else e)
          in (e, b\<lparr>bw_wr := w, bw_buf := (if e = None then [] else drop n (bw_buf b)), bw_err := e\<rparr>))"

text \<open>
  The loop of \<^verbatim>\<open>Write\<close> while the bytes do not fit: a large write to an empty buffer goes
  through, otherwise the buffer is filled and flushed. A writer that keeps the contract takes the
  whole of what is written or fails, so two rounds are enough.
\<close>

fun bufio_loop :: "'w io_writer_ops \<Rightarrow> nat \<Rightarrow> 'w bufio_Writer \<Rightarrow> byte list \<Rightarrow> nat
    \<Rightarrow> (byte list \<times> nat \<times> 'w bufio_Writer) option" where
  "bufio_loop wops fuel b p nn =
     (if length p \<le> 4096 - length (bw_buf b) \<or> bw_err b \<noteq> None then Some (p, nn, b)
      else case fuel of 0 \<Rightarrow> None | Suc fuel \<Rightarrow>
        if bw_buf b = [] then
          case op_write wops (bw_wr b) p of
            (n, e, w) \<Rightarrow> bufio_loop wops fuel (b\<lparr>bw_wr := w, bw_err := e\<rparr>) (drop n p) (nn + n)
        else
          let n = 4096 - length (bw_buf b);
              b = snd (bufio_Flush wops (b\<lparr>bw_buf := bw_buf b @ take n p\<rparr>))
          in bufio_loop wops fuel b (drop n p) (nn + n))"

declare bufio_loop.simps [simp del]

definition bufio_Write :: "'w io_writer_ops \<Rightarrow> 'w bufio_Writer \<Rightarrow> byte list \<Rightarrow> nat \<times> go_error option \<times> 'w bufio_Writer" where
  "bufio_Write wops b p =
     (case bufio_loop wops 2 b p 0 of
        None \<Rightarrow> (0, Some NoProgress, b)
      | Some (q, nn, b) \<Rightarrow>
          if bw_err b \<noteq> None then (nn, bw_err b, b)
          else (nn + length q, None, b\<lparr>bw_buf := bw_buf b @ q\<rparr>))"

definition bufio_ops :: "'w io_writer_ops \<Rightarrow> 'w bufio_Writer io_writer_ops" where
  "bufio_ops wops = \<lparr>op_write = bufio_Write wops\<rparr>"

context io_writer
begin

definition accepted :: "'w bufio_Writer \<Rightarrow> byte list" where
  "accepted b = out (bw_wr b) @ bw_buf b"

lemma Flush_accepted:
  assumes "bufio_Flush wops b = (e, b')"
  shows "accepted b' = accepted b \<and> bw_err b' = e \<and> (e = None \<longrightarrow> bw_buf b' = [] \<and> out (bw_wr b') = accepted b) \<and>
    (e \<noteq> None \<or> bw_err b = None)"
proof (cases "bw_err b \<noteq> None \<or> bw_buf b = []")
  case True
  then show ?thesis using assms by (auto simp: bufio_Flush_def accepted_def split: if_splits)
next
  case False
  obtain n e1 w where op: "op_write wops (bw_wr b) (bw_buf b) = (n, e1, w)" by (cases "op_write wops (bw_wr b) (bw_buf b)")
  note law = write_out [OF op]
  show ?thesis using assms False op law
    by (auto simp: bufio_Flush_def accepted_def Let_def split: if_splits)
qed

lemma bufio_loop_stop:
  "length p \<le> 4096 - length (bw_buf b) \<or> bw_err b \<noteq> None \<Longrightarrow> bufio_loop wops fuel b p nn = Some (p, nn, b)"
  by (subst bufio_loop.simps) simp

text \<open>What the loop does: it takes the first \<open>k\<close> bytes, and without an error the rest fits.\<close>

definition taken :: "'w bufio_Writer \<Rightarrow> byte list \<Rightarrow> nat \<Rightarrow> (byte list \<times> nat \<times> 'w bufio_Writer) option \<Rightarrow> bool" where
  "taken b p nn r \<longleftrightarrow> (\<exists>k b'. r = Some (drop k p, nn + k, b') \<and> k \<le> length p \<and> accepted b' = accepted b @ take k p)"

lemma taken_step:
  assumes "taken b1 (drop n p) (nn + n) r" "accepted b1 = accepted b @ take n p" "n \<le> length p"
  shows "taken b p nn r"
proof -
  obtain k b' where k: "r = Some (drop k (drop n p), nn + n + k, b')" "k \<le> length p - n"
      "accepted b' = accepted b1 @ take k (drop n p)"
    using assms(1) by (auto simp: taken_def)
  then have "r = Some (drop (n + k) p, nn + (n + k), b')" "n + k \<le> length p"
      "accepted b' = accepted b @ take (n + k) p"
    using assms(2,3) by (simp_all add: add.commute [of k] take_add)
  then show ?thesis unfolding taken_def by blast
qed

lemma taken_stop:
  assumes "length p \<le> 4096 - length (bw_buf b) \<or> bw_err b \<noteq> None"
  shows "taken b p nn (bufio_loop wops fuel b p nn)"
  unfolding taken_def by (rule exI [of _ 0], rule exI [of _ b]) (use assms in \<open>auto simp: bufio_loop_stop\<close>)

lemma bufio_loop_direct:
  assumes "bw_buf b = []"
  shows "taken b p nn (bufio_loop wops (Suc fuel) b p nn)"
proof (cases "length p \<le> 4096 \<or> bw_err b \<noteq> None")
  case True
  then show ?thesis using assms by (intro taken_stop) auto
next
  case False
  obtain n e w where op: "op_write wops (bw_wr b) p = (n, e, w)" by (cases "op_write wops (bw_wr b) p")
  note law = write_out [OF op]
  let ?b = "b\<lparr>bw_wr := w, bw_err := e\<rparr>"
  have "taken ?b (drop n p) (nn + n) (bufio_loop wops fuel ?b (drop n p) (nn + n))"
    using law assms by (intro taken_stop) auto
  then have "taken b p nn (bufio_loop wops fuel ?b (drop n p) (nn + n))"
    by (rule taken_step) (use law assms in \<open>auto simp: accepted_def\<close>)
  moreover have "bufio_loop wops (Suc fuel) b p nn = bufio_loop wops fuel ?b (drop n p) (nn + n)"
    using False assms op by (subst bufio_loop.simps) simp
  ultimately show ?thesis by simp
qed

lemma bufio_loop_taken: "taken b p nn (bufio_loop wops 2 b p nn)"
proof (cases "bw_buf b = [] \<or> length p \<le> 4096 - length (bw_buf b) \<or> bw_err b \<noteq> None")
  case True
  then show ?thesis using bufio_loop_direct [of b p nn 1] taken_stop [of p b nn 2] by (auto simp: numeral_2_eq_2)
next
  case False
  define n where "n = 4096 - length (bw_buf b)"
  let ?b = "b\<lparr>bw_buf := bw_buf b @ take n p\<rparr>"
  obtain e b1 where fl: "bufio_Flush wops ?b = (e, b1)" by fastforce
  note F = Flush_accepted [OF fl]
  have n: "n < length p" using False by (simp add: n_def)
  have "taken b1 (drop n p) (nn + n) (bufio_loop wops 1 b1 (drop n p) (nn + n))"
  proof (cases e)
    case None
    then show ?thesis using F bufio_loop_direct [of b1 "drop n p" "nn + n" 0] by simp
  qed (use F in \<open>intro taken_stop; auto\<close>)
  then have "taken b p nn (bufio_loop wops 1 b1 (drop n p) (nn + n))"
    by (rule taken_step) (use F n in \<open>auto simp: accepted_def\<close>)
  moreover have "bufio_loop wops 2 b p nn = bufio_loop wops 1 b1 (drop n p) (nn + n)"
    using False fl by (subst bufio_loop.simps) (simp add: n_def numeral_2_eq_2 Let_def)
  ultimately show ?thesis by simp
qed

lemma bufio_Write_accepted:
  assumes "bufio_Write wops b p = (n, e, b')"
  shows "n \<le> length p \<and> accepted b' = accepted b @ take n p \<and> (e = None \<longrightarrow> n = length p) \<and> bw_err b' = e"
proof -
  obtain k b1 where "bufio_loop wops 2 b p 0 = Some (drop k p, k, b1)" "k \<le> length p" "accepted b1 = accepted b @ take k p"
    using bufio_loop_taken [of b p 0] by (auto simp: taken_def)
  moreover from this(3) have "out (bw_wr b1) @ bw_buf b1 @ drop k p = out (bw_wr b) @ bw_buf b @ p"
    by (metis accepted_def append.assoc append_take_drop_id)
  ultimately show ?thesis using assms by (auto simp: bufio_Write_def accepted_def split: if_splits)
qed

lemma bufio_writer: "io_writer (bufio_ops wops) accepted"
  by unfold_locales (use bufio_Write_accepted in \<open>auto simp: bufio_ops_def\<close>)

end

text \<open>
  Writers that take everything in the states \<open>ok\<close>: over such a writer the buffer, once free of
  errors, is such a writer too.
\<close>

locale ok_writer =
  fixes wops :: "'w io_writer_ops" and ok :: "'w \<Rightarrow> bool" and out :: "'w \<Rightarrow> byte list"
  assumes write_ok: "ok w \<Longrightarrow> \<exists>w'. op_write wops w bs = (length bs, None, w') \<and> ok w' \<and> out w' = out w @ bs"
begin

definition bok :: "'w bufio_Writer \<Rightarrow> bool" where
  "bok b \<longleftrightarrow> ok (bw_wr b) \<and> bw_err b = None"

definition bout :: "'w bufio_Writer \<Rightarrow> byte list" where
  "bout b = out (bw_wr b) @ bw_buf b"

lemma Flush_ok:
  assumes "bok b"
  shows "\<exists>b'. bufio_Flush wops b = (None, b') \<and> bok b' \<and> out (bw_wr b') = bout b \<and> bw_buf b' = []"
proof -
  obtain w' where "op_write wops (bw_wr b) (bw_buf b) = (length (bw_buf b), None, w')" "ok w'"
      "out w' = out (bw_wr b) @ bw_buf b"
    using write_ok assms unfolding bok_def by blast
  then show ?thesis using assms by (auto simp: bufio_Flush_def bok_def bout_def)
qed

lemma bufio_loop_empty:
  assumes "bok b" "bw_buf b = []"
  shows "\<exists>k b'. bufio_loop wops (Suc fuel) b p nn = Some (drop k p, nn + k, b') \<and> k \<le> length p \<and> bok b' \<and>
    bout b' = bout b @ take k p"
proof (cases "length p \<le> 4096")
  case True
  then show ?thesis using assms by (subst bufio_loop.simps) (auto intro: exI [of _ 0])
next
  case False
  obtain w' where w: "op_write wops (bw_wr b) p = (length p, None, w')" "ok w'" "out w' = out (bw_wr b) @ p"
    using write_ok assms unfolding bok_def by blast
  let ?b = "b\<lparr>bw_wr := w', bw_err := None\<rparr>"
  have "bufio_loop wops (Suc fuel) b p nn = bufio_loop wops fuel ?b [] (nn + length p)"
    using False assms w(1) by (subst bufio_loop.simps) (simp add: bok_def)
  also have "\<dots> = Some (drop (length p) p, nn + length p, ?b)" by (subst bufio_loop.simps) simp
  finally show ?thesis using assms w(2,3) by (auto simp: bok_def bout_def)
qed

lemma bufio_loop_ok:
  assumes "bok b"
  shows "\<exists>k b'. bufio_loop wops 2 b p nn = Some (drop k p, nn + k, b') \<and> k \<le> length p \<and> bok b' \<and>
    bout b' = bout b @ take k p"
proof (cases "bw_buf b = [] \<or> length p \<le> 4096 - length (bw_buf b)")
  case True
  then show ?thesis
  proof
    assume "bw_buf b = []"
    then show ?thesis using bufio_loop_empty [OF assms, of 1] by (simp add: numeral_2_eq_2)
  next
    assume "length p \<le> 4096 - length (bw_buf b)"
    then show ?thesis using assms by (subst bufio_loop.simps) (auto intro: exI [of _ 0])
  qed
next
  case False
  define n where "n = 4096 - length (bw_buf b)"
  have n: "n \<le> length p" using False by (simp add: n_def)
  let ?b = "b\<lparr>bw_buf := bw_buf b @ take n p\<rparr>"
  have "bok ?b" using assms by (simp add: bok_def)
  then obtain b1 where b1: "bufio_Flush wops ?b = (None, b1)" "bok b1" "out (bw_wr b1) = bout ?b" "bw_buf b1 = []"
    using Flush_ok by blast
  then have out: "bout b1 = bout b @ take n p" by (simp add: bout_def)
  obtain k b' where k: "bufio_loop wops 1 b1 (drop n p) (nn + n) = Some (drop k (drop n p), nn + n + k, b')"
      "k \<le> length (drop n p)" "bok b'" "bout b' = bout b1 @ take k (drop n p)"
    using bufio_loop_empty [OF b1(2,4), of 0 "drop n p" "nn + n"] by auto
  have "bufio_loop wops 2 b p nn = bufio_loop wops 1 b1 (drop n p) (nn + n)"
    using False assms b1(1) by (subst bufio_loop.simps) (simp add: n_def numeral_2_eq_2 Let_def bok_def)
  then have "bufio_loop wops 2 b p nn = Some (drop (n + k) p, nn + (n + k), b')"
    using k(1) by (simp add: add.commute add.left_commute)
  moreover have "bout b' = bout b @ take (n + k) p" using k(4) out by (simp add: take_add)
  ultimately show ?thesis using k(2,3) n by auto
qed

lemma bufio_Write_ok:
  assumes "bok b"
  shows "\<exists>b'. op_write (bufio_ops wops) b p = (length p, None, b') \<and> bok b' \<and> bout b' = bout b @ p"
proof -
  obtain k b1 where k: "bufio_loop wops 2 b p 0 = Some (drop k p, k, b1)" "k \<le> length p" "bok b1" "bout b1 = bout b @ take k p"
    using bufio_loop_ok [OF assms, of p 0] by auto
  let ?b = "b1\<lparr>bw_buf := bw_buf b1 @ drop k p\<rparr>"
  have "bout ?b = bout b @ p" using k(4) by (metis append.assoc append_take_drop_id bout_def bufio_Writer.select_convs(1,2) bufio_Writer.surjective bufio_Writer.update_convs(2))
  then show ?thesis using k by (auto simp: bufio_ops_def bufio_Write_def bok_def)
qed

lemma bufio_ok: "ok_writer (bufio_ops wops) bok bout"
  by unfold_locales (rule bufio_Write_ok)

end

sublocale reliable_writer \<subseteq> always: ok_writer wops "\<lambda>_. True" out
  by unfold_locales (metis write_ok)

end
