(* ===== verification/Zip_Writer.thy ===== *)
theory Zip_Writer
  imports Zip_Register Zip_Reader Go_Bufio
begin

text \<open>
  The file \<^verbatim>\<open>zip/writer.go\<close>: the state of \<^verbatim>\<open>Writer\<close> and of the writer of a file, and all
  their methods.

  The file headers are objects that the caller and the \<^verbatim>\<open>Writer\<close> share by pointers, and the same
  header may be given to the \<^verbatim>\<open>Writer\<close> twice. They live in a store, \<open>zw_heap\<close>, and the
  directory holds their addresses. The counting writer \<^verbatim>\<open>w.cw\<close>, which the
  \<^verbatim>\<open>Writer\<close>, the writer of a file and its compressor share, is one component of the state.
\<close>

section \<open>Counting writers\<close>

record 'u countWriter =
  cw_w :: 'u
  cw_count :: int

definition countWriter_Write :: "'u io_writer_ops \<Rightarrow> 'u countWriter \<Rightarrow> byte list \<Rightarrow> nat \<times> go_error option \<times> 'u countWriter" where
  "countWriter_Write ops w p =
     (case op_write ops (cw_w w) p of
        (n, err, u) \<Rightarrow> (n, err, w\<lparr>cw_w := u, cw_count := i64 (cw_count w + int n)\<rparr>))"

definition count_ops :: "'u io_writer_ops \<Rightarrow> 'u countWriter io_writer_ops" where
  "count_ops ops = \<lparr>op_write = countWriter_Write ops\<rparr>"

text \<open>The writer \<^verbatim>\<open>w.cw\<close> of a \<^verbatim>\<open>Writer\<close>, and the one above it that compressors write to.\<close>

type_synonym 'w zip_out = "'w bufio_Writer countWriter"

abbreviation out_ops :: "'w io_writer_ops \<Rightarrow> 'w zip_out io_writer_ops" where
  "out_ops wops \<equiv> count_ops (bufio_ops wops)"

text \<open>Several writes in a row; the first error ends them.\<close>

fun write_all :: "'u io_writer_ops \<Rightarrow> 'u \<Rightarrow> byte list list \<Rightarrow> go_error option \<times> 'u" where
  "write_all ops u [] = (None, u)"
| "write_all ops u (p # ps) =
     (case op_write ops u p of
        (n, Some e, u') \<Rightarrow> (Some e, u')
      | (n, None, u') \<Rightarrow> write_all ops u' ps)"

section \<open>State\<close>

record header =
  h_FileHeader :: nat
  h_offset :: "64 word"

record ('c, 'w) fileWriter =
  fw_header :: header
  fw_rawCount :: int
  fw_ops :: "('c, 'w zip_out countWriter) compressor_ops"
  fw_comp :: 'c
  fw_compCount :: int
  fw_crc32 :: "32 word"
  fw_closed :: bool

type_synonym ('c, 'w) zip_compressors = "16 word \<Rightarrow> ('c, 'w zip_out countWriter) compressor_fun option"

record ('c, 'w) zip_Writer =
  zw_cw :: "'w zip_out"
  zw_dir :: "header list"
  zw_last :: "('c, 'w) fileWriter option"
  zw_closed :: bool
  zw_compressors :: "('c, 'w) zip_compressors"
  zw_comment :: gostring
  zw_compressionSettings :: CompressionSettings
  zw_heap :: "FileHeader list"

definition zip_NewWriter :: "'w \<Rightarrow> ('c, 'w) zip_Writer" where
  "zip_NewWriter w =
     \<lparr>zw_cw = \<lparr>cw_w = bufio_NewWriter w, cw_count = 0\<rparr>, zw_dir = [], zw_last = None, zw_closed = False,
      zw_compressors = Map.empty, zw_comment = [], zw_compressionSettings = defaultCompressionSettings, zw_heap = []\<rparr>"

text \<open>The allocation of a header by the caller.\<close>

definition new_header :: "FileHeader \<Rightarrow> ('c, 'w) zip_Writer \<Rightarrow> nat \<times> ('c, 'w) zip_Writer" where
  "new_header fh w = (length (zw_heap w), w\<lparr>zw_heap := zw_heap w @ [fh]\<rparr>)"

definition SetCompressionSettings :: "CompressionSettings \<Rightarrow> ('c, 'w) zip_Writer \<Rightarrow> go_error option \<times> ('c, 'w) zip_Writer" where
  "SetCompressionSettings s w =
     (case CompressionSettings_Validate s of
        Some e \<Rightarrow> (Some e, w)
      | None \<Rightarrow> (None, w\<lparr>zw_compressionSettings := s\<rparr>))"

definition SetOffset :: "int \<Rightarrow> ('c, 'w) zip_Writer \<Rightarrow> ('c, 'w) zip_Writer result" where
  "SetOffset n w =
     (if cw_count (zw_cw w) \<noteq> 0 then Inl (Panic ''zip: SetOffset called after data was written'')
      else Inr (w\<lparr>zw_cw := (zw_cw w)\<lparr>cw_count := n\<rparr>\<rparr>))"

definition zip_Flush :: "'w io_writer_ops \<Rightarrow> ('c, 'w) zip_Writer \<Rightarrow> go_error option \<times> ('c, 'w) zip_Writer" where
  "zip_Flush wops w =
     (case bufio_Flush wops (cw_w (zw_cw w)) of (e, b) \<Rightarrow> (e, w\<lparr>zw_cw := (zw_cw w)\<lparr>cw_w := b\<rparr>\<rparr>))"

definition SetComment :: "gostring \<Rightarrow> ('c, 'w) zip_Writer \<Rightarrow> go_error option \<times> ('c, 'w) zip_Writer" where
  "SetComment comment w =
     (if uint16max < length comment then (Some (ErrMsg ''zip: Writer.Comment too long''), w)
      else (None, w\<lparr>zw_comment := comment\<rparr>))"

definition zw_RegisterCompressor :: "16 word \<Rightarrow> ('c, 'w zip_out countWriter) compressor_fun
    \<Rightarrow> ('c, 'w) zip_Writer \<Rightarrow> ('c, 'w) zip_Writer" where
  "zw_RegisterCompressor method compr w = w\<lparr>zw_compressors := (zw_compressors w)(method \<mapsto> compr)\<rparr>"

definition zw_compressor :: "('c, 'w) zip_compressors \<Rightarrow> ('c, 'w) zip_Writer \<Rightarrow> 16 word
    \<Rightarrow> ('c, 'w zip_out countWriter) compressor_fun option" where
  "zw_compressor global w method =
     (case zw_compressors w method of None \<Rightarrow> global method | Some compr \<Rightarrow> Some compr)"

section \<open>The writer of a file\<close>

definition fileWriter_Write :: "'w zip_out \<Rightarrow> ('c, 'w) fileWriter \<Rightarrow> byte list
    \<Rightarrow> nat \<times> go_error option \<times> ('c, 'w) fileWriter \<times> 'w zip_out" where
  "fileWriter_Write cw fw p =
     (if fw_closed fw then (0, Some (ErrMsg ''zip: write to closed file''), fw, cw)
      else case cp_write (fw_ops fw) (fw_comp fw) \<lparr>cw_w = cw, cw_count = fw_compCount fw\<rparr> p of
        (n, err, c, compCount) \<Rightarrow>
          (n, err,
           fw\<lparr>fw_crc32 := crc32_Write (fw_crc32 fw) p, fw_rawCount := i64 (fw_rawCount fw + int n),
              fw_comp := c, fw_compCount := cw_count compCount\<rparr>,
           cw_w compCount))"

text \<open>The sizes and the checksum of a file whose data is complete.\<close>

definition close_header :: "32 word \<Rightarrow> int \<Rightarrow> int \<Rightarrow> FileHeader \<Rightarrow> FileHeader" where
  "close_header crc compCount rawCount fh =
     (let fh = fh\<lparr>fh_CRC32 := crc, fh_CompressedSize64 := word_of_int compCount, fh_UncompressedSize64 := word_of_int rawCount\<rparr>
      in if isZip64 fh then
           fh\<lparr>fh_CompressedSize := of_nat uint32max, fh_UncompressedSize := of_nat uint32max, fh_ReaderVersion := zipVersion45\<rparr>
         else
           fh\<lparr>fh_CompressedSize := ucast (fh_CompressedSize64 fh), fh_UncompressedSize := ucast (fh_UncompressedSize64 fh)\<rparr>)"

definition data_descriptor :: "FileHeader \<Rightarrow> byte list option" where
  "data_descriptor fh = do {
     b \<leftarrow> wb_uint32 dataDescriptorSignature (wb_make (if isZip64 fh then dataDescriptor64Len else dataDescriptorLen));
     b \<leftarrow> wb_uint32 (fh_CRC32 fh) b;
     if isZip64 fh then do {
       b \<leftarrow> wb_uint64 (fh_CompressedSize64 fh) b;
       b \<leftarrow> wb_uint64 (fh_UncompressedSize64 fh) b;
       Some (wb_bytes b)
     } else do {
       b \<leftarrow> wb_uint32 (fh_CompressedSize fh) b;
       b \<leftarrow> wb_uint32 (fh_UncompressedSize fh) b;
       Some (wb_bytes b)
     }
   }"

definition write_buf :: "'u io_writer_ops \<Rightarrow> 'u \<Rightarrow> byte list option \<Rightarrow> byte list list \<Rightarrow> go_error option \<times> 'u" where
  "write_buf ops u buf rest =
     (case buf of
        None \<Rightarrow> (Some (Panic ''index out of range''), u)
      | Some b \<Rightarrow> write_all ops u (b # rest))"

definition fileWriter_close :: "'w io_writer_ops \<Rightarrow> FileHeader list \<Rightarrow> 'w zip_out \<Rightarrow> ('c, 'w) fileWriter
    \<Rightarrow> go_error option \<times> FileHeader list \<times> ('c, 'w) fileWriter \<times> 'w zip_out" where
  "fileWriter_close wops heap cw fw =
     (if fw_closed fw then (Some (ErrMsg ''zip: file closed twice''), heap, fw, cw)
      else case cp_close (fw_ops fw) (fw_comp fw) \<lparr>cw_w = cw, cw_count = fw_compCount fw\<rparr> of
        (err, c, compCount) \<Rightarrow>
          let fw = fw\<lparr>fw_closed := True, fw_comp := c, fw_compCount := cw_count compCount\<rparr>; cw = cw_w compCount
          in case err of
               Some e \<Rightarrow> (Some e, heap, fw, cw)
             | None \<Rightarrow>
                 let p = h_FileHeader (fw_header fw);
                     fh = close_header (fw_crc32 fw) (fw_compCount fw) (fw_rawCount fw) (heap ! p)
                 in case write_buf (out_ops wops) cw (data_descriptor fh) [] of
                      (err, cw) \<Rightarrow> (err, heap[p := fh], fw, cw))"

text \<open>The step \<^verbatim>\<open>if w.last != nil && !w.last.closed\<close> of \<^verbatim>\<open>CreateHeader\<close> and \<^verbatim>\<open>Close\<close>.\<close>

definition close_last :: "'w io_writer_ops \<Rightarrow> ('c, 'w) zip_Writer \<Rightarrow> go_error option \<times> ('c, 'w) zip_Writer" where
  "close_last wops w =
     (case zw_last w of
        None \<Rightarrow> (None, w)
      | Some fw \<Rightarrow>
          if fw_closed fw then (None, w)
          else case fileWriter_close wops (zw_heap w) (zw_cw w) fw of
            (err, heap, fw, cw) \<Rightarrow> (err, w\<lparr>zw_heap := heap, zw_last := Some fw, zw_cw := cw\<rparr>))"

text \<open>\<^verbatim>\<open>Write\<close> on the writer that the last \<^verbatim>\<open>Create\<close> or \<^verbatim>\<open>CreateHeader\<close> returned.\<close>

definition write_last :: "('c, 'w) zip_Writer \<Rightarrow> byte list \<Rightarrow> nat \<times> go_error option \<times> ('c, 'w) zip_Writer" where
  "write_last w p =
     (case zw_last w of
        None \<Rightarrow> (0, Some (Panic ''nil pointer dereference''), w)
      | Some fw \<Rightarrow>
          case fileWriter_Write (zw_cw w) fw p of
            (n, err, fw, cw) \<Rightarrow> (n, err, w\<lparr>zw_last := Some fw, zw_cw := cw\<rparr>))"

section \<open>Creating a file\<close>

text \<open>The field of an extended time stamp.\<close>

definition ext_time :: "loctime \<Rightarrow> byte list option" where
  "ext_time t = do {
     b \<leftarrow> wb_uint16 extTimeExtraID (wb_make 9);
     b \<leftarrow> wb_uint16 5 b;
     b \<leftarrow> wb_uint8 1 b;
     b \<leftarrow> wb_uint32 (word_of_int (Unix_of (lt_time t))) b;
     Some (wb_bytes b)
   }"

definition utf8_flag :: "FileHeader \<Rightarrow> FileHeader" where
  "utf8_flag fh =
     (let (valid1, require1) = detectUTF8 (fh_Name fh);
          (valid2, require2) = detectUTF8 (fh_Comment fh)
      in if fh_NonUTF8 fh then fh\<lparr>fh_Flags := fh_Flags fh AND NOT 0x800\<rparr>
         else if (require1 \<or> require2) \<and> valid1 \<and> valid2 then fh\<lparr>fh_Flags := fh_Flags fh OR 0x800\<rparr>
         else fh)"

definition stamp_modified :: "FileHeader \<Rightarrow> FileHeader option" where
  "stamp_modified fh =
     (if IsZero (lt_time (fh_Modified fh)) then Some fh
      else do {
        mbuf \<leftarrow> ext_time (fh_Modified fh);
        let (d, t) = timeToMsDosTime (fh_Modified fh)
        in Some (fh\<lparr>fh_ModifiedDate := d, fh_ModifiedTime := t, fh_Extra := fh_Extra fh @ mbuf\<rparr>)
      })"

definition prepare_header :: "FileHeader \<Rightarrow> FileHeader option" where
  "prepare_header fh =
     (let fh = utf8_flag (fh\<lparr>fh_Flags := fh_Flags fh OR 0x8\<rparr>);
          fh = fh\<lparr>fh_CreatorVersion := fh_CreatorVersion fh AND 0xff00 OR zipVersion20, fh_ReaderVersion := zipVersion20\<rparr>
      in stamp_modified fh)"

definition local_header :: "FileHeader \<Rightarrow> byte list option" where
  "local_header h = do {
     b \<leftarrow> wb_uint32 fileHeaderSignature (wb_make fileHeaderLen);
     b \<leftarrow> wb_uint16 (fh_ReaderVersion h) b;
     b \<leftarrow> wb_uint16 (fh_Flags h) b;
     b \<leftarrow> wb_uint16 (fh_Method h) b;
     b \<leftarrow> wb_uint16 (fh_ModifiedTime h) b;
     b \<leftarrow> wb_uint16 (fh_ModifiedDate h) b;
     b \<leftarrow> wb_uint32 0 b;
     b \<leftarrow> wb_uint32 0 b;
     b \<leftarrow> wb_uint32 0 b;
     b \<leftarrow> wb_uint16 (of_nat (length (fh_Name h))) b;
     b \<leftarrow> wb_uint16 (of_nat (length (fh_Extra h))) b;
     Some (wb_bytes b)
   }"

definition zip_writeHeader :: "'u io_writer_ops \<Rightarrow> 'u \<Rightarrow> FileHeader \<Rightarrow> go_error option \<times> 'u" where
  "zip_writeHeader ops w h =
     (if 65535 < length (fh_Name h) then (Some (ErrMsg ''zip: FileHeader.Name too long''), w)
      else if 65535 < length (fh_Extra h) then (Some (ErrMsg ''zip: FileHeader.Extra too long''), w)
      else write_buf ops w (local_header h) [fh_Name h, fh_Extra h])"

definition CreateHeader :: "'w io_writer_ops \<Rightarrow> ('c, 'w) zip_compressors \<Rightarrow> ('c, 'w) zip_Writer \<Rightarrow> nat
    \<Rightarrow> go_error option \<times> ('c, 'w) zip_Writer" where
  "CreateHeader wops global w p =
     (case close_last wops w of
        (Some e, w) \<Rightarrow> (Some e, w)
      | (None, w) \<Rightarrow>
          if zw_dir w \<noteq> [] \<and> h_FileHeader (last (zw_dir w)) = p then
            (Some (ErrMsg ''archive/zip: invalid duplicate FileHeader''), w)
          else case prepare_header (zw_heap w ! p) of
            None \<Rightarrow> (Some (Panic ''index out of range''), w)
          | Some fh \<Rightarrow>
              let w = w\<lparr>zw_heap := (zw_heap w)[p := fh]\<rparr>
              in case zw_compressor global w (fh_Method fh) of
                   None \<Rightarrow> (Some ErrAlgorithm, w)
                 | Some compr \<Rightarrow>
                     case compr (zw_compressionSettings w) (count_ops (out_ops wops)) \<lparr>cw_w = zw_cw w, cw_count = 0\<rparr> of
                       (Inl e, compCount) \<Rightarrow> (Some e, w\<lparr>zw_cw := cw_w compCount\<rparr>)
                     | (Inr (ops, c), compCount) \<Rightarrow>
                         let cw = cw_w compCount;
                             h = \<lparr>h_FileHeader = p, h_offset = word_of_int (cw_count cw)\<rparr>;
                             fw = \<lparr>fw_header = h, fw_rawCount = 0, fw_ops = ops, fw_comp = c,
                                   fw_compCount = cw_count compCount, fw_crc32 = crc32_NewIEEE, fw_closed = False\<rparr>;
                             w = w\<lparr>zw_dir := zw_dir w @ [h]\<rparr>
                         in case zip_writeHeader (out_ops wops) cw fh of
                              (Some e, cw) \<Rightarrow> (Some e, w\<lparr>zw_cw := cw\<rparr>)
                            | (None, cw) \<Rightarrow> (None, w\<lparr>zw_cw := cw, zw_last := Some fw\<rparr>))"

definition zip_Create :: "'w io_writer_ops \<Rightarrow> ('c, 'w) zip_compressors \<Rightarrow> gostring \<Rightarrow> ('c, 'w) zip_Writer
    \<Rightarrow> go_error option \<times> ('c, 'w) zip_Writer" where
  "zip_Create wops global name w =
     (case new_header (new_FileHeader\<lparr>fh_Name := name, fh_Method := Deflate\<rparr>) w of
        (p, w) \<Rightarrow> CreateHeader wops global w p)"

section \<open>Closing\<close>

text \<open>The zip64 block that \<^verbatim>\<open>Close\<close> appends to the extra fields of a large file.\<close>

definition zip64_extra :: "FileHeader \<Rightarrow> 64 word \<Rightarrow> byte list option" where
  "zip64_extra h offset = do {
     eb \<leftarrow> wb_uint16 zip64ExtraID (wb_make 28);
     eb \<leftarrow> wb_uint16 24 eb;
     eb \<leftarrow> wb_uint64 (fh_UncompressedSize64 h) eb;
     eb \<leftarrow> wb_uint64 (fh_CompressedSize64 h) eb;
     eb \<leftarrow> wb_uint64 offset eb;
     Some (wb_bytes eb)
   }"

text \<open>The fixed part of a directory entry and the header with the extra fields written.\<close>

definition dir_entry :: "FileHeader \<Rightarrow> 64 word \<Rightarrow> (byte list \<times> FileHeader) option" where
  "dir_entry h offset = do {
     b \<leftarrow> wb_uint32 directoryHeaderSignature (wb_make directoryHeaderLen);
     b \<leftarrow> wb_uint16 (fh_CreatorVersion h) b;
     b \<leftarrow> wb_uint16 (fh_ReaderVersion h) b;
     b \<leftarrow> wb_uint16 (fh_Flags h) b;
     b \<leftarrow> wb_uint16 (fh_Method h) b;
     b \<leftarrow> wb_uint16 (fh_ModifiedTime h) b;
     b \<leftarrow> wb_uint16 (fh_ModifiedDate h) b;
     b \<leftarrow> wb_uint32 (fh_CRC32 h) b;
     (b, h) \<leftarrow> (if isZip64 h \<or> uint32max \<le> unat offset then do {
                b \<leftarrow> wb_uint32 (of_nat uint32max) b;
                b \<leftarrow> wb_uint32 (of_nat uint32max) b;
                eb \<leftarrow> zip64_extra h offset;
                Some (b, h\<lparr>fh_Extra := fh_Extra h @ eb\<rparr>)
              } else do {
                b \<leftarrow> wb_uint32 (fh_CompressedSize h) b;
                b \<leftarrow> wb_uint32 (fh_UncompressedSize h) b;
                Some (b, h)
              });
     b \<leftarrow> wb_uint16 (of_nat (length (fh_Name h))) b;
     b \<leftarrow> wb_uint16 (of_nat (length (fh_Extra h))) b;
     b \<leftarrow> wb_uint16 (of_nat (length (fh_Comment h))) b;
     b \<leftarrow> wb_skip 4 b;
     b \<leftarrow> wb_uint32 (fh_ExternalAttrs h) b;
     b \<leftarrow> (if uint32max < unat offset then wb_uint32 (of_nat uint32max) b else wb_uint32 (ucast offset) b);
     Some (wb_bytes b, h)
   }"

fun write_directory :: "'u io_writer_ops \<Rightarrow> header list \<Rightarrow> FileHeader list \<Rightarrow> 'u \<Rightarrow> go_error option \<times> FileHeader list \<times> 'u" where
  "write_directory ops [] heap u = (None, heap, u)"
| "write_directory ops (h # hs) heap u =
     (case dir_entry (heap ! h_FileHeader h) (h_offset h) of
        None \<Rightarrow> (Some (Panic ''index out of range''), heap, u)
      | Some (buf, fh) \<Rightarrow>
          let heap = heap[h_FileHeader h := fh]
          in case write_all ops u [buf, fh_Name fh, fh_Extra fh, fh_Comment fh] of
               (Some e, u) \<Rightarrow> (Some e, heap, u)
             | (None, u) \<Rightarrow> write_directory ops hs heap u)"

definition end64_records :: "64 word \<Rightarrow> 64 word \<Rightarrow> 64 word \<Rightarrow> 64 word \<Rightarrow> byte list option" where
  "end64_records records size' offset end' = do {
     b \<leftarrow> wb_uint32 directory64EndSignature (wb_make (directory64EndLen + directory64LocLen));
     b \<leftarrow> wb_uint64 (of_nat (directory64EndLen - 12)) b;
     b \<leftarrow> wb_uint16 zipVersion45 b;
     b \<leftarrow> wb_uint16 zipVersion45 b;
     b \<leftarrow> wb_uint32 0 b;
     b \<leftarrow> wb_uint32 0 b;
     b \<leftarrow> wb_uint64 records b;
     b \<leftarrow> wb_uint64 records b;
     b \<leftarrow> wb_uint64 size' b;
     b \<leftarrow> wb_uint64 offset b;
     b \<leftarrow> wb_uint32 directory64LocSignature b;
     b \<leftarrow> wb_uint32 0 b;
     b \<leftarrow> wb_uint64 end' b;
     b \<leftarrow> wb_uint32 1 b;
     Some (wb_bytes b)
   }"

definition end_buf :: "64 word \<Rightarrow> 64 word \<Rightarrow> 64 word \<Rightarrow> gostring \<Rightarrow> byte list option" where
  "end_buf records size' offset comment = do {
     b \<leftarrow> wb_uint32 directoryEndSignature (wb_make directoryEndLen);
     b \<leftarrow> wb_skip 4 b;
     b \<leftarrow> wb_uint16 (ucast records) b;
     b \<leftarrow> wb_uint16 (ucast records) b;
     b \<leftarrow> wb_uint32 (ucast size') b;
     b \<leftarrow> wb_uint32 (ucast offset) b;
     b \<leftarrow> wb_uint16 (of_nat (length comment)) b;
     Some (wb_bytes b)
   }"

text \<open>The end of the directory: the zip64 records when a number is too large, and the end record.\<close>

definition write_end :: "'u io_writer_ops \<Rightarrow> 64 word \<Rightarrow> 64 word \<Rightarrow> 64 word \<Rightarrow> 64 word \<Rightarrow> gostring \<Rightarrow> 'u \<Rightarrow> go_error option \<times> 'u" where
  "write_end ops records size' offset end' comment u =
     (if uint16max \<le> unat records \<or> uint32max \<le> unat size' \<or> uint32max \<le> unat offset then
        case write_buf ops u (end64_records records size' offset end') [] of
          (Some e, u) \<Rightarrow> (Some e, u)
        | (None, u) \<Rightarrow> write_buf ops u (end_buf (of_nat uint16max) (of_nat uint32max) (of_nat uint32max) comment) [comment]
      else write_buf ops u (end_buf records size' offset comment) [comment])"

definition zip_Close :: "'w io_writer_ops \<Rightarrow> ('c, 'w) zip_Writer \<Rightarrow> go_error option \<times> ('c, 'w) zip_Writer" where
  "zip_Close wops w =
     (case close_last wops w of
        (Some e, w) \<Rightarrow> (Some e, w)
      | (None, w') \<Rightarrow>
          let w = (case zw_last w of None \<Rightarrow> w' | Some fw \<Rightarrow> if fw_closed fw then w' else w'\<lparr>zw_last := None\<rparr>)
          in if zw_closed w then (Some (ErrMsg ''zip: writer closed twice''), w)
             else
               let w = w\<lparr>zw_closed := True\<rparr>; start = cw_count (zw_cw w)
               in case write_directory (out_ops wops) (zw_dir w) (zw_heap w) (zw_cw w) of
                    (Some e, heap, cw) \<Rightarrow> (Some e, w\<lparr>zw_heap := heap, zw_cw := cw\<rparr>)
                  | (None, heap, cw) \<Rightarrow>
                      let w = w\<lparr>zw_heap := heap\<rparr>; end' = cw_count cw
                      in case write_end (out_ops wops) (of_nat (length (zw_dir w))) (word_of_int (i64 (end' - start)))
                                (word_of_int start) (word_of_int end') (zw_comment w) cw of
                           (Some e, cw) \<Rightarrow> (Some e, w\<lparr>zw_cw := cw\<rparr>)
                         | (None, cw) \<Rightarrow> zip_Flush wops (w\<lparr>zw_cw := cw\<rparr>))"

end
