(* ===== verification/Zip_Checksum.thy ===== *)
theory Zip_Checksum
  imports Zip_Reader
begin

text \<open>
  The \<^verbatim>\<open>checksumReader\<close> that \<^verbatim>\<open>File.Open\<close> returns. Whatever the decompressor
  delivers, the end of the file is reported only after data of the recorded size and checksum;
  and when the decompressor delivers the data of the file, the reader is an
  \<^verbatim>\<open>io.Reader\<close> of exactly these bytes.
\<close>

lemma fill_buf_id: "length bs = n \<Longrightarrow> fill_buf n bs = bs"
  by (simp add: fill_buf_def copy_into_def)

section \<open>What the end of the file means\<close>

text \<open>A client that calls \<^verbatim>\<open>Read\<close> with buffers of the given lengths until one call reports an error.\<close>

fun read_seq :: "'r io_reader_ops \<Rightarrow> nat list \<Rightarrow> 'r \<Rightarrow> byte list \<times> go_error option \<times> 'r" where
  "read_seq ops [] s = ([], None, s)"
| "read_seq ops (n # ns) s =
     (case op_read ops s n of
        (bs, Some e, s') \<Rightarrow> (bs, Some e, s')
      | (bs, None, s') \<Rightarrow> case read_seq ops ns s' of (bs', e, s'') \<Rightarrow> (bs @ bs', e, s''))"

definition read_so_far :: "byte list \<Rightarrow> 'd checksumReader \<Rightarrow> bool" where
  "read_so_far d r \<longleftrightarrow> ck_err r = None \<and> ck_hash r = crc32_of d \<and> ck_nread r = of_nat (length d)"

lemma read_so_far_more:
  assumes "read_so_far d r" "checksumReader_Read r n = (bs, None, r')"
  shows "read_so_far (d @ bs) r' \<and> ck_f r' = ck_f r \<and> ck_desr r' = ck_desr r"
  using assms
  by (auto simp: read_so_far_def checksumReader_Read_def Let_def crc32_Write_append split: prod.splits option.splits if_splits)

lemma check_end_EOF:
  "check_end r = (EOF, r') \<Longrightarrow> ck_desr r \<noteq> None \<or> fh_CRC32 (f_header (ck_f r)) \<noteq> 0 \<Longrightarrow> ck_hash r = fh_CRC32 (f_header (ck_f r))"
  by (auto simp: check_end_def split: option.splits prod.splits if_splits)

lemma read_so_far_EOF:
  assumes "read_so_far d r" "checksumReader_Read r n = (bs, Some EOF, r')"
  shows "of_nat (length (d @ bs)) = fh_UncompressedSize64 (f_header (ck_f r)) \<and>
    (ck_desr r \<noteq> None \<or> fh_CRC32 (f_header (ck_f r)) \<noteq> 0 \<longrightarrow> crc32_of (d @ bs) = fh_CRC32 (f_header (ck_f r)))"
proof -
  obtain bs' err rc' where rd: "op_read (ck_rc_ops r) (ck_rc r) n = (bs', err, rc')" by (cases "op_read (ck_rc_ops r) (ck_rc r) n")
  define r1 where "r1 = r\<lparr>ck_rc := rc', ck_hash := crc32_Write (ck_hash r) bs', ck_nread := ck_nread r + of_nat (length bs')\<rparr>"
  obtain e' r2 where ce: "check_end r1 = (e', r2)" by fastforce
  have "ck_err r = None" using assms(1) by (simp add: read_so_far_def)
  then have eof: "ck_nread r1 = fh_UncompressedSize64 (f_header (ck_f r1))" "e' = EOF" "bs' = bs"
    using assms(2) rd ce by (auto simp: checksumReader_Read_def r1_def [symmetric] Let_def split: option.splits if_splits)
  have r1: "ck_hash r1 = crc32_of (d @ bs)" "ck_nread r1 = of_nat (length (d @ bs))" "ck_f r1 = ck_f r" "ck_desr r1 = ck_desr r"
    using assms(1) eof(3) by (simp_all add: r1_def read_so_far_def crc32_Write_append)
  show ?thesis using check_end_EOF [OF ce [unfolded eof(2)]] eof(1) by (simp add: r1)
qed

lemma read_seq_checked:
  assumes "read_so_far d r" "read_seq checksum_ops ns r = (bs, Some EOF, r')"
  shows "of_nat (length (d @ bs)) = fh_UncompressedSize64 (f_header (ck_f r)) \<and>
    (ck_desr r \<noteq> None \<or> fh_CRC32 (f_header (ck_f r)) \<noteq> 0 \<longrightarrow> crc32_of (d @ bs) = fh_CRC32 (f_header (ck_f r)))"
  using assms
proof (induction ns arbitrary: d r bs)
  case (Cons n ns)
  obtain b e r1 where rd: "checksumReader_Read r n = (b, e, r1)" by (cases "checksumReader_Read r n")
  show ?case
  proof (cases e)
    case None
    obtain b' e' r2 where rest: "read_seq checksum_ops ns r1 = (b', e', r2)" by (cases "read_seq checksum_ops ns r1")
    then have "bs = b @ b'" "e' = Some EOF" "r2 = r'" using Cons.prems(2) rd None by (auto simp: checksum_ops_def)
    moreover note more = read_so_far_more [OF Cons.prems(1) rd [unfolded None]]
    ultimately show ?thesis using Cons.IH [of "d @ b" r1 b'] rest by simp
  next
    case (Some x)
    then show ?thesis using Cons.prems rd read_so_far_EOF [of d r n b r1] by (auto simp: checksum_ops_def)
  qed
qed simp

lemma File_Open_start:
  assumes "File_Open global ra z f = Inr r"
  shows "read_so_far [] r \<and> ck_f r = f \<and> (ck_desr r \<noteq> None \<longleftrightarrow> hasDataDescriptor f)"
  using assms by (auto simp: File_Open_def read_so_far_def Let_def crc32_NewIEEE_def split: sum.splits option.splits prod.splits if_splits)

text \<open>
  C7. The end of a file is reported only for checked contents: whatever the sizes of the buffers with which the reader that
  \<^verbatim>\<open>File.Open\<close> returns is called, and whatever the decompressor does, when the first error it reports is
  \<^verbatim>\<open>io.EOF\<close>, the bytes delivered until then have the length recorded in
  \<^verbatim>\<open>UncompressedSize64\<close> (as a 64-bit number), and the CRC-32 recorded in the header. The CRC-32 is not
  tested where the recorded one is zero and the file has no data descriptor. A caller who goes on reading after another
  error is not covered: \<^verbatim>\<open>Read\<close> does not store \<^verbatim>\<open>io.ErrUnexpectedEOF\<close>.
\<close>

theorem File_Open_checked:
  assumes "File_Open global ra z f = Inr r"
    and "read_seq checksum_ops ns r = (bs, Some EOF, r')"
  shows "of_nat (length bs) = fh_UncompressedSize64 (f_header f) \<and>
    (hasDataDescriptor f \<or> fh_CRC32 (f_header f) \<noteq> 0 \<longrightarrow> crc32_of bs = fh_CRC32 (f_header f))"
  using read_seq_checked [of "[]" r ns bs r'] File_Open_start [OF assms(1)] assms(2) by simp

text \<open>A stored file of one byte behind a minimal local header.\<close>

definition a_archive :: "byte list" where
  "a_archive = [0x50, 0x4b, 3, 4, 0, 0, 0, 0, 0, 0, 0, 0, 0, 0, 0, 0, 0, 0, 0, 0, 0, 0, 0, 0, 0, 0, 0, 0, 0, 0, 97]"

definition a_file :: File where
  "a_file = \<lparr>f_header = new_FileHeader\<lparr>fh_CRC32 := 0xe8b7be43, fh_CompressedSize64 := 1, fh_UncompressedSize64 := 1\<rparr>,
     f_zipsize = 31, f_headerOffset = 0\<rparr>"

definition a_opened :: "int checksumReader" where
  "a_opened = \<lparr>ck_rc_ops = section_ops (bytes_ReadAt a_archive) 31, ck_rc = 30, ck_hash = crc32_NewIEEE, ck_nread = 0,
     ck_f = a_file, ck_desr = None, ck_err = None\<rparr>"

lemma crc_a: "crc32_of [97] = 0xe8b7be43"
  by (simp add: crc32_Write_def crc32_NewIEEE_def crc_byte_unfold crc_shift_def)

lemma a_body: "findBodyOffset (bytes_ReadAt a_archive) a_file = Inr 30"
  by (simp add: findBodyOffset_def bytes_ReadAt_def a_archive_def a_file_def fill_buf_id rb_uint32_def rb_uint16_def
      rb_skip_def or_panic_def fileHeaderSignature_def)

lemma a_open:
  "File_Open (\<lambda>_. Some (\<lambda>ops pos f. (ops, pos))) (bytes_ReadAt a_archive)
     \<lparr>zr_File = [], zr_Comment = [], zr_decompressors = Map.empty\<rparr> a_file = Inr a_opened"
  by (simp add: File_Open_def a_body)
     (simp add: a_file_def a_opened_def new_FileHeader_def zip_decompressor_def hasDataDescriptor_def i64_def)

lemma a_read: "\<exists>r'. read_seq checksum_ops [2, 2] a_opened = ([97], Some EOF, r')"
  by (simp add: checksum_ops_def checksumReader_Read_def section_ops_def section_Read_def bytes_ReadAt_def
      a_archive_def a_opened_def a_file_def check_end_def crc_a)

theorem File_Open_checked_witness:
  "of_nat (length [97 :: byte]) = fh_UncompressedSize64 (f_header a_file) \<and>
    crc32_of [97] = fh_CRC32 (f_header a_file)"
proof -
  obtain r' where "read_seq checksum_ops [2, 2] a_opened = ([97], Some EOF, r')" using a_read by blast
  from File_Open_checked [OF a_open this] show ?thesis by (simp add: a_file_def)
qed

section \<open>Reading a sound file\<close>

text \<open>
  The data the decompressor delivers, its size and checksum as recorded, and a data descriptor
  that agrees when there is one.
\<close>

locale sound_file = io_reader rops ok left fins
  for rops :: "'d io_reader_ops" and ok left fins +
  fixes f :: File and contents :: "byte list"
  assumes only_EOF: "fins s \<subseteq> {EOF}"
    and size_ok: "of_nat (length contents) = fh_UncompressedSize64 (f_header f)"
    and crc_ok: "crc32_of contents = fh_CRC32 (f_header f)"
begin

definition reading :: "'d checksumReader \<Rightarrow> bool" where
  "reading r \<longleftrightarrow> ck_rc_ops r = rops \<and> ck_f r = f \<and>
     (ck_err r = Some EOF \<or>
      ok (ck_rc r) \<and> (\<exists>d. d @ left (ck_rc r) = contents \<and> read_so_far d r) \<and>
      (\<forall>dops desr. ck_desr r = Some (dops, desr) \<longrightarrow> fst (readDataDescriptor dops desr f) = None))"

definition unread :: "'d checksumReader \<Rightarrow> byte list" where
  "unread r = (if ck_err r = Some EOF then [] else left (ck_rc r))"

lemma reading_step:
  assumes r: "reading r" and rd: "checksumReader_Read r n = (bs, e, r')"
  shows "reading r' \<and> unread r = bs @ unread r' \<and> length bs \<le> n \<and> (e = None \<longrightarrow> 0 < n \<longrightarrow> bs \<noteq> []) \<and>
    (\<forall>x. e = Some x \<longrightarrow> unread r' = [] \<and> x = EOF)"
proof (cases "ck_err r = Some EOF")
  case True
  then show ?thesis using rd r by (auto simp: checksumReader_Read_def reading_def unread_def)
next
  case False
  then obtain d where ok: "ok (ck_rc r)" and d: "d @ left (ck_rc r) = contents" "read_so_far d r"
    and desr: "\<And>dops desr. ck_desr r = Some (dops, desr) \<Longrightarrow> fst (readDataDescriptor dops desr f) = None"
    and f: "ck_rc_ops r = rops" "ck_f r = f"
    using r by (auto simp: reading_def)
  obtain b err rc' where op: "op_read rops (ck_rc r) n = (b, err, rc')" by (cases "op_read rops (ck_rc r) n")
  note laws = read_laws [OF ok op]
  define r1 where "r1 = r\<lparr>ck_rc := rc', ck_hash := crc32_Write (ck_hash r) b, ck_nread := ck_nread r + of_nat (length b)\<rparr>"
  have so: "read_so_far (d @ b) r1" "(d @ b) @ left rc' = contents"
    using d laws(2) by (simp_all add: r1_def read_so_far_def crc32_Write_append)
  have none: "ck_err r = None" using d(2) by (simp add: read_so_far_def)
  have r1: "ck_rc r1 = rc'" "ck_rc_ops r1 = rops" "ck_f r1 = f" "ck_desr r1 = ck_desr r" "ck_err r1 = None"
    by (simp_all add: r1_def f none)
  have run: "(bs, e, r') = (case err of None \<Rightarrow> (b, None, r1)
       | Some e \<Rightarrow> if e = EOF then
            if ck_nread r1 \<noteq> fh_UncompressedSize64 (f_header (ck_f r1)) then ([], Some ErrUnexpectedEOF, r1)
            else case check_end r1 of (e', r') \<Rightarrow> (b, Some e', r'\<lparr>ck_err := Some e'\<rparr>)
          else (b, Some e, r1\<lparr>ck_err := Some e\<rparr>))"
    using rd [symmetric] none unfolding checksumReader_Read_def f(1) op Let_def r1_def by simp
  show ?thesis
  proof (cases err)
    case None
    then have "bs = b" "e = None" "r' = r1" using run by simp_all
    moreover have "reading r1" using laws(1) so desr by (auto simp: reading_def r1)
    moreover have "0 < n \<longrightarrow> b \<noteq> []" using read_progress [OF ok] op None by blast
    ultimately show ?thesis using laws False by (simp add: unread_def r1)
  next
    case (Some x)
    then have x: "x = EOF" "left rc' = []" using read_end [OF ok] op only_EOF by blast+
    then have all: "d @ b = contents" using so(2) by simp
    then have n: "ck_nread r1 = fh_UncompressedSize64 (f_header f)" "ck_hash r1 = fh_CRC32 (f_header f)"
      using so(1) size_ok crc_ok by (simp_all add: read_so_far_def)
    have "\<exists>r2. check_end r1 = (EOF, r2) \<and> ck_f r2 = f \<and> ck_rc_ops r2 = rops"
    proof (cases "ck_desr r")
      case (Some p)
      obtain dops ds ds' where "p = (dops, ds)" "readDataDescriptor dops ds f = (None, ds')"
        using desr Some by (metis prod.collapse)
      then show ?thesis using Some by (simp add: check_end_def r1 n)
    qed (simp add: check_end_def r1 n)
    then obtain r2 where r2: "check_end r1 = (EOF, r2)" "ck_f r2 = f" "ck_rc_ops r2 = rops" by blast
    then have "bs = b" "e = Some EOF" "r' = r2\<lparr>ck_err := Some EOF\<rparr>" using run Some x n by (simp_all add: r1)
    then show ?thesis using r2 laws x False by (simp add: reading_def unread_def)
  qed
qed

lemma checked_reader: "io_reader checksum_ops reading unread (\<lambda>_. {EOF})"
  by (rule io_readerI) (use reading_step in \<open>auto simp: checksum_ops_def\<close>)

end

sublocale sound_file \<subseteq> checked: io_reader checksum_ops reading unread "\<lambda>_. {EOF}"
  by (rule checked_reader)

end
