(* ===== verification/Zip_Layout.thy ===== *)
theory Zip_Layout
  imports Zip_Writer Zip_Checksum
begin

text \<open>
  The records that \<^verbatim>\<open>zip.Writer\<close> writes, as lists of bytes, and a directory entry read
  back by \<^verbatim>\<open>readDirectoryHeader\<close>: with extra fields unknown to the reader, with the time
  stamp of \<^verbatim>\<open>CreateHeader\<close>, and with the zip64 block of \<^verbatim>\<open>Close\<close>.
\<close>

abbreviation le16 :: "16 word \<Rightarrow> byte list" where "le16 v \<equiv> le_bytes 2 (unat v)"
abbreviation le32 :: "32 word \<Rightarrow> byte list" where "le32 v \<equiv> le_bytes 4 (unat v)"
abbreviation le64 :: "64 word \<Rightarrow> byte list" where "le64 v \<equiv> le_bytes 8 (unat v)"

section \<open>Records as lists of bytes\<close>

definition local_fixed :: "FileHeader \<Rightarrow> byte list" where
  "local_fixed h = le32 fileHeaderSignature @ le16 (fh_ReaderVersion h) @ le16 (fh_Flags h) @ le16 (fh_Method h) @
     le16 (fh_ModifiedTime h) @ le16 (fh_ModifiedDate h) @ le32 0 @ le32 0 @ le32 0 @
     le16 (of_nat (length (fh_Name h))) @ le16 (of_nat (length (fh_Extra h)))"

definition descriptor_bytes :: "FileHeader \<Rightarrow> byte list" where
  "descriptor_bytes fh = le32 dataDescriptorSignature @ le32 (fh_CRC32 fh) @
     (if isZip64 fh then le64 (fh_CompressedSize64 fh) @ le64 (fh_UncompressedSize64 fh)
      else le32 (fh_CompressedSize fh) @ le32 (fh_UncompressedSize fh))"

definition ext_time_bytes :: "loctime \<Rightarrow> byte list" where
  "ext_time_bytes t = le16 extTimeExtraID @ le16 5 @ [1] @ le32 (word_of_int (Unix_of (lt_time t)))"

definition zip64_bytes :: "FileHeader \<Rightarrow> 64 word \<Rightarrow> byte list" where
  "zip64_bytes h offset = le16 zip64ExtraID @ le16 24 @ le64 (fh_UncompressedSize64 h) @ le64 (fh_CompressedSize64 h) @ le64 offset"

abbreviation entry64 :: "FileHeader \<Rightarrow> 64 word \<Rightarrow> bool" where
  "entry64 h offset \<equiv> isZip64 h \<or> uint32max \<le> unat offset"

definition dir_extra :: "FileHeader \<Rightarrow> 64 word \<Rightarrow> byte list" where
  "dir_extra h offset = fh_Extra h @ (if entry64 h offset then zip64_bytes h offset else [])"

definition dir_fixed_bytes :: "FileHeader \<Rightarrow> 64 word \<Rightarrow> byte list" where
  "dir_fixed_bytes h offset = le32 directoryHeaderSignature @ le16 (fh_CreatorVersion h) @ le16 (fh_ReaderVersion h) @
     le16 (fh_Flags h) @ le16 (fh_Method h) @ le16 (fh_ModifiedTime h) @ le16 (fh_ModifiedDate h) @ le32 (fh_CRC32 h) @
     le32 (if entry64 h offset then - 1 else fh_CompressedSize h) @ le32 (if entry64 h offset then - 1 else fh_UncompressedSize h) @
     le16 (of_nat (length (fh_Name h))) @ le16 (of_nat (length (dir_extra h offset))) @ le16 (of_nat (length (fh_Comment h))) @
     replicate 4 0 @ le32 (fh_ExternalAttrs h) @ le32 (if uint32max < unat offset then - 1 else ucast offset)"

definition dir_bytes :: "FileHeader \<Rightarrow> 64 word \<Rightarrow> byte list" where
  "dir_bytes h offset = dir_fixed_bytes h offset @ fh_Name h @ dir_extra h offset @ fh_Comment h"

definition end64_bytes :: "64 word \<Rightarrow> 64 word \<Rightarrow> 64 word \<Rightarrow> byte list" where
  "end64_bytes records size' offset =
     le32 directory64EndSignature @ le64 44 @ le16 zipVersion45 @ le16 zipVersion45 @ le32 0 @ le32 0 @
     le64 records @ le64 records @ le64 size' @ le64 offset"

definition locator_bytes :: "64 word \<Rightarrow> byte list" where
  "locator_bytes end' = le32 directory64LocSignature @ le32 0 @ le64 end' @ le32 1"

definition end_bytes :: "16 word \<Rightarrow> 32 word \<Rightarrow> 32 word \<Rightarrow> gostring \<Rightarrow> byte list" where
  "end_bytes records size' offset comment = le32 directoryEndSignature @ replicate 4 0 @ le16 records @ le16 records @
     le32 size' @ le32 offset @ le16 (of_nat (length comment))"

lemmas wb_simps = wb_make_def wb_defined wb_bytes_def

lemma uint32max_word: "(of_nat uint32max :: 32 word) = - 1" "unat (- 1 :: 32 word) = 4294967295"
  by (simp_all add: unsigned_minus_1_eq_mask mask_eq_exp_minus_1)

lemma local_header_bytes: "local_header h = Some (local_fixed h)"
  by (simp add: local_header_def wb_simps local_fixed_def)

lemma data_descriptor_bytes: "data_descriptor fh = Some (descriptor_bytes fh)"
  by (simp add: data_descriptor_def wb_simps descriptor_bytes_def)

lemma ext_time_eq: "ext_time t = Some (ext_time_bytes t)"
  by (simp add: ext_time_def wb_simps ext_time_bytes_def)

lemma zip64_extra_bytes: "zip64_extra h offset = Some (zip64_bytes h offset)"
  by (simp add: zip64_extra_def wb_simps zip64_bytes_def)

lemma dir_entry_bytes: "dir_entry h offset = Some (dir_fixed_bytes h offset, h\<lparr>fh_Extra := dir_extra h offset\<rparr>)"
proof -
  have "h\<lparr>fh_Extra := fh_Extra h\<rparr> = h" by simp
  then show ?thesis
    by (cases "entry64 h offset"; cases "uint32max < unat offset")
       (simp_all add: dir_entry_def wb_simps zip64_extra_bytes dir_fixed_bytes_def dir_extra_def uint32max_word)
qed

lemma end64_records_bytes:
  "end64_records records size' offset end' = Some (end64_bytes records size' offset @ locator_bytes end')"
  by (simp add: end64_records_def wb_simps end64_bytes_def locator_bytes_def)

lemma end_buf_bytes: "end_buf records size' offset comment = Some (end_bytes (ucast records) (ucast size') (ucast offset) comment)"
  by (simp add: end_buf_def wb_simps end_bytes_def)

lemma length_records [simp]:
  "length (local_fixed h) = 30" "length (dir_fixed_bytes h offset) = 46" "length (end_bytes r16 s32 o32 comment) = 22"
  "length (ext_time_bytes t) = 9" "length (zip64_bytes h offset) = 28" "length (end64_bytes r s o') = 56" "length (locator_bytes e) = 20"
  by (simp_all add: local_fixed_def dir_fixed_bytes_def end_bytes_def ext_time_bytes_def zip64_bytes_def end64_bytes_def locator_bytes_def)

lemma length_descriptor: "length (descriptor_bytes h) = (if isZip64 h then 24 else 16)"
  by (simp add: descriptor_bytes_def)
section \<open>Extra fields\<close>

text \<open>Fields with a tag that the reader does not know, and the extra data they make.\<close>

definition foreign :: "16 word \<Rightarrow> bool" where
  "foreign tag \<longleftrightarrow> tag \<noteq> zip64ExtraID \<and> tag \<noteq> ntfsExtraID \<and> tag \<noteq> unixExtraID \<and> tag \<noteq> infoZipUnixExtraID \<and> tag \<noteq> extTimeExtraID"

definition field_bytes :: "16 word \<times> byte list \<Rightarrow> byte list" where
  "field_bytes = (\<lambda>(tag, d). le16 tag @ le16 (of_nat (length d)) @ d)"

abbreviation fields_bytes :: "(16 word \<times> byte list) list \<Rightarrow> byte list" where
  "fields_bytes fs \<equiv> concat (map field_bytes fs)"

lemma unat_length16: "length d \<le> 65535 \<Longrightarrow> unat (of_nat (length d) :: 16 word) = length d"
  by (simp add: unat_of_nat take_bit_eq_mod)

lemma parse_extras_field:
  assumes "length d \<le> 65535"
  shows "parse_extras (le16 tag @ le16 (of_nat (length d)) @ d @ rest) x =
    do { r \<leftarrow> extra_field tag d x; case r of Inl e \<Rightarrow> Some (Inl e) | Inr x' \<Rightarrow> parse_extras rest x' }"
proof -
  define w where "w = (of_nat (length d) :: 16 word)"
  have n: "unat w = length d" using unat_length16 [OF assms] by (simp add: w_def)
  have r: "rb_uint16 (le_bytes 2 (length d) @ d @ rest) = Some (w, d @ rest)"
    using rb_uint16_store [of w "d @ rest"] by (simp add: n)
  have "\<not> length (le16 tag @ le_bytes 2 (length d) @ d @ rest) < 4" by simp
  then show ?thesis unfolding w_def [symmetric]
    by (subst parse_extras.simps) (simp add: rb_uint16_store r rb_sub_append n del: length_append, simp)
qed

lemma extra_field_foreign: "foreign tag \<Longrightarrow> extra_field tag d x = Some (Inr x)"
  by (simp add: extra_field_def foreign_def)

lemma parse_extras_foreign:
  "\<forall>(tag, d) \<in> set fs. foreign tag \<and> length d \<le> 65535 \<Longrightarrow> parse_extras (fields_bytes fs @ rest) x = parse_extras rest x"
  by (induction fs) (auto simp: field_bytes_def parse_extras_field extra_field_foreign)

lemma parse_extras_Nil [simp]: "parse_extras [] x = Some (Inr x)"
  by (subst parse_extras.simps) simp

lemma extra_field_time:
  "extra_field extTimeExtraID ([1] @ le32 v) x = Some (Inr (x\<lparr>x_modified := time_Unix (uint v) 0\<rparr>))"
proof -
  have "rb_uint32 (le32 v) = Some (v, [])" using rb_uint32_store [of v "[]"] by simp
  then show ?thesis
    by (simp add: extra_field_def extTimeExtraID_def zip64ExtraID_def ntfsExtraID_def unixExtraID_def infoZipUnixExtraID_def rb_uint8_store)
qed

lemma parse_extras_time:
  "parse_extras (ext_time_bytes t @ rest) x =
     parse_extras rest (x\<lparr>x_modified := time_Unix (uint (word_of_int (Unix_of (lt_time t)) :: 32 word)) 0\<rparr>)"
proof -
  have "length ([1 :: byte] @ le32 v) = 5" for v by simp
  then show ?thesis
    using parse_extras_field [of "[1] @ le32 (word_of_int (Unix_of (lt_time t)))" extTimeExtraID rest x]
      extra_field_time [of "word_of_int (Unix_of (lt_time t))" x]
    by (simp add: ext_time_bytes_def)
qed

lemma need64_store: "need64 need (le64 v @ rest) = Some (Inr (if need then (Some v, rest) else (None, le64 v @ rest)))"
  by (simp add: need64_def rb_uint64_store)

lemma extra_field_zip64:
  assumes "x_needUSize x" "x_needCSize x"
  shows "extra_field zip64ExtraID (le64 u @ le64 c @ le64 off) x =
    Some (Inr (x\<lparr>x_needUSize := False, x_needCSize := False, x_needHeaderOffset := False,
      x_file := (upd_header (\<lambda>h. h\<lparr>fh_UncompressedSize64 := u, fh_CompressedSize64 := c\<rparr>) (x_file x))
        \<lparr>f_headerOffset := if x_needHeaderOffset x then sint off else f_headerOffset (x_file x)\<rparr>\<rparr>))"
  using assms need64_store [of _ off "[]"]
  by (cases "x_needHeaderOffset x") (simp_all add: extra_field_def zip64_field_def need64_store Let_def)

lemma parse_extras_zip64:
  assumes "x_needUSize x" "x_needCSize x"
  shows "parse_extras (zip64_bytes h off) x =
    Some (Inr (x\<lparr>x_needUSize := False, x_needCSize := False, x_needHeaderOffset := False,
      x_file := (upd_header (\<lambda>h'. h'\<lparr>fh_UncompressedSize64 := fh_UncompressedSize64 h, fh_CompressedSize64 := fh_CompressedSize64 h\<rparr>) (x_file x))
        \<lparr>f_headerOffset := if x_needHeaderOffset x then sint off else f_headerOffset (x_file x)\<rparr>\<rparr>))"
proof -
  let ?d = "le64 (fh_UncompressedSize64 h) @ le64 (fh_CompressedSize64 h) @ le64 off"
  have "zip64_bytes h off = le16 zip64ExtraID @ le16 (of_nat (length ?d)) @ ?d @ []" by (simp add: zip64_bytes_def)
  then show ?thesis
    using parse_extras_field [of ?d zip64ExtraID "[]" x] extra_field_zip64 [OF assms, of "fh_UncompressedSize64 h" "fh_CompressedSize64 h" off]
    by simp
qed

section \<open>Directory entries\<close>

lemma rb_last: "rb_uint16 (le16 v) = Some (v, [])" "rb_uint32 (le32 x) = Some (x, [])" "rb_uint64 (le64 y) = Some (y, [])"
  using rb_uint16_store [of v "[]"] rb_uint32_store [of x "[]"] rb_uint64_store [of y "[]"] by simp_all

text \<open>What a header and its offset must be for a directory entry to hold them.\<close>

definition entry_wf :: "FileHeader \<Rightarrow> 64 word \<Rightarrow> bool" where
  "entry_wf h off \<longleftrightarrow> length (fh_Name h) \<le> 65535 \<and> length (fh_Comment h) \<le> 65535 \<and> length (dir_extra h off) \<le> 65535 \<and>
     unat off < 2 ^ 63 \<and>
     (\<not> isZip64 h \<longrightarrow> fh_CompressedSize64 h = ucast (fh_CompressedSize h) \<and> fh_UncompressedSize64 h = ucast (fh_UncompressedSize h))"

definition nonUTF8_of :: "FileHeader \<Rightarrow> bool" where
  "nonUTF8_of h =
     (let (valid1, require1) = detectUTF8 (fh_Name h); (valid2, require2) = detectUTF8 (fh_Comment h)
      in if \<not> valid1 \<or> \<not> valid2 then True
         else if \<not> require1 \<and> \<not> require2 then False
         else fh_Flags h AND 0x800 = 0)"

text \<open>The file that is made of a directory entry with the sizes \<open>c\<close> and \<open>u\<close> in its 32-bit fields.\<close>

definition entry_file :: "int \<Rightarrow> FileHeader \<Rightarrow> 32 word \<Rightarrow> 32 word \<Rightarrow> 32 word \<Rightarrow> byte list \<Rightarrow> File" where
  "entry_file sz h c u off x =
     \<lparr>f_header = h\<lparr>fh_CompressedSize := c, fh_UncompressedSize := u, fh_CompressedSize64 := ucast c,
        fh_UncompressedSize64 := ucast u, fh_Extra := x, fh_NonUTF8 := nonUTF8_of h, fh_Modified := zero_loctime\<rparr>,
      f_zipsize = sz, f_headerOffset = uint off\<rparr>"

abbreviation dir_csize :: "FileHeader \<Rightarrow> 64 word \<Rightarrow> 32 word" where
  "dir_csize h off \<equiv> if entry64 h off then - 1 else fh_CompressedSize h"

abbreviation dir_usize :: "FileHeader \<Rightarrow> 64 word \<Rightarrow> 32 word" where
  "dir_usize h off \<equiv> if entry64 h off then - 1 else fh_UncompressedSize h"

abbreviation dir_offset :: "64 word \<Rightarrow> 32 word" where
  "dir_offset off \<equiv> if uint32max < unat off then - 1 else ucast off"

abbreviation empty_file :: "int \<Rightarrow> File" where
  "empty_file sz \<equiv> \<lparr>f_header = new_FileHeader, f_zipsize = sz, f_headerOffset = 0\<rparr>"

lemma dir_fixed_read:
  assumes "entry_wf h off"
  shows "\<exists>f1. dir_fixed (dir_fixed_bytes h off) (empty_file sz) =
      Some (Inr (f1, length (fh_Name h), length (dir_extra h off), length (fh_Comment h))) \<and>
    dir_texts (fh_Name h @ dir_extra h off @ fh_Comment h) (length (fh_Name h)) (length (dir_extra h off)) f1 =
      entry_file sz h (dir_csize h off) (dir_usize h off) (dir_offset off) (dir_extra h off)"
proof -
  define c u o' where "c = dir_csize h off" and "u = dir_usize h off" and "o' = dir_offset off"
  define n x k where "n = (of_nat (length (fh_Name h)) :: 16 word)" and "x = (of_nat (length (dir_extra h off)) :: 16 word)"
    and "k = (of_nat (length (fh_Comment h)) :: 16 word)"
  have len: "unat n = length (fh_Name h)" "unat x = length (dir_extra h off)" "unat k = length (fh_Comment h)"
    using assms by (simp_all add: entry_wf_def n_def x_def k_def unat_length16)
  let ?f = "(empty_file sz)\<lparr>f_header := new_FileHeader\<lparr>fh_CreatorVersion := fh_CreatorVersion h, fh_ReaderVersion := fh_ReaderVersion h, fh_Flags := fh_Flags h,
              fh_Method := fh_Method h, fh_ModifiedTime := fh_ModifiedTime h, fh_ModifiedDate := fh_ModifiedDate h, fh_CRC32 := fh_CRC32 h,
              fh_CompressedSize := c, fh_UncompressedSize := u, fh_CompressedSize64 := ucast c,
              fh_UncompressedSize64 := ucast u, fh_ExternalAttrs := fh_ExternalAttrs h\<rparr>,
            f_headerOffset := uint o'\<rparr>"
  have "dir_fixed (dir_fixed_bytes h off) (empty_file sz) = Some (Inr (?f, unat n, unat x, unat k))"
    unfolding dir_fixed_bytes_def c_def [symmetric] u_def [symmetric] o'_def [symmetric] n_def [symmetric] x_def [symmetric] k_def [symmetric]
    by (simp add: dir_fixed_def buf_simps rb_last)
  moreover have "dir_texts (fh_Name h @ dir_extra h off @ fh_Comment h) (length (fh_Name h)) (length (dir_extra h off)) ?f =
      entry_file sz h c u o' (dir_extra h off)"
  proof -
    obtain v1 r1 v2 r2 where "detectUTF8 (fh_Name h) = (v1, r1)" "detectUTF8 (fh_Comment h) = (v2, r2)" by fastforce
    then show ?thesis by (cases h) (simp add: dir_texts_def entry_file_def nonUTF8_of_def new_FileHeader_def)
  qed
  ultimately show ?thesis by (simp add: len c_def u_def o'_def)
qed
text \<open>The time stamp that \<^verbatim>\<open>CreateHeader\<close> appends to the extra fields, if any.\<close>

definition stamp_bytes :: "loctime option \<Rightarrow> byte list" where
  "stamp_bytes st = (case st of None \<Rightarrow> [] | Some t \<Rightarrow> ext_time_bytes t)"

definition stamp_time :: "loctime option \<Rightarrow> gotime" where
  "stamp_time st = (case st of None \<Rightarrow> zero_time | Some t \<Rightarrow> time_Unix (uint (word_of_int (Unix_of (lt_time t)) :: 32 word)) 0)"

definition stamped :: "(16 word \<times> byte list) list \<Rightarrow> loctime option \<Rightarrow> FileHeader \<Rightarrow> bool" where
  "stamped fs st h \<longleftrightarrow> fh_Extra h = fields_bytes fs @ stamp_bytes st \<and> (\<forall>(tag, d) \<in> set fs. foreign tag \<and> length d \<le> 65535)"

text \<open>The file that a reader makes of the directory entry of a header.\<close>

definition read_file :: "int \<Rightarrow> loctime option \<Rightarrow> FileHeader \<Rightarrow> 64 word \<Rightarrow> File" where
  "read_file sz st h off =
     \<lparr>f_header = h\<lparr>fh_CompressedSize := dir_csize h off, fh_UncompressedSize := dir_usize h off, fh_Extra := dir_extra h off,
        fh_NonUTF8 := nonUTF8_of h, fh_Modified := dir_modified h (stamp_time st)\<rparr>,
      f_zipsize = sz, f_headerOffset = sint off\<rparr>"

lemma sint64_small: "unat (off :: 64 word) < 2 ^ 63 \<Longrightarrow> sint off = int (unat off)"
proof -
  assume a: "unat off < 2 ^ 63"
  have "sint off = i64 (int (unat off))" using sint64_i64 [of "int (unat off)"] by simp
  moreover have "in_i64 (int n)" if "n < 2 ^ 63" for n using that by (simp add: in_i64_def)
  ultimately show ?thesis using a i64_id by metis
qed

lemma unat_low:
  assumes "unat (off :: 64 word) < 2 ^ 32"
  shows "unat (ucast off :: 32 word) = unat off"
proof -
  have "unat (ucast off :: 32 word) = take_bit LENGTH(32) (unat off)" by (rule unsigned_ucast_eq)
  also have "\<dots> = unat off mod 2 ^ 32" by (simp add: take_bit_eq_mod)
  also have "\<dots> = unat off" using assms by (rule mod_less)
  finally show ?thesis .
qed

lemma dir_offset_value:
  assumes "unat off < 2 ^ 63"
  shows "uint (dir_offset off) = 0xffffffff \<longleftrightarrow> uint32max \<le> unat off"
    and "\<not> uint32max \<le> unat off \<Longrightarrow> uint (dir_offset off) = sint off"
proof -
  consider "uint32max < unat off" | "unat off \<le> uint32max" by linarith
  then show "uint (dir_offset off) = 0xffffffff \<longleftrightarrow> uint32max \<le> unat off"
  proof cases
    case 1
    then show ?thesis unfolding uint_nat if_P [OF 1] uint32max_word(2) by simp
  next
    case 2
    then have "\<not> uint32max < unat off" "unat (ucast off :: 32 word) = unat off" using unat_low [of off] by simp_all
    then have u: "unat (dir_offset off) = unat off" by (simp only: if_False)
    show ?thesis unfolding uint_nat u using 2 unfolding uint32max_def by linarith
  qed
  assume "\<not> uint32max \<le> unat off"
  then have "\<not> uint32max < unat off" "unat (ucast off :: 32 word) = unat off" using unat_low [of off] by simp_all
  then show "uint (dir_offset off) = sint off" using sint64_small [OF assms] by (simp only: if_False uint_nat)
qed

lemma parse_stamped:
  assumes "stamped fs st h" "x_modified x = zero_time"
  shows "parse_extras (fh_Extra h @ rest) x = parse_extras rest (x\<lparr>x_modified := stamp_time st\<rparr>)"
proof -
  have "x\<lparr>x_modified := zero_time\<rparr> = x" using assms(2) by simp
  moreover have "parse_extras (fh_Extra h @ rest) x = parse_extras (stamp_bytes st @ rest) x"
    using assms(1) parse_extras_foreign [of fs "stamp_bytes st @ rest" x] by (simp add: stamped_def)
  ultimately show ?thesis
    by (cases st) (simp_all add: stamp_bytes_def stamp_time_def parse_extras_time)
qed

lemma dir_modified_cong:
  "fh_ModifiedDate h = fh_ModifiedDate h' \<Longrightarrow> fh_ModifiedTime h = fh_ModifiedTime h' \<Longrightarrow> dir_modified h m = dir_modified h' m"
  by (simp add: dir_modified_def Let_def)

lemma dir_finish_read:
  assumes wf: "entry_wf h off" and st: "stamped fs st h"
  shows "dir_finish (entry_file sz h (dir_csize h off) (dir_usize h off) (dir_offset off) (dir_extra h off)) =
    Some (Inr (read_file sz st h off))"
proof -
  define f where "f = entry_file sz h (dir_csize h off) (dir_usize h off) (dir_offset off) (dir_extra h off)"
  define x where "x = (start_extras f)\<lparr>x_modified := stamp_time st\<rparr>"
  have parse: "parse_extras (dir_extra h off) (start_extras f) = parse_extras (if entry64 h off then zip64_bytes h off else []) x"
    unfolding dir_extra_def x_def by (rule parse_stamped [OF st]) (simp add: start_extras_def)
  have fx: "fh_Extra (f_header f) = dir_extra h off" "x_file x = f" "x_modified x = stamp_time st"
    by (simp_all add: f_def entry_file_def x_def start_extras_def)
  have off: "unat off < 2 ^ 63" using wf by (simp add: entry_wf_def)
  note o' = dir_offset_value [OF off]
  have need: "x_needHeaderOffset x \<longleftrightarrow> uint32max \<le> unat off"
    unfolding o'(1) [symmetric] by (simp add: x_def start_extras_def f_def entry_file_def)
  show ?thesis
  proof (cases "entry64 h off")
    case True
    have "x_needUSize x" "x_needCSize x" using True by (simp_all add: x_def start_extras_def f_def entry_file_def)
    note p = parse_extras_zip64 [OF this, of h off]
    have hoff: "(if x_needHeaderOffset x then sint off else f_headerOffset f) = sint off"
      using need o'(2) by (simp add: f_def entry_file_def del: uint32max_def)
    define f' where "f' = (upd_header (\<lambda>h'. h'\<lparr>fh_UncompressedSize64 := fh_UncompressedSize64 h, fh_CompressedSize64 := fh_CompressedSize64 h\<rparr>) f)
        \<lparr>f_headerOffset := sint off\<rparr>"
    have "dir_finish f = Some (Inr (upd_header (\<lambda>h'. h'\<lparr>fh_Modified := dir_modified h' (stamp_time st)\<rparr>) f'))"
      unfolding dir_finish_def fx(1) parse if_P [OF True] p f'_def fx(2) hoff by (simp add: fx)
    also have "\<dots> = Some (Inr (read_file sz st h off))"
    proof -
      have "dir_modified (f_header f') m = dir_modified h m" for m
        by (rule dir_modified_cong) (simp_all add: f'_def f_def entry_file_def)
      then show ?thesis using True by (simp add: f'_def f_def entry_file_def read_file_def)
    qed
    finally show ?thesis by (simp only: f_def)
  next
    case False
    then have z: "\<not> isZip64 h" "\<not> uint32max \<le> unat off" by simp_all
    then have sizes: "fh_CompressedSize64 h = ucast (fh_CompressedSize h)" "fh_UncompressedSize64 h = ucast (fh_UncompressedSize h)"
      using wf by (simp_all add: entry_wf_def)
    have "fh_CompressedSize h \<noteq> - 1"
    proof
      assume "fh_CompressedSize h = - 1"
      then have "unat (fh_CompressedSize64 h) = 4294967295" using sizes(1) by (simp add: unsigned_ucast_eq uint32max_word)
      then show False using z(1) by (simp add: isZip64_def)
    qed
    then have nc: "\<not> x_needCSize x" using False by (simp add: x_def start_extras_def f_def entry_file_def)
    have "dir_finish f = Some (Inr (upd_header (\<lambda>h'. h'\<lparr>fh_Modified := dir_modified h' (stamp_time st)\<rparr>) f))"
      unfolding dir_finish_def fx(1) parse if_not_P [OF False] parse_extras_Nil
      using nc need z(2) by (simp add: fx del: uint32max_def)
    also have "\<dots> = Some (Inr (read_file sz st h off))"
    proof -
      have "dir_modified (f_header f) m = dir_modified h m" for m
        by (rule dir_modified_cong) (simp_all add: f_def entry_file_def)
      moreover have "f_headerOffset f = sint off" using o'(2) [OF z(2)] by (simp add: f_def entry_file_def)
      moreover have "(f_header f)\<lparr>fh_Modified := t\<rparr> = h\<lparr>fh_Extra := dir_extra h off, fh_NonUTF8 := nonUTF8_of h, fh_Modified := t\<rparr>" for t
        using False sizes by (cases h) (simp add: f_def entry_file_def)
      ultimately show ?thesis using False by (cases f) (simp add: read_file_def f_def entry_file_def)
    qed
    finally show ?thesis by (simp only: f_def)
  qed
qed

end
