(* ===== verification/Zip_Directory.thy ===== *)
theory Zip_Directory
  imports Zip_Layout
begin

text \<open>
  The directory of an archive and its end, as \<^verbatim>\<open>Writer.Close\<close> lays them out, read back by
  \<^verbatim>\<open>NewReader\<close>: with bytes in front of the archive when it needs no zip64 records, and with
  zip64 records when nothing is in front.
\<close>

context io_reader
begin

lemma readDirectoryHeader_entry:
  assumes "ok s" "fins s \<subseteq> {EOF}" "left s = dir_bytes h off @ rest" and wf: "entry_wf h off" "stamped fs st h"
  obtains s' where "readDirectoryHeader ops (empty_file sz) s = (Inr (read_file sz st h off), s')"
    and "ok s'" "fins s' \<subseteq> {EOF}" "left s' = rest"
proof -
  let ?t = "fh_Name h @ dir_extra h off @ fh_Comment h" and ?n = "length (fh_Name h) + length (dir_extra h off) + length (fh_Comment h)"
  have left: "left s = dir_fixed_bytes h off @ ?t @ rest" using assms(3) by (simp add: dir_bytes_def)
  obtain s1 where s1: "ReadFull ops s 46 = (dir_fixed_bytes h off, None, s1)" "ok s1" "fins s1 \<subseteq> {EOF}" "left s1 = ?t @ rest"
    by (rule ReadFull_exact [OF assms(1,2), of 46]) (simp add: left)
  obtain s2 where s2: "ReadFull ops s1 ?n = (?t, None, s2)" "ok s2" "fins s2 \<subseteq> {EOF}" "left s2 = rest"
    by (rule ReadFull_exact [OF s1(2,3), of ?n]) (simp add: s1(4))
  obtain f1 where f1: "dir_fixed (dir_fixed_bytes h off) (empty_file sz) =
      Some (Inr (f1, length (fh_Name h), length (dir_extra h off), length (fh_Comment h)))"
      "dir_texts ?t (length (fh_Name h)) (length (dir_extra h off)) f1 =
        entry_file sz h (dir_csize h off) (dir_usize h off) (dir_offset off) (dir_extra h off)"
    using dir_fixed_read [OF wf(1)] by blast
  have "readDirectoryHeader ops (empty_file sz) s = (Inr (read_file sz st h off), s2)"
    unfolding readDirectoryHeader_def directoryHeaderLen_def s1(1) prod.case option.case f1(1) or_panic_Some sum.case s2(1) f1(2)
      dir_finish_read [OF wf] ..
  then show thesis using that s2 by blast
qed

end

section \<open>The end of the directory\<close>

lemma sig_at_append: "sig_at (xs @ ys) (length xs + i) \<longleftrightarrow> sig_at ys i"
proof -
  have nth: "(xs @ ys) ! (length xs + i + k) = ys ! (i + k)" for k
    using nth_append_length_plus [of xs ys "i + k"] by (simp add: add.assoc)
  have n0: "(xs @ ys) ! (length xs + i) = ys ! i" by simp
  have "length xs + i + directoryEndLen - 2 = length xs + i + 20" "length xs + i + directoryEndLen - 1 = length xs + i + 21"
    "i + directoryEndLen - 2 = i + 20" "i + directoryEndLen - 1 = i + 21" by simp_all
  then show ?thesis unfolding sig_at_def by (simp only: nth n0) auto
qed

text \<open>A comment does not look like an end record of its own.\<close>

definition no_later_end :: "byte list \<Rightarrow> gostring \<Rightarrow> bool" where
  "no_later_end e comment \<longleftrightarrow> (\<forall>i \<in> {1..length comment}. \<not> sig_at (e @ comment) i)"

lemma le_bytes_2: "le_bytes 2 x = [of_nat x, of_nat (x div 256)]"
proof -
  have "2 = Suc (Suc 0)" by simp
  then show ?thesis by (simp only: le_bytes.simps)
qed

lemma le_bytes_4: "le_bytes 4 x = [of_nat x, of_nat (x div 256), of_nat (x div 256 div 256), of_nat (x div 256 div 256 div 256)]"
proof -
  have "4 = Suc (Suc (Suc (Suc 0)))" by simp
  then show ?thesis by (simp only: le_bytes.simps)
qed

lemma replicate_4: "replicate 4 x = [x, x, x, x]"
proof -
  have "4 = Suc (Suc (Suc (Suc 0)))" by simp
  then show ?thesis by (simp only: replicate.simps)
qed

lemma end_bytes_explicit:
  "end_bytes r s o' comment = [0x50, 0x4b, 5, 6] @ (replicate 4 0 @ le16 r @ le16 r @ le32 s @ le32 o') @ le16 (of_nat (length comment))"
proof -
  have "le32 directoryEndSignature = [0x50, 0x4b, 5, 6]" by (simp add: directoryEndSignature_def le_bytes_4)
  then show ?thesis by (simp add: end_bytes_def)
qed

lemma sig_at_end:
  assumes "length comment \<le> 65535"
  shows "sig_at (end_bytes r s o' comment @ comment) 0"
proof -
  define mid where "mid = replicate 4 0 @ le16 r @ le16 r @ le32 s @ le32 o'"
  have len: "length mid = 16" by (simp add: mid_def)
  obtain b0 b1 where b: "le16 (of_nat (length comment)) = [b0, b1]" by (simp add: le_bytes_2)
  have "unat b0 + 256 * unat b1 = le_val (le16 (of_nat (length comment)))" unfolding b by simp
  also have "\<dots> = length comment" using assms by (simp add: unat_length16 le_val_bytes)
  finally have "unat b0 + 256 * unat b1 = length comment" .
  moreover have "([0x50, 0x4b, 5, 6] @ mid @ [b0, b1] @ comment) ! 20 = b0" "([0x50, 0x4b, 5, 6] @ mid @ [b0, b1] @ comment) ! 21 = b1"
    using len by (simp_all add: nth_append)
  ultimately show ?thesis unfolding end_bytes_explicit mid_def [symmetric] b sig_at_def using len by simp
qed

lemma findSignature_end:
  assumes "length comment \<le> 65535" "no_later_end (end_bytes r s o' comment) comment"
  shows "findSignatureInBlock (xs @ end_bytes r s o' comment @ comment) = Some (length xs)"
proof -
  let ?e = "end_bytes r s o' comment @ comment"
  have "sig_at (xs @ ?e) (length xs)" using sig_at_append [of xs ?e 0] sig_at_end [OF assms(1)] by simp
  moreover have "\<not> sig_at (xs @ ?e) j" if "length xs < j" "j \<le> length xs + length comment" for j
  proof -
    have "j - length xs \<in> {1..length comment}" using that by auto
    then show ?thesis using assms(2) sig_at_append [of xs ?e "j - length xs"] that by (simp add: no_later_end_def)
  qed
  moreover have "Suc (length (xs @ ?e)) - directoryEndLen = Suc (length xs + length comment)" by simp
  ultimately show ?thesis unfolding findSignatureInBlock_def find_sig_spec by (auto simp: less_Suc_eq_le)
qed

definition end_value :: "16 word \<Rightarrow> 32 word \<Rightarrow> 32 word \<Rightarrow> gostring \<Rightarrow> directoryEnd" where
  "end_value r s o' comment = \<lparr>de_diskNbr = 0, de_dirDiskNbr = 0, de_dirRecordsThisDisk = ucast r, de_directoryRecords = ucast r,
     de_directorySize = ucast s, de_directoryOffset = ucast o', de_commentLen = of_nat (length comment), de_comment = comment,
     de_startSkipLen = 0\<rparr>"

lemma end_record_read:
  assumes "length comment \<le> 65535"
  shows "end_record (end_bytes r s o' comment @ comment) = Some (Inr (end_value r s o' comment))"
proof -
  have r4: "rb_skip 4 (le32 v @ xs) = Some xs" for v xs by (simp add: rb_skip_append)
  have z: "replicate 4 0 = le16 0 @ le16 0" by (simp add: le_bytes_2 replicate_4)
  define n where "n = (of_nat (length comment) :: 16 word)"
  have n: "unat n = length comment" using assms by (simp add: n_def unat_length16)
  show ?thesis
    unfolding end_bytes_def end_value_def n_def [symmetric] z
    using rb_uint16_store [of n comment] rb_uint16_store [of 0]
    by (simp add: end_record_def r4 buf_simps n)
qed

lemma rb_uint32_take: "4 \<le> length b \<Longrightarrow> rb_uint32 b = Some (v, b') \<Longrightarrow> take 4 b = le32 v"
proof -
  assume b: "4 \<le> length b" and rb: "rb_uint32 b = Some (v, b')"
  have len: "length (take 4 b) = 4" using b by simp
  have v: "v = of_nat (le_val (take 4 b))" using rb b by (simp add: rb_uint32_def)
  have "le_val (take 4 b) < 2 ^ 32" using le_val_bound [of "take 4 b"] len by simp
  then have "unat v = le_val (take 4 b)" unfolding v by (simp add: unat_of_nat take_bit_eq_mod)
  then show ?thesis using le_bytes_val [of "take 4 b"] len by simp
qed

context archive_at
begin

lemma read_at: "off + n < length a \<Longrightarrow> ra (int off) n = (take n (drop off a), None)"
  using at_bytes [of "int off" n] at_full [of "int off" n] by (cases "ra (int off) n") simp

lemma readDirectoryEnd_at:
  assumes a: "a = front @ end_bytes r s o' comment @ comment"
    and c: "length comment \<le> 65535" "no_later_end (end_bytes r s o' comment) comment"
    and z: "zip64_end ra (int (length front)) (end_value r s o' comment) = Inr (d, z)"
  shows "readDirectoryEnd ra (int (length a)) =
    (let d = fix_offset (int (length a)) (case z of None \<Rightarrow> int (length front) | Some p \<Rightarrow> p) d; o' = sint (de_directoryOffset d)
     in if o' < 0 \<or> int (length a) \<le> o' then Inl ErrFormat else Inr d)"
proof -
  let ?e = "end_bytes r s o' comment @ comment"
  define n where "n = min (length a) (65 * 1024)"
  define k where "k = length a - n"
  have n: "(if int (length a) < 65 * 1024 then int (length a) else 65 * 1024) = int n" by (simp add: n_def)
  have k: "int (length a) - int n = int k" "k + n = length a" "k \<le> length front"
    using c(1) by (auto simp: k_def n_def a)
  obtain bs err where ra: "ra (int k) n = (bs, err)" by fastforce
  have bs: "bs = drop k a" and err: "err = None \<or> err = Some EOF"
    using at_bytes [of "int k" n] at_err [of "int k" n] ra k(2) by simp_all
  have "length bs = n" using bs k(2) by simp
  then have buf: "fill_buf n bs = drop k front @ ?e" using fill_buf_id [of bs n] bs k(3) by (simp add: a)
  have sig: "findSignatureInBlock (drop k front @ ?e) = Some (length front - k)"
    using findSignature_end [OF c, of "drop k front"] by simp
  have "drop (length front - k) (drop k front @ ?e) = ?e" by simp
  then have er: "or_panic (end_record (drop (length front - k) (drop k front @ ?e))) = Inr (end_value r s o' comment)"
    using end_record_read [OF c(1)] by simp
  have pos: "int k + int (length front - k) = int (length front)" using k(3) by simp
  show ?thesis
    unfolding readDirectoryEnd_def n k(1) Let_def nat_int ra prod.case buf sig option.case er sum.case pos z
    using err by auto
qed

lemma zip64_end_plain:
  assumes front: "a = front @ rest" "rest \<noteq> []"
    and no: "20 \<le> length front \<longrightarrow> take 4 (drop (length front - 20) front) \<noteq> le32 directory64LocSignature"
  shows "zip64_end ra (int (length front)) d = Inr (d, None)"
proof (cases "20 \<le> length front")
  case False
  then show ?thesis by (simp add: zip64_end_def findDirectory64End_def)
next
  case True
  define b where "b = drop (length front - 20) front"
  have rd: "ra (int (length front) - 20) 20 = (b, None)" "length b = 20"
    using read_at [of "length front - 20" 20] front True by (simp_all add: b_def of_nat_diff)
  obtain sig b' where sig: "rb_uint32 b = Some (sig, b')" using rd(2) by (simp add: rb_uint32_def)
  have "sig \<noteq> directory64LocSignature" using rb_uint32_take [OF _ sig] no True rd(2) by (auto simp: b_def)
  then show ?thesis using True rd fill_buf_id [OF rd(2)] by (simp add: zip64_end_def findDirectory64End_def sig)
qed

lemma zip64_end_locator:
  assumes front: "a = f0 @ end64_bytes R S P @ locator_bytes (of_nat (length f0)) @ rest" "rest \<noteq> []" "length a < 2 ^ 63"
  shows "zip64_end ra (int (length f0) + 76) d =
    Inr (d\<lparr>de_diskNbr := 0, de_dirDiskNbr := 0, de_dirRecordsThisDisk := R, de_directoryRecords := R,
           de_directorySize := S, de_directoryOffset := P\<rparr>, Some (int (length f0)))"
proof -
  define p where "p = (of_nat (length f0) :: 64 word)"
  have p: "sint p = int (length f0)"
    using front(1,3) by (intro trans [OF sint64_small]) (simp_all add: p_def unat_of_nat take_bit_eq_mod)
  have "ra (int (length f0 + 56)) 20 = (locator_bytes p, None)" using read_at [of "length f0 + 56" 20] front(1,2) by (simp add: p_def)
  then have loc: "findDirectory64End ra (int (length f0) + 76) = Inr (int (length f0))"
    using fill_buf_id [of "locator_bytes p" 20] rb_uint32_store [of 0] rb_last(2) [of 1]
    by (simp add: findDirectory64End_def ac_simps) (simp add: locator_bytes_def buf_simps p)
  have rd: "ra (int (length f0)) 56 = (end64_bytes R S P, None)" using read_at [of "length f0" 56] front(1,2) by simp
  have s12: "rb_skip 12 (le64 x @ le16 y @ le16 z @ xs) = Some xs" for x y z xs
    using rb_skip_append [of "le64 x @ le16 y @ le16 z" 12 xs] by simp
  have "readDirectory64End ra (int (length f0)) d = Inr (d\<lparr>de_diskNbr := 0, de_dirDiskNbr := 0, de_dirRecordsThisDisk := R,
      de_directoryRecords := R, de_directorySize := S, de_directoryOffset := P\<rparr>)"
    using fill_buf_id [of "end64_bytes R S P" 56] rb_uint32_store [of 0] rb_last(3) [of P] s12 [of 44]
    by (simp add: readDirectory64End_def rd) (simp add: end64_bytes_def buf_simps)
  then show ?thesis by (simp add: zip64_end_def loc)
qed

end

section \<open>The layout of an archive\<close>

text \<open>
  The end of an archive with a directory of \<open>n\<close> entries and \<open>s\<close> bytes at offset \<open>o'\<close>: the zip64
  records when one of the numbers is too large, and the end record.
\<close>

definition needs64 :: "nat \<Rightarrow> nat \<Rightarrow> nat \<Rightarrow> bool" where
  "needs64 n s o' \<longleftrightarrow> uint16max \<le> n \<or> uint32max \<le> s \<or> uint32max \<le> o'"

definition end64_part :: "nat \<Rightarrow> nat \<Rightarrow> nat \<Rightarrow> byte list" where
  "end64_part n s o' =
     (if needs64 n s o' then end64_bytes (of_nat n) (of_nat s) (of_nat o') @ locator_bytes (of_nat (o' + s)) else [])"

definition end_part :: "nat \<Rightarrow> nat \<Rightarrow> nat \<Rightarrow> gostring \<Rightarrow> byte list" where
  "end_part n s o' comment =
     (if needs64 n s o' then end_bytes (- 1) (- 1) (- 1) comment else end_bytes (of_nat n) (of_nat s) (of_nat o') comment)"

text \<open>
  The two ways in which an archive may be taken for another one: a comment that holds an end record
  of its own, and a directory whose last bytes look like the locator of a zip64 record.
\<close>

definition unambiguous :: "byte list \<Rightarrow> nat \<Rightarrow> nat \<Rightarrow> nat \<Rightarrow> gostring \<Rightarrow> bool" where
  "unambiguous front n s o' comment \<longleftrightarrow> no_later_end (end_part n s o' comment) comment \<and>
     (needs64 n s o' \<or> length front < 20 \<or> take 4 (drop (length front - 20) front) \<noteq> le32 directory64LocSignature)"

lemma ucast_of_nat32: "s < 2 ^ 32 \<Longrightarrow> ucast (of_nat s :: 32 word) = (of_nat s :: 64 word)"
proof -
  assume "s < 2 ^ 32"
  then have "unat (of_nat s :: 32 word) = s" by (simp add: unat_of_nat take_bit_eq_mod)
  then show ?thesis by (metis of_nat_unat)
qed

lemma ucast_of_nat16: "s < 2 ^ 16 \<Longrightarrow> ucast (of_nat s :: 16 word) = (of_nat s :: 64 word)"
proof -
  assume "s < 2 ^ 16"
  then have "unat (of_nat s :: 16 word) = s" by (simp add: unat_of_nat take_bit_eq_mod)
  then show ?thesis by (metis of_nat_unat)
qed

lemma sint_of_nat64: "n < 2 ^ 63 \<Longrightarrow> sint (of_nat n :: 64 word) = int n"
proof -
  assume n: "n < 2 ^ 63"
  then have "unat (of_nat n :: 64 word) = n" by (simp add: unat_of_nat take_bit_eq_mod)
  then show ?thesis using sint64_small [of "of_nat n"] n by simp
qed

lemma fix_offset_prefix:
  assumes "de_directorySize d = of_nat s" "de_directoryOffset d = of_nat o'" "de_startSkipLen d = 0"
    and "k + o' < sz" "k + o' + s \<le> sz" "sz < 2 ^ 63"
  shows "fix_offset (int sz) (int (k + o' + s)) d =
    d\<lparr>de_directoryOffset := of_nat (k + o'), de_startSkipLen := of_nat k\<rparr>"
proof -
  have "sint (de_directorySize d) = int s" "sint (de_directoryOffset d) = int o'"
    using assms by (simp_all add: sint_of_nat64)
  moreover have "in_i64 (int (k + o'))" using assms(4,6) by (simp add: in_i64_def)
  ultimately have c: "i64 (int (k + o' + s) - sint (de_directorySize d)) = int (k + o')" "sint (de_directoryOffset d) = int o'" by simp_all
  show ?thesis
  proof (cases "k = 0")
    case True
    then show ?thesis using assms(2,3) unfolding fix_offset_def Let_def c by simp
  next
    case False
    have "word_of_int (int (k + o')) - (of_nat o' :: 64 word) = of_nat k" by simp
    then show ?thesis using False assms(2,4) unfolding fix_offset_def Let_def c by simp
  qed
qed

context archive_at
begin

lemma readDirectoryEnd_layout:
  assumes a: "a = pre @ body @ dir @ end64_part n (length dir) (length body) @ end_part n (length dir) (length body) comment @ comment"
    and big: "needs64 n (length dir) (length body) \<longrightarrow> pre = []" and len: "length a < 2 ^ 63" and c: "length comment \<le> 65535"
    and un: "unambiguous (pre @ body @ dir) n (length dir) (length body) comment"
  shows "\<exists>d. readDirectoryEnd ra (int (length a)) = Inr d \<and> de_directoryRecords d = of_nat n \<and>
    de_directoryOffset d = of_nat (length pre + length body) \<and> de_comment d = comment \<and> de_startSkipLen d = of_nat (length pre)"
proof -
  let ?s = "length dir" and ?o = "length body" and ?k = "length pre"
  note nl = un [unfolded unambiguous_def, THEN conjunct1]
  have fin: "\<exists>d'. (let d' = fix_offset (int (length a)) (int (?k + ?o + ?s)) d; o' = sint (de_directoryOffset d')
       in if o' < 0 \<or> int (length a) \<le> o' then Inl ErrFormat else Inr d') = Inr d' \<and> de_directoryRecords d' = of_nat n \<and>
      de_directoryOffset d' = of_nat (?k + ?o) \<and> de_comment d' = comment \<and> de_startSkipLen d' = of_nat ?k"
    if "de_directorySize d = of_nat ?s" "de_directoryOffset d = of_nat ?o" "de_startSkipLen d = 0"
      "de_directoryRecords d = of_nat n" "de_comment d = comment" for d
  proof -
    have "22 \<le> length (end_part n ?s ?o comment)" by (simp add: end_part_def)
    then have l: "?k + ?o < length a" "?k + ?o + ?s \<le> length a" unfolding a length_append by linarith+
    note fo = fix_offset_prefix [OF that(1-3) l len]
    have "sint (of_nat (?k + ?o) :: 64 word) = int (?k + ?o)" using l(1) len by (intro sint_of_nat64) linarith
    then show ?thesis using that(4,5) l(1) unfolding fo Let_def by simp
  qed
  show ?thesis
  proof (cases "needs64 n ?s ?o")
    case False
    then have small: "n < 65535" "?s < 4294967295" "?o < 4294967295" by (simp_all add: needs64_def)
    define front where "front = pre @ body @ dir"
    have a': "a = front @ end_bytes (of_nat n) (of_nat ?s) (of_nat ?o) comment @ comment"
      using False by (simp add: a front_def end64_part_def end_part_def)
    have "20 \<le> length front \<longrightarrow> take 4 (drop (length front - 20) front) \<noteq> le32 directory64LocSignature"
      using un False by (auto simp: unambiguous_def front_def)
    moreover have "end_bytes (of_nat n) (of_nat ?s) (of_nat ?o) comment @ comment \<noteq> []"
      by (metis append_is_Nil_conv length_records(3) list.size(3) zero_neq_numeral)
    ultimately have "zip64_end ra (int (length front)) d = Inr (d, None)" for d by (intro zip64_end_plain [OF a'])
    note end_at = readDirectoryEnd_at [OF a' c _ this]
    have "no_later_end (end_bytes (of_nat n) (of_nat ?s) (of_nat ?o) comment) comment" using nl False by (simp add: end_part_def)
    note e = end_at [OF this, simplified option.case]
    have "int (length front) = int (?k + ?o + ?s)" by (simp add: front_def)
    then show ?thesis unfolding e
      using fin [of "end_value (of_nat n) (of_nat ?s) (of_nat ?o) comment"] small
      by (simp add: end_value_def ucast_of_nat32 ucast_of_nat16)
  next
    case True
    then have pre: "pre = []" using big by simp
    define front where "front = body @ dir @ end64_bytes (of_nat n) (of_nat ?s) (of_nat ?o) @ locator_bytes (of_nat (?o + ?s))"
    let ?e = "end_bytes (- 1) (- 1) (- 1) comment"
    have a': "a = front @ ?e @ comment" using True by (simp add: a front_def end64_part_def end_part_def pre)
    have a2: "a = (body @ dir) @ end64_bytes (of_nat n) (of_nat ?s) (of_nat ?o) @ locator_bytes (of_nat (length (body @ dir))) @ ?e @ comment"
      by (simp add: a' front_def)
    have fl: "int (length front) = int (length (body @ dir)) + 76" by (simp add: front_def)
    have "?e \<noteq> []" by (metis length_records(3) list.size(3) zero_neq_numeral)
    then have z: "zip64_end ra (int (length front)) d = Inr (d\<lparr>de_diskNbr := 0, de_dirDiskNbr := 0, de_dirRecordsThisDisk := of_nat n, de_directoryRecords := of_nat n,
           de_directorySize := of_nat ?s, de_directoryOffset := of_nat ?o\<rparr>, Some (int (length (body @ dir))))" for d
      unfolding fl by (intro zip64_end_locator [OF a2 _ len]) simp
    have "no_later_end ?e comment" using nl True by (simp add: end_part_def)
    note e = readDirectoryEnd_at [OF a' c this z]
    have "int (length (body @ dir)) = int (?k + ?o + ?s)" by (simp add: pre)
    then show ?thesis unfolding e
      using fin [of "(end_value (- 1) (- 1) (- 1) comment)\<lparr>de_diskNbr := 0, de_dirDiskNbr := 0, de_dirRecordsThisDisk := of_nat n, de_directoryRecords := of_nat n,
           de_directorySize := of_nat ?s, de_directoryOffset := of_nat ?o\<rparr>"]
      by (simp add: end_value_def)
  qed
qed

end

section \<open>Reading the directory\<close>

text \<open>A directory: headers with their offsets and time stamps.\<close>

type_synonym dir_items = "(FileHeader \<times> 64 word \<times> loctime option) list"

definition directory_bytes :: "dir_items \<Rightarrow> byte list" where
  "directory_bytes ds = concat (map (\<lambda>(h, off, st). dir_bytes h off) ds)"

definition directory_wf :: "dir_items \<Rightarrow> bool" where
  "directory_wf ds \<longleftrightarrow> (\<forall>(h, off, st) \<in> set ds. entry_wf h off \<and> (\<exists>fs. stamped fs st h))"

definition directory_files :: "int \<Rightarrow> int \<Rightarrow> dir_items \<Rightarrow> File list" where
  "directory_files sz skip ds =
     map (\<lambda>(h, off, st). (read_file sz st h off)\<lparr>f_headerOffset := i64 (sint off + skip)\<rparr>) ds"

lemma directory_simps [simp]:
  "directory_bytes [] = []" "directory_bytes ((h, off, st) # ds) = dir_bytes h off @ directory_bytes ds"
  "directory_files sz skip [] = []"
  "directory_files sz skip ((h, off, st) # ds) =
     (read_file sz st h off)\<lparr>f_headerOffset := i64 (sint off + skip)\<rparr> # directory_files sz skip ds"
  by (simp_all add: directory_bytes_def directory_files_def)

lemma length_directory: "46 * length ds \<le> length (directory_bytes ds)"
  by (induction ds) (auto simp: dir_bytes_def)

context io_reader
begin

text \<open>Anything with another signature ends the directory.\<close>

lemma readDirectoryHeader_stop:
  assumes "ok s" "fins s \<subseteq> {EOF}" "left s = le32 v @ rest" "v \<noteq> directoryHeaderSignature"
  obtains e s' where "readDirectoryHeader ops f s = (Inl e, s')" "e = ErrFormat \<or> e = ErrUnexpectedEOF"
proof -
  have ne: "left s \<noteq> []" using assms(3) by (metis append_is_Nil_conv length_le_bytes list.size(3) zero_neq_numeral)
  obtain s1 where s1: "ReadFull ops s 46 = (take 46 (left s), if 46 \<le> length (left s) then None
      else Some (if left s = [] then EOF else ErrUnexpectedEOF), s1)"
    by (rule ReadFull_exact [OF assms(1,2), of 46])
  show thesis
  proof (cases "46 \<le> length (left s)")
    case False
    then show thesis using that [of ErrUnexpectedEOF s1] s1 ne by (simp add: readDirectoryHeader_def)
  next
    case True
    have "take 46 (left s) = le32 v @ take 42 rest" using assms(3) by simp
    then have "dir_fixed (take 46 (left s)) f = Some (Inl ErrFormat)" using assms(4) by (simp add: dir_fixed_def rb_uint32_store)
    then show thesis using that [of ErrFormat s1] s1 True by (simp add: readDirectoryHeader_def)
  qed
qed

lemma read_directory_items:
  assumes "ok s" "fins s \<subseteq> {EOF}" "left s = directory_bytes ds @ le32 v @ rest" "v \<noteq> directoryHeaderSignature"
    and "directory_wf ds" "length ds < fuel"
  shows "\<exists>e. read_directory ops fuel sz skip s files = Inr (files @ directory_files sz skip ds, e)"
  using assms
proof (induction ds arbitrary: s files fuel)
  case Nil
  obtain e s' where "readDirectoryHeader ops (empty_file sz) s = (Inl e, s')" "e = ErrFormat \<or> e = ErrUnexpectedEOF"
    by (rule readDirectoryHeader_stop [OF Nil(1,2) _ Nil(4)]) (use Nil(3) in \<open>simp\<close>)
  moreover obtain fuel' where "fuel = Suc fuel'" using Nil(6) by (cases fuel) auto
  ultimately show ?case by auto
next
  case (Cons x ds)
  obtain h off st where x: "x = (h, off, st)" by (cases x)
  obtain fs where wf: "entry_wf h off" "stamped fs st h" using Cons.prems(5) by (auto simp: directory_wf_def x)
  obtain fuel' where fuel: "fuel = Suc fuel'" using Cons.prems(6) by (cases fuel) auto
  have "left s = dir_bytes h off @ directory_bytes ds @ le32 v @ rest" using Cons.prems(3) by (simp add: x)
  then obtain s' where s': "readDirectoryHeader ops (empty_file sz) s = (Inr (read_file sz st h off), s')"
      "ok s'" "fins s' \<subseteq> {EOF}" "left s' = directory_bytes ds @ le32 v @ rest"
    by (rule readDirectoryHeader_entry [OF Cons.prems(1,2) _ wf])
  have "directory_wf ds" "length ds < fuel'" using Cons.prems(5,6) by (simp_all add: directory_wf_def fuel)
  from Cons.IH [OF s'(2-4) Cons.prems(4) this, of "files @ [(read_file sz st h off)\<lparr>f_headerOffset := i64 (sint off + skip)\<rparr>]"]
  show ?case using s'(1) by (simp add: fuel x read_file_def)
qed

end

lemma end_signature:
  obtains v rest where "end64_part n s o' @ end_part n s o' comment @ comment = le32 v @ rest" "v \<noteq> directoryHeaderSignature"
proof (cases "needs64 n s o'")
  case True
  then show thesis
    using that [of directory64EndSignature] by (auto simp: end64_part_def end64_bytes_def directory64EndSignature_def directoryHeaderSignature_def)
next
  case False
  then show thesis
    using that [of directoryEndSignature] by (auto simp: end64_part_def end_part_def end_bytes_def directoryEndSignature_def directoryHeaderSignature_def)
qed

lemma normalize_valid:
  "\<forall>f \<in> set files. ValidString (fh_Name (f_header f)) \<Longrightarrow> normalizeNameEncoding nc files = files"
  by (auto simp: normalizeNameEncoding_def)

lemma of_nat_low16: "ucast (of_nat n :: 64 word) = (of_nat n :: 16 word)"
proof (rule word_unat_eq_iff [THEN iffD2])
  have "unat (ucast (of_nat n :: 64 word) :: 16 word) = n mod 2 ^ 64 mod 2 ^ 16"
    by (simp add: unsigned_ucast_eq unat_of_nat take_bit_eq_mod)
  also have "\<dots> = n mod 2 ^ 16" by (rule mod_mod_cancel) (simp add: le_imp_power_dvd)
  finally show "unat (ucast (of_nat n :: 64 word) :: 16 word) = unat (of_nat n :: 16 word)" by (simp add: unat_of_nat)
qed

context archive_at
begin

lemma zip_NewReader_layout:
  assumes a: "a = pre @ body @ directory_bytes ds @ end64_part (length ds) (length (directory_bytes ds)) (length body) @
      end_part (length ds) (length (directory_bytes ds)) (length body) comment @ comment"
    and big: "needs64 (length ds) (length (directory_bytes ds)) (length body) \<longrightarrow> pre = []"
    and len: "length a < 2 ^ 63" and c: "length comment \<le> 65535"
    and un: "unambiguous (pre @ body @ directory_bytes ds) (length ds) (length (directory_bytes ds)) (length body) comment"
    and wf: "directory_wf ds" and names: "\<forall>(h, off, st) \<in> set ds. ValidString (fh_Name h)"
  shows "zip_NewReader nc ra (int (length a)) =
    Inr \<lparr>zr_File = directory_files (int (length a)) (int (length pre)) ds, zr_Comment = comment, zr_decompressors = Map.empty\<rparr>"
proof -
  obtain d where d: "readDirectoryEnd ra (int (length a)) = Inr d" "de_directoryRecords d = of_nat (length ds)"
      "de_directoryOffset d = of_nat (length pre + length body)" "de_comment d = comment" "de_startSkipLen d = of_nat (length pre)"
    using readDirectoryEnd_layout [OF a big len c un] by blast
  let ?s = "sint (de_directoryOffset d)" and ?sz = "int (length a)"
  have l: "length pre + length body < 2 ^ 63" "length pre < 2 ^ 63" "length (directory_bytes ds) \<le> length a" using len unfolding a length_append by linarith+
  have s: "?s = int (length pre + length body)" "sint (de_startSkipLen d) = int (length pre)"
    unfolding d(3,5) using l by (simp_all only: sint_of_nat64)
  have n: "46 * length ds \<le> length a" using length_directory [of ds] l(3) by linarith
  have "uint (de_directoryRecords d) = int (length ds)"
    using n len by (simp add: d(2) unsigned_of_nat take_bit_eq_mod)
  moreover have "int (length ds) \<le> ?sz div 30" using n by linarith
  ultimately have few: "\<not> ?sz div int fileHeaderLen < uint (de_directoryRecords d)" by simp
  obtain v rest where v: "end64_part (length ds) (length (directory_bytes ds)) (length body) @
      end_part (length ds) (length (directory_bytes ds)) (length body) comment @ comment = le32 v @ rest" "v \<noteq> directoryHeaderSignature"
    by (rule end_signature)
  have "drop (nat ?s) (take (nat ?sz) a) = directory_bytes ds @ le32 v @ rest"
    unfolding s(1) nat_int take_all [OF order_refl] using v(1) by (simp add: a)
  moreover have "0 \<le> ?s" "length ds < Suc (nat ?sz)" using s(1) n by simp_all
  ultimately obtain e where e: "read_directory (section_ops ra ?sz) (Suc (nat ?sz)) ?sz (int (length pre)) ?s [] =
      Inr (directory_files ?sz (int (length pre)) ds, e)"
    using io_reader.read_directory_items [OF section_reader [of ?sz] _ subset_refl _ v(2) wf, of ?s rest "Suc (nat ?sz)" ?sz "int (length pre)" "[]"] by auto
  have "length (directory_files ?sz (int (length pre)) ds) = length ds" by (simp add: directory_files_def)
  then have cnt: "(of_nat (length (directory_files ?sz (int (length pre)) ds)) :: 16 word) = ucast (de_directoryRecords d)"
    by (simp add: d(2) of_nat_low16)
  have norm: "normalizeNameEncoding nc (directory_files ?sz (int (length pre)) ds) = directory_files ?sz (int (length pre)) ds"
    by (rule normalize_valid) (use names in \<open>auto simp: directory_files_def read_file_def\<close>)
  show ?thesis
    unfolding zip_NewReader_def zip_init_def d(1) sum.case if_not_P [OF few] s(2) e prod.case using cnt by (simp add: norm d(4))
qed

end

end
