(* ===== verification/Zip_Open.thy ===== *)
theory Zip_Open
  imports Zip_Directory
begin

text \<open>
  The contract of decompressors, and a file of an archive opened and read: its local header, its data
  and its data descriptor as \<^verbatim>\<open>Writer\<close> lays them out, its directory entry in agreement.
\<close>

section \<open>Decompressors\<close>

text \<open>
  The contract of a decompressor: when \<open>decodes z d\<close> says that the compressed bytes \<open>z\<close> stand for the
  data \<open>d\<close>, the reader it makes of a section that holds \<open>z\<close> is an \<^verbatim>\<open>io.Reader\<close> of \<open>d\<close>.
\<close>

locale decoder =
  fixes dcomp :: "'d decompressor" and decodes :: "byte list \<Rightarrow> byte list \<Rightarrow> bool"
  assumes decode: "archive_at ra (xs @ z @ ys) \<Longrightarrow> decodes z d \<Longrightarrow>
      dcomp (section_ops ra (int (length xs + length z))) (int (length xs)) f = (rops, rc) \<Longrightarrow>
      \<exists>ok left. io_reader rops ok left (\<lambda>_. {EOF}) \<and> ok rc \<and> left rc = d"

definition store_decompressor :: "int decompressor" where
  "store_decompressor = (\<lambda>ops pos f. (ops, pos))"

interpretation store: decoder store_decompressor "\<lambda>z d. z = d"
proof
  fix ra and xs z ys d :: "byte list" and f rops rc
  assume "archive_at ra (xs @ z @ ys)" "z = d"
    "store_decompressor (section_ops ra (int (length xs + length z))) (int (length xs)) f = (rops, rc)"
  then show "\<exists>ok left. io_reader rops ok left (\<lambda>_. {EOF}) \<and> ok rc \<and> left rc = d"
    using archive_at.section_reader [of ra "xs @ z @ ys" "int (length xs + length z)"]
    by (intro exI [of _ "\<lambda>s. 0 \<le> s"] exI [of _ "\<lambda>s. drop (nat s) (take (nat (int (length xs + length z))) (xs @ z @ ys))"])
       (auto simp: store_decompressor_def)
qed

section \<open>Opening a file\<close>

text \<open>The file in the archive: its local header, its compressed data, its data descriptor.\<close>

definition member_bytes :: "FileHeader \<Rightarrow> FileHeader \<Rightarrow> byte list \<Rightarrow> byte list" where
  "member_bytes h0 h z = local_fixed h0 @ fh_Name h0 @ fh_Extra h0 @ z @ descriptor_bytes h"

text \<open>What the directory entry of the file must say about it.\<close>

definition describes :: "File \<Rightarrow> FileHeader \<Rightarrow> byte list \<Rightarrow> byte list \<Rightarrow> bool" where
  "describes f h z d \<longleftrightarrow> hasDataDescriptor f \<and> fh_CompressedSize64 (f_header f) = of_nat (length z) \<and>
     fh_UncompressedSize64 (f_header f) = of_nat (length d) \<and> fh_CRC32 (f_header f) = crc32_of d \<and> fh_CRC32 h = crc32_of d"

lemma local_lengths:
  assumes "length (fh_Name h0) \<le> 65535" "length (fh_Extra h0) \<le> 65535"
  shows "or_panic (do {
             (sig, b) \<leftarrow> rb_uint32 (local_fixed h0);
             if sig \<noteq> fileHeaderSignature then Some (Inl ErrFormat)
             else do {
               b \<leftarrow> rb_skip 22 b;
               (filenameLen, b) \<leftarrow> rb_uint16 b;
               (extraLen, b) \<leftarrow> rb_uint16 b;
               Some (Inr (int (fileHeaderLen + unat filenameLen + unat extraLen)))
             }
           }) = Inr (int (30 + length (fh_Name h0) + length (fh_Extra h0)))"
proof -
  define n x where "n = (of_nat (length (fh_Name h0)) :: 16 word)" and "x = (of_nat (length (fh_Extra h0)) :: 16 word)"
  have len: "unat n = length (fh_Name h0)" "unat x = length (fh_Extra h0)" using assms by (simp_all add: n_def x_def unat_length16)
  define mid where "mid = le16 (fh_ReaderVersion h0) @ le16 (fh_Flags h0) @ le16 (fh_Method h0) @
     le16 (fh_ModifiedTime h0) @ le16 (fh_ModifiedDate h0) @ le32 0 @ le32 0 @ le32 0"
  have "local_fixed h0 = le32 fileHeaderSignature @ mid @ le16 n @ le16 x"
    by (simp add: local_fixed_def mid_def n_def x_def)
  moreover have "rb_skip 22 (mid @ xs) = Some xs" for xs by (rule rb_skip_append) (simp add: mid_def)
  ultimately show ?thesis unfolding len [symmetric] by (simp add: rb_uint32_store rb_uint16_store rb_last)
qed

context archive_at
begin

lemma findBodyOffset_member:
  assumes a: "a = xs @ local_fixed h0 @ rest" "rest \<noteq> []" and f: "f_headerOffset f = int (length xs)"
    and len: "length (fh_Name h0) \<le> 65535" "length (fh_Extra h0) \<le> 65535"
  shows "findBodyOffset ra f = Inr (int (30 + length (fh_Name h0) + length (fh_Extra h0)))"
proof -
  have "ra (int (length xs)) 30 = (local_fixed h0, None)" using read_at [of "length xs" 30] a by simp
  then show ?thesis
    using fill_buf_id [of "local_fixed h0" 30] local_lengths [OF len] by (simp add: findBodyOffset_def f)
qed

lemma readDataDescriptor_ok:
  assumes a: "a = xs @ descriptor_bytes h @ rest" and crc: "fh_CRC32 (f_header f) = fh_CRC32 h"
  shows "fst (readDataDescriptor (section_ops ra (int (length xs) + 16)) (int (length xs)) f) = None"
proof -
  let ?lim = "int (length xs) + 16"
  let ?left = "\<lambda>s. drop (nat s) (take (nat ?lim) a)"
  obtain tl where tl: "take 16 (descriptor_bytes h) = le32 dataDescriptorSignature @ le32 (fh_CRC32 h) @ tl" "length tl = 8"
    by (simp add: descriptor_bytes_def)
  have nat: "nat ?lim = length xs + 16" by simp
  have left: "?left (int (length xs)) = le32 dataDescriptorSignature @ le32 (fh_CRC32 h) @ tl"
  proof -
    have "16 \<le> length (descriptor_bytes h)" by (simp add: length_descriptor)
    then show ?thesis unfolding nat using tl(1) by (simp add: a)
  qed
  note rd = io_reader.ReadFull_ok [OF section_reader [of ?lim]]
  have "0 \<le> int (length xs)" "4 \<le> length (?left (int (length xs)))" unfolding left by simp_all
  then obtain s1 where "ReadFull (section_ops ra ?lim) (int (length xs)) 4 = (take 4 (?left (int (length xs))), None, s1)"
      "0 \<le> s1" "?left s1 = drop 4 (?left (int (length xs)))" by (rule rd)
  then have s1: "ReadFull (section_ops ra ?lim) (int (length xs)) 4 = (le32 dataDescriptorSignature, None, s1)"
      "0 \<le> s1" "?left s1 = le32 (fh_CRC32 h) @ tl" unfolding left by simp_all
  have "12 \<le> length (?left s1)" unfolding s1(3) by (simp add: tl(2))
  with s1(2) obtain s2 where "ReadFull (section_ops ra ?lim) s1 12 = (take 12 (?left s1), None, s2)" by (rule rd)
  then have s2: "ReadFull (section_ops ra ?lim) s1 12 = (le32 (fh_CRC32 h) @ tl, None, s2)"
    unfolding s1(3) by (simp add: tl(2))
  show ?thesis by (simp add: readDataDescriptor_def s1(1) rb_last s2 rb_uint32_store crc)
qed

lemma File_Open_member:
  assumes dec: "decoder dcomp decodes" "decodes z d"
    and a: "a = xs @ member_bytes h0 h z @ rest" "length a < 2 ^ 63"
    and f: "f_headerOffset f = int (length xs)" "describes f h z d"
    and len: "length (fh_Name h0) \<le> 65535" "length (fh_Extra h0) \<le> 65535"
    and dc: "zip_decompressor global zr (fh_Method (f_header f)) = Some dcomp" and fuel: "length d < fuel"
  shows "\<exists>r r'. File_Open global ra zr f = Inr r \<and> ReadAll checksum_ops fuel r [] = (d, None, r')"
proof -
  define ys where "ys = xs @ local_fixed h0 @ fh_Name h0 @ fh_Extra h0"
  have a1: "a = ys @ z @ descriptor_bytes h @ rest" by (simp add: a(1) ys_def member_bytes_def)
  have a2: "a = (ys @ z) @ descriptor_bytes h @ rest" by (simp add: a1)
  have dl: "16 \<le> length (descriptor_bytes h)" by (simp add: length_descriptor)
  have ylen: "int (length ys) = int (length xs) + int (30 + length (fh_Name h0) + length (fh_Extra h0))" by (simp add: ys_def)
  have small: "length ys + length z + 16 < 2 ^ 63" using a(2) dl unfolding a1 length_append by linarith
  have i64: "i64 (int n) = int n" if "n < 2 ^ 63" for n using that by (intro i64_id) (simp add: in_i64_def)
  have start: "i64 (int (length xs) + int (30 + length (fh_Name h0) + length (fh_Extra h0))) = int (length ys)"
    unfolding ylen [symmetric] using small by (intro i64) linarith
  have sz: "sint (fh_CompressedSize64 (f_header f)) = int (length z)"
    using f(2) small by (simp only: describes_def) (intro sint_of_nat64, linarith)
  have fin: "i64 (int (length ys) + int (length z)) = int (length ys + length z)"
    using i64 [of "length ys + length z"] small by simp
  have fin2: "i64 (int (length ys + length z) + int dataDescriptorLen) = int (length (ys @ z)) + 16"
    using i64 [of "length ys + length z + 16"] small by simp
  have "descriptor_bytes h \<noteq> []" using dl by auto
  then have body: "findBodyOffset ra f = Inr (int (30 + length (fh_Name h0) + length (fh_Extra h0)))"
    by (intro findBodyOffset_member [OF _ _ f(1) len, where rest = "fh_Name h0 @ fh_Extra h0 @ z @ descriptor_bytes h @ rest"])
       (simp_all add: a(1) member_bytes_def)
  obtain rops rc where rops: "dcomp (section_ops ra (int (length ys + length z))) (int (length ys)) f = (rops, rc)" by fastforce
  define r where "r = \<lparr>ck_rc_ops = rops, ck_rc = rc, ck_hash = crc32_NewIEEE, ck_nread = 0, ck_f = f,
      ck_desr = Some (section_ops ra (int (length (ys @ z)) + 16), int (length (ys @ z))), ck_err = None\<rparr>"
  have open': "File_Open global ra zr f = Inr r"
    unfolding File_Open_def body sum.case Let_def f(1) start dc option.case sz fin rops prod.case fin2 r_def
    using f(2) by (simp add: describes_def)
  obtain ok left where rd: "io_reader rops ok left (\<lambda>_. {EOF})" "ok rc" "left rc = d"
  proof -
    have "archive_at ra (ys @ z @ descriptor_bytes h @ rest)" using archive_at_axioms a1 by simp
    from decoder.decode [OF dec(1) this dec(2) rops] show thesis using that by blast
  qed
  have sound: "sound_file rops ok left (\<lambda>_. {EOF}) f d"
    by (intro sound_file.intro sound_file_axioms.intro rd(1)) (use f(2) in \<open>auto simp: describes_def\<close>)
  have "fst (readDataDescriptor (section_ops ra (int (length (ys @ z)) + 16)) (int (length (ys @ z))) f) = None"
    by (rule readDataDescriptor_ok [OF a2]) (use f(2) in \<open>simp add: describes_def\<close>)
  then have "sound_file.reading rops ok left f d r"
    using rd(2,3) by (auto simp: sound_file.reading_def [OF sound] r_def read_so_far_def crc32_NewIEEE_def intro!: exI [of _ "[]"])
  moreover have left: "sound_file.unread left r = d" using rd(3) by (simp add: sound_file.unread_def [OF sound] r_def)
  ultimately obtain r' where "ReadAll checksum_ops fuel r [] = (d, None, r')"
    by (rule_tac io_reader.ReadAll_ok [OF sound_file.checked_reader [OF sound], of r fuel "[]"]) (use fuel in auto)
  with open' show ?thesis by blast
qed

end

end
