(* ===== verification/Zip_Produce.thy ===== *)
theory Zip_Produce
  imports Zip_Open
begin

text \<open>
  The archive that \<^verbatim>\<open>zip.Writer\<close> produces: the contract of compressors, an invariant of the
  state of \<^verbatim>\<open>Writer\<close> between and within files, and the bytes that have reached the writer below
  when \<^verbatim>\<open>Close\<close> returns.
\<close>

section \<open>The counting writer\<close>

lemma word_i64: "(word_of_int (i64 x) :: 64 word) = word_of_int x"
  by (simp only: sint64_i64 [symmetric] of_int_sint scast_id)

lemma i64_add: "i64 (i64 x + y) = i64 (x + y)"
proof -
  have "(word_of_int (i64 x + y) :: 64 word) = word_of_int (x + y)" by (simp only: wi_hom_add [symmetric] word_i64)
  then show ?thesis by (simp only: sint64_i64 [symmetric])
qed

context ok_writer
begin

text \<open>
  The state of \<^verbatim>\<open>w.cw\<close> after the bytes \<open>o'\<close> have been written to it, when the writer below held \<open>base\<close>
  at the start.
\<close>

definition cw_is :: "byte list \<Rightarrow> 'w zip_out \<Rightarrow> byte list \<Rightarrow> bool" where
  "cw_is base cw o' \<longleftrightarrow> bok (cw_w cw) \<and> bout (cw_w cw) = base @ o' \<and> cw_count cw = i64 (int (length o'))"

lemma cw_write:
  assumes "cw_is base cw o'"
  obtains cw' where "op_write (out_ops wops) cw p = (length p, None, cw')" "cw_is base cw' (o' @ p)"
proof -
  obtain b where "op_write (bufio_ops wops) (cw_w cw) p = (length p, None, b)" "bok b" "bout b = bout (cw_w cw) @ p"
    using bufio_Write_ok [of "cw_w cw" p] assms by (auto simp: cw_is_def)
  then show thesis using that assms by (auto simp: cw_is_def count_ops_def countWriter_Write_def i64_add)
qed

lemma cw_write_all:
  assumes "cw_is base cw o'"
  obtains cw' where "write_all (out_ops wops) cw ps = (None, cw')" "cw_is base cw' (o' @ concat ps)"
proof -
  have "\<exists>cw'. write_all (out_ops wops) cw ps = (None, cw') \<and> cw_is base cw' (o' @ concat ps)"
    using assms
  proof (induction ps arbitrary: cw o')
    case (Cons p ps)
    obtain cw1 where "op_write (out_ops wops) cw p = (length p, None, cw1)" "cw_is base cw1 (o' @ p)" by (rule cw_write [OF Cons.prems])
    then show ?case using Cons.IH [of cw1 "o' @ p"] by auto
  qed simp
  then show thesis using that by blast
qed

text \<open>The counting writer above it that a compressor writes to.\<close>

abbreviation comp_ops :: "'w zip_out countWriter io_writer_ops" where
  "comp_ops \<equiv> count_ops (out_ops wops)"

definition comp_is :: "byte list \<Rightarrow> 'w zip_out countWriter \<Rightarrow> byte list \<Rightarrow> byte list \<Rightarrow> bool" where
  "comp_is base u o' z \<longleftrightarrow> cw_is base (cw_w u) (o' @ z) \<and> cw_count u = i64 (int (length z))"

lemma comp_write_all:
  assumes "comp_is base u o' z" "write_all comp_ops u ps = (None, u')"
  shows "comp_is base u' o' (z @ concat ps)"
  using assms
proof (induction ps arbitrary: u z)
  case (Cons p ps)
  obtain cw1 where cw1: "op_write (out_ops wops) (cw_w u) p = (length p, None, cw1)" "cw_is base cw1 ((o' @ z) @ p)"
    by (rule cw_write [OF Cons.prems(1) [unfolded comp_is_def, THEN conjunct1], of p])
  let ?u = "u\<lparr>cw_w := cw1, cw_count := i64 (cw_count u + int (length p))\<rparr>"
  have w: "op_write comp_ops u p = (length p, None, ?u)" using cw1(1) by (simp add: count_ops_def countWriter_Write_def)
  have "comp_is base ?u o' (z @ p)" using cw1(2) Cons.prems(1) by (cases u) (simp add: comp_is_def i64_add)
  then show ?case using Cons.IH [of ?u "z @ p"] Cons.prems(2) w by simp
qed simp

end

section \<open>Compressors\<close>

text \<open>
  The contract of the compressors of the methods \<open>M\<close>. They write nothing when they are made, take
  everything they are given, touch the writer below only by writing to it, and what they have written
  when they are closed stands for the data (\<open>decodes\<close>); \<open>holds m c d z\<close> says that the state \<open>c\<close> has been given
  \<open>d\<close> and has written \<open>z\<close>.
\<close>

locale encoder = ok_writer wops ok out
  for wops :: "'w io_writer_ops" and ok out +
  fixes M :: "16 word set" and compr :: "16 word \<Rightarrow> ('c, 'w zip_out countWriter) compressor_fun"
    and cops :: "16 word \<Rightarrow> CompressionSettings \<Rightarrow> ('c, 'w zip_out countWriter) compressor_ops"
    and holds :: "16 word \<Rightarrow> 'c \<Rightarrow> byte list \<Rightarrow> byte list \<Rightarrow> bool"
    and decodes :: "16 word \<Rightarrow> byte list \<Rightarrow> byte list \<Rightarrow> bool"
  assumes make: "m \<in> M \<Longrightarrow> usable_settings s \<Longrightarrow> \<exists>c. compr m s comp_ops u = (Inr (cops m s, c), u) \<and> holds m c [] []"
    and give: "m \<in> M \<Longrightarrow> holds m c d z \<Longrightarrow> bok (cw_w (cw_w u)) \<Longrightarrow>
      \<exists>ps c' u'. cp_write (cops m s) c u p = (length p, None, c', u') \<and> write_all comp_ops u ps = (None, u') \<and>
        holds m c' (d @ p) (z @ concat ps)"
    and finish: "m \<in> M \<Longrightarrow> holds m c d z \<Longrightarrow> bok (cw_w (cw_w u)) \<Longrightarrow>
      \<exists>ps c' u'. cp_close (cops m s) c u = (None, c', u') \<and> write_all comp_ops u ps = (None, u') \<and> decodes m (z @ concat ps) d"

text \<open>The method \<^verbatim>\<open>Store\<close> keeps the contract over every writer.\<close>

context ok_writer
begin

lemma store_encoder:
  "encoder wops ok out {Store} (\<lambda>_. store_compressor c) (\<lambda>_ _. nopCloser_ops comp_ops) (\<lambda>_ _ d z. z = d) (\<lambda>_ z d. z = d)"
proof
  fix m s and u :: "'w zip_out countWriter"
  show "\<exists>c'. store_compressor c s comp_ops u = (Inr (nopCloser_ops comp_ops, c'), u) \<and> [] = ([] :: byte list)"
    by (simp add: store_compressor_def)
next
  fix m s and u :: "'w zip_out countWriter" and p and c' :: 'c and d z :: "byte list"
  assume z: "z = d" and ok: "bok (cw_w (cw_w u))"
  obtain b where "op_write (bufio_ops wops) (cw_w (cw_w u)) p = (length p, None, b)" using bufio_Write_ok [OF ok] by blast
  then obtain u' where "op_write comp_ops u p = (length p, None, u')" by (simp add: count_ops_def countWriter_Write_def)
  then show "\<exists>ps c'' u'. cp_write (nopCloser_ops comp_ops) c' u p = (length p, None, c'', u') \<and> write_all comp_ops u ps = (None, u') \<and>
      z @ concat ps = d @ p"
    by (intro exI [of _ "[p]"]) (simp add: nopCloser_ops_def z)
next
  fix m s and u :: "'w zip_out countWriter" and c' :: 'c and d z :: "byte list"
  assume "z = d"
  then show "\<exists>ps c'' u'. cp_close (nopCloser_ops comp_ops) c' u = (None, c'', u') \<and> write_all comp_ops u ps = (None, u') \<and> z @ concat ps = d"
    by (intro exI [of _ "[]"]) (simp add: nopCloser_ops_def)
qed

end

interpretation buffer_store: encoder buffer_ops "\<lambda>_. True" "\<lambda>w. w" "{Store}" "\<lambda>_. store_compressor ()"
    "\<lambda>_ _. nopCloser_ops (count_ops (out_ops buffer_ops))" "\<lambda>_ _ d z. z = d" "\<lambda>_ z d. z = d"
  by (rule buffer.always.store_encoder)

section \<open>The states of a Writer\<close>

text \<open>
  A file in the archive: the header written in front of it, the header with its sizes and checksum, the
  compressed data, the data.
\<close>

type_synonym zip_member = "FileHeader \<times> FileHeader \<times> byte list \<times> byte list"

definition members_bytes :: "zip_member list \<Rightarrow> byte list" where
  "members_bytes ms = concat (map (\<lambda>(h0, h, z, d). member_bytes h0 h z) ms)"

definition member_headers :: "zip_member list \<Rightarrow> FileHeader list" where
  "member_headers ms = map (\<lambda>(h0, h, z, d). h) ms"

fun dir_from :: "nat \<Rightarrow> nat \<Rightarrow> zip_member list \<Rightarrow> header list" where
  "dir_from j pos [] = []"
| "dir_from j pos ((h0, h, z, d) # ms) =
     \<lparr>h_FileHeader = j, h_offset = of_nat pos\<rparr> # dir_from (Suc j) (pos + length (member_bytes h0 h z)) ms"

lemma members_simps [simp]:
  "members_bytes [] = []" "members_bytes ((h0, h, z, d) # ms) = member_bytes h0 h z @ members_bytes ms"
  "members_bytes (ms @ ms') = members_bytes ms @ members_bytes ms'"
  "member_headers [] = []" "member_headers ((h0, h, z, d) # ms) = h # member_headers ms"
  "member_headers (ms @ ms') = member_headers ms @ member_headers ms'" "length (member_headers ms) = length ms"
  by (simp_all add: members_bytes_def member_headers_def)

lemma dir_from_snoc:
  "dir_from j pos (ms @ [m]) = dir_from j pos ms @ [\<lparr>h_FileHeader = j + length ms, h_offset = of_nat (pos + length (members_bytes ms))\<rparr>]"
  by (induction j pos ms rule: dir_from.induct) (cases m, simp_all add: add.assoc)

lemma dir_from_last: "ms \<noteq> [] \<Longrightarrow> h_FileHeader (last (dir_from j pos ms)) = j + length ms - 1"
  by (cases ms rule: rev_cases) (simp_all add: dir_from_snoc)

lemma dir_from_Nil [simp]: "dir_from j pos ms = [] \<longleftrightarrow> ms = []"
  by (cases "(j, pos, ms)" rule: dir_from.cases) auto

lemma length_dir_from [simp]: "length (dir_from j pos ms) = length ms"
  by (induction j pos ms rule: dir_from.induct) simp_all

text \<open>A file once it is closed.\<close>

definition closed_member :: "FileHeader \<Rightarrow> byte list \<Rightarrow> byte list \<Rightarrow> zip_member" where
  "closed_member h0 z d = (h0, close_header (crc32_of d) (i64 (int (length z))) (i64 (int (length d))) h0, z, d)"

context encoder
begin

text \<open>What the calls that write a file leave alone.\<close>

definition frame :: "('c, 'w) zip_Writer \<Rightarrow> ('c, 'w) zip_Writer \<Rightarrow> bool" where
  "frame w0 w \<longleftrightarrow> \<not> zw_closed w \<and> zw_comment w = zw_comment w0 \<and> zw_compressors w = zw_compressors w0 \<and>
     zw_compressionSettings w = zw_compressionSettings w0 \<and> usable_settings (zw_compressionSettings w0)"

text \<open>The files \<open>ms\<close> are complete, and the caller has made the headers \<open>rest\<close>.\<close>

definition between :: "byte list \<Rightarrow> ('c, 'w) zip_Writer \<Rightarrow> ('c, 'w) zip_Writer \<Rightarrow> zip_member list \<Rightarrow> FileHeader list \<Rightarrow> bool" where
  "between base w0 w ms rest \<longleftrightarrow> frame w0 w \<and> cw_is base (zw_cw w) (members_bytes ms) \<and> zw_heap w = member_headers ms @ rest \<and>
     zw_dir w = dir_from 0 0 ms \<and> (\<forall>fw. zw_last w = Some fw \<longrightarrow> fw_closed fw)"

text \<open>After the files \<open>ms\<close>, a file with the header \<open>h0\<close> is open, was given \<open>d\<close> and has got \<open>z\<close> of it compressed.\<close>

definition within :: "byte list \<Rightarrow> ('c, 'w) zip_Writer \<Rightarrow> ('c, 'w) zip_Writer \<Rightarrow> zip_member list \<Rightarrow> FileHeader \<Rightarrow> byte list \<Rightarrow> byte list
    \<Rightarrow> FileHeader list \<Rightarrow> bool" where
  "within base w0 w ms h0 z d rest \<longleftrightarrow> frame w0 w \<and> fh_Method h0 \<in> M \<and>
     zw_heap w = member_headers ms @ h0 # rest \<and>
     zw_dir w = dir_from 0 0 ms @ [\<lparr>h_FileHeader = length ms, h_offset = of_nat (length (members_bytes ms))\<rparr>] \<and>
     (\<exists>fw. zw_last w = Some fw \<and> fw_header fw = \<lparr>h_FileHeader = length ms, h_offset = of_nat (length (members_bytes ms))\<rparr> \<and>
       fw_rawCount fw = i64 (int (length d)) \<and> fw_ops fw = cops (fh_Method h0) (zw_compressionSettings w0) \<and>
       holds (fh_Method h0) (fw_comp fw) d z \<and> fw_crc32 fw = crc32_of d \<and> \<not> fw_closed fw \<and>
       comp_is base \<lparr>cw_w = zw_cw w, cw_count = fw_compCount fw\<rparr> (members_bytes ms @ local_fixed h0 @ fh_Name h0 @ fh_Extra h0) z)"

lemma close_between: "between base w0 w ms rest \<Longrightarrow> close_last wops w = (None, w)"
  by (auto simp: between_def close_last_def split: option.splits)

lemma write_within:
  assumes "within base w0 w ms h0 z d rest"
  obtains w' z' where "write_last w p = (length p, None, w')" "within base w0 w' ms h0 z' (d @ p) rest"
proof -
  let ?m = "fh_Method h0" and ?s = "zw_compressionSettings w0"
  let ?o = "members_bytes ms @ local_fixed h0 @ fh_Name h0 @ fh_Extra h0"
  obtain fw where fw: "zw_last w = Some fw" "fw_header fw = \<lparr>h_FileHeader = length ms, h_offset = of_nat (length (members_bytes ms))\<rparr>"
      "fw_rawCount fw = i64 (int (length d))" "fw_ops fw = cops ?m ?s" "holds ?m (fw_comp fw) d z" "fw_crc32 fw = crc32_of d"
      "\<not> fw_closed fw" "comp_is base \<lparr>cw_w = zw_cw w, cw_count = fw_compCount fw\<rparr> ?o z"
    and m: "?m \<in> M" using assms unfolding within_def by blast
  have "bok (cw_w (cw_w \<lparr>cw_w = zw_cw w, cw_count = fw_compCount fw\<rparr>))" using fw(8) unfolding comp_is_def cw_is_def by blast
  from give [OF m fw(5) this, of ?s p] obtain ps c' u' where g:
      "cp_write (cops ?m ?s) (fw_comp fw) \<lparr>cw_w = zw_cw w, cw_count = fw_compCount fw\<rparr> p = (length p, None, c', u')"
      "write_all comp_ops \<lparr>cw_w = zw_cw w, cw_count = fw_compCount fw\<rparr> ps = (None, u')" "holds ?m c' (d @ p) (z @ concat ps)" by blast
  have u: "comp_is base u' ?o (z @ concat ps)" by (rule comp_write_all [OF fw(8) g(2)])
  define fw' where "fw' = fw\<lparr>fw_crc32 := crc32_Write (fw_crc32 fw) p, fw_rawCount := i64 (fw_rawCount fw + int (length p)),
      fw_comp := c', fw_compCount := cw_count u'\<rparr>"
  define w' where "w' = w\<lparr>zw_last := Some fw', zw_cw := cw_w u'\<rparr>"
  have "write_last w p = (length p, None, w')"
    using fw(1,4,7) g(1) by (simp add: write_last_def fileWriter_Write_def w'_def fw'_def)
  moreover have "comp_is base \<lparr>cw_w = cw_w u', cw_count = cw_count u'\<rparr> ?o (z @ concat ps)" using u by (cases u') simp
  then have "within base w0 w' ms h0 (z @ concat ps) (d @ p) rest"
    using assms fw g(3) unfolding within_def
    by (simp add: w'_def fw'_def frame_def i64_add crc32_Write_append)
  ultimately show thesis by (rule that)
qed

lemma close_within:
  assumes "within base w0 w ms h0 z d rest"
  obtains w' z' where "close_last wops w = (None, w')" "between base w0 w' (ms @ [closed_member h0 z' d]) rest" "decodes (fh_Method h0) z' d"
proof -
  let ?m = "fh_Method h0" and ?s = "zw_compressionSettings w0"
  let ?o = "members_bytes ms @ local_fixed h0 @ fh_Name h0 @ fh_Extra h0"
  obtain fw where fw: "zw_last w = Some fw" "fw_header fw = \<lparr>h_FileHeader = length ms, h_offset = of_nat (length (members_bytes ms))\<rparr>"
      "fw_rawCount fw = i64 (int (length d))" "fw_ops fw = cops ?m ?s" "holds ?m (fw_comp fw) d z" "fw_crc32 fw = crc32_of d"
      "\<not> fw_closed fw" "comp_is base \<lparr>cw_w = zw_cw w, cw_count = fw_compCount fw\<rparr> ?o z"
    and m: "?m \<in> M" using assms unfolding within_def by blast
  have "bok (cw_w (cw_w \<lparr>cw_w = zw_cw w, cw_count = fw_compCount fw\<rparr>))" using fw(8) unfolding comp_is_def cw_is_def by blast
  from finish [OF m fw(5) this, of ?s] obtain ps c' u' where g:
      "cp_close (cops ?m ?s) (fw_comp fw) \<lparr>cw_w = zw_cw w, cw_count = fw_compCount fw\<rparr> = (None, c', u')"
      "write_all comp_ops \<lparr>cw_w = zw_cw w, cw_count = fw_compCount fw\<rparr> ps = (None, u')" "decodes ?m (z @ concat ps) d" by blast
  define z' where "z' = z @ concat ps"
  have u: "comp_is base u' ?o z'" using comp_write_all [OF fw(8) g(2)] by (simp add: z'_def)
  define h where "h = close_header (crc32_of d) (i64 (int (length z'))) (i64 (int (length d))) h0"
  obtain cw' where cw': "write_all (out_ops wops) (cw_w u') [descriptor_bytes h] = (None, cw')" "cw_is base cw' ((?o @ z') @ concat [descriptor_bytes h])"
    by (rule cw_write_all [OF u [unfolded comp_is_def, THEN conjunct1]])
  define fw' where "fw' = fw\<lparr>fw_closed := True, fw_comp := c', fw_compCount := cw_count u'\<rparr>"
  define w' where "w' = w\<lparr>zw_heap := (zw_heap w)[length ms := h], zw_last := Some fw', zw_cw := cw'\<rparr>"
  have heap: "zw_heap w = member_headers ms @ h0 # rest" using assms by (simp add: within_def)
  have "fileWriter_close wops (zw_heap w) (zw_cw w) fw = (None, (zw_heap w)[length ms := h], fw', cw')"
    using fw g(1) u cw'(1) by (simp add: fileWriter_close_def write_buf_def data_descriptor_bytes fw'_def heap comp_is_def nth_append
        h_def [symmetric] Let_def)
  then have "close_last wops w = (None, w')" using fw(1,7) by (simp add: close_last_def w'_def)
  moreover have "between base w0 w' (ms @ [closed_member h0 z' d]) rest"
    using assms cw'(2) unfolding between_def within_def closed_member_def h_def [symmetric]
    by (auto simp: w'_def fw'_def frame_def heap dir_from_snoc member_bytes_def list_update_append)
  ultimately show thesis using g(3) by (intro that) (simp_all add: z'_def)
qed

lemma prepare_method: "prepare_header fh = Some h0 \<Longrightarrow> fh_Method h0 = fh_Method fh"
  by (auto simp: prepare_header_def stamp_modified_def utf8_flag_def Let_def ext_time_eq split: if_splits prod.splits)

lemma create_between:
  assumes "between base w0 w ms [fh]" "prepare_header fh = Some h0" "fh_Method fh \<in> M"
    and "zw_compressor global w0 (fh_Method fh) = Some (compr (fh_Method fh))"
    and "length (fh_Name h0) \<le> 65535" "length (fh_Extra h0) \<le> 65535"
  obtains w' where "CreateHeader wops global w (length ms) = (None, w')" "within base w0 w' ms h0 [] [] []"
proof -
  let ?m = "fh_Method fh" and ?s = "zw_compressionSettings w0"
  have m: "fh_Method h0 = ?m" by (rule prepare_method [OF assms(2)])
  have heap: "zw_heap w = member_headers ms @ [fh]" and cw: "cw_is base (zw_cw w) (members_bytes ms)" and fr: "frame w0 w"
    and dir: "zw_dir w = dir_from 0 0 ms" using assms(1) by (simp_all add: between_def)
  obtain c where c: "compr ?m ?s comp_ops \<lparr>cw_w = zw_cw w, cw_count = 0\<rparr> = (Inr (cops ?m ?s, c), \<lparr>cw_w = zw_cw w, cw_count = 0\<rparr>)" "holds ?m c [] []"
    using make [OF assms(3)] fr unfolding frame_def by blast
  obtain cw' where cw': "write_all (out_ops wops) (zw_cw w) [local_fixed h0, fh_Name h0, fh_Extra h0] = (None, cw')"
      "cw_is base cw' (members_bytes ms @ concat [local_fixed h0, fh_Name h0, fh_Extra h0])" by (rule cw_write_all [OF cw])
  define h where "h = \<lparr>h_FileHeader = length ms, h_offset = (of_nat (length (members_bytes ms)) :: 64 word)\<rparr>"
  define fw where "fw = \<lparr>fw_header = h, fw_rawCount = 0, fw_ops = cops ?m ?s, fw_comp = c, fw_compCount = 0, fw_crc32 = crc32_NewIEEE, fw_closed = False\<rparr>"
  define w' where "w' = w\<lparr>zw_heap := (zw_heap w)[length ms := h0], zw_dir := zw_dir w @ [h], zw_cw := cw', zw_last := Some fw\<rparr>"
  have dup: "\<not> (zw_dir w \<noteq> [] \<and> h_FileHeader (last (zw_dir w)) = length ms)"
  proof -
    have "length ms - 1 \<noteq> length ms" if "ms \<noteq> []" using that by (cases ms) auto
    then show ?thesis by (auto simp: dir dir_from_last)
  qed
  have hd: "zw_heap w ! length ms = fh" by (simp add: heap nth_append)
  have cmp: "zw_compressor global (w\<lparr>zw_heap := x\<rparr>) ?m = Some (compr ?m)" for x
    using assms(4) fr by (simp add: zw_compressor_def frame_def)
  have set': "zw_compressionSettings w = ?s" and off: "word_of_int (cw_count (zw_cw w)) = (of_nat (length (members_bytes ms)) :: 64 word)"
    using fr cw by (simp_all add: frame_def cw_is_def word_i64)
  have wh: "zip_writeHeader (out_ops wops) (zw_cw w) h0 = (None, cw')"
    using cw'(1) assms(5,6) by (simp add: zip_writeHeader_def write_buf_def local_header_bytes)
  have "CreateHeader wops global w (length ms) = (None, w')"
    unfolding CreateHeader_def close_between [OF assms(1)] prod.case option.case if_not_P [OF dup] hd assms(2) Let_def m cmp
    by (simp add: set' c(1) off wh w'_def fw_def h_def)
  moreover have "within base w0 w' ms h0 [] [] []"
    using assms(3) fr cw'(2) c(2) unfolding within_def m
    by (simp add: w'_def fw_def h_def frame_def heap dir comp_is_def crc32_NewIEEE_def list_update_append i64_def)
  ultimately show thesis by (rule that)
qed

lemma create_closes:
  "close_last wops w = (None, w1) \<Longrightarrow> between base w0 w1 ms rest \<Longrightarrow> CreateHeader wops global w p = CreateHeader wops global w1 p"
  by (simp add: CreateHeader_def close_between)

text \<open>Closing the last file does not depend on the headers that the caller makes.\<close>

lemma between_more: "between base w0 w ms [] \<Longrightarrow> between base w0 (w\<lparr>zw_heap := zw_heap w @ rest\<rparr>) ms rest"
  by (simp add: between_def frame_def)

lemma close_last_more:
  assumes "zw_last w = Some fw" "h_FileHeader (fw_header fw) < length (zw_heap w)" "close_last wops w = (e, w')"
  shows "close_last wops (w\<lparr>zw_heap := zw_heap w @ rest\<rparr>) = (e, w'\<lparr>zw_heap := zw_heap w' @ rest\<rparr>)"
proof (cases "fw_closed fw")
  case True
  then show ?thesis using assms by (simp add: close_last_def)
next
  case False
  obtain err c u where cl: "cp_close (fw_ops fw) (fw_comp fw) \<lparr>cw_w = zw_cw w, cw_count = fw_compCount fw\<rparr> = (err, c, u)"
    by (cases "cp_close (fw_ops fw) (fw_comp fw) \<lparr>cw_w = zw_cw w, cw_count = fw_compCount fw\<rparr>")
  then show ?thesis
    using assms False
    by (auto simp: close_last_def fileWriter_close_def nth_append list_update_append1 Let_def split: option.splits prod.splits)
qed

definition ready :: "byte list \<Rightarrow> ('c, 'w) zip_Writer \<Rightarrow> ('c, 'w) zip_Writer \<Rightarrow> zip_member list \<Rightarrow> bool" where
  "ready base w0 w ms \<longleftrightarrow>
     (\<forall>rest. \<exists>w1. close_last wops (w\<lparr>zw_heap := zw_heap w @ rest\<rparr>) = (None, w1) \<and> between base w0 w1 ms rest) \<and>
     length (zw_heap w) = length ms"

lemma ready_between:
  assumes "between base w0 w ms []"
  shows "ready base w0 w ms"
proof -
  have "length (zw_heap w) = length ms" using assms by (simp add: between_def)
  then show ?thesis unfolding ready_def using between_more [OF assms] close_between by blast
qed

lemma ready_within:
  assumes "within base w0 w ms h0 z d []"
  obtains z' where "decodes (fh_Method h0) z' d" "ready base w0 w (ms @ [closed_member h0 z' d])"
proof -
  obtain w' z' where w': "close_last wops w = (None, w')" "between base w0 w' (ms @ [closed_member h0 z' d]) []" "decodes (fh_Method h0) z' d"
    by (rule close_within [OF assms])
  obtain fw where fw: "zw_last w = Some fw" "h_FileHeader (fw_header fw) < length (zw_heap w)"
    using assms by (auto simp: within_def)
  have "close_last wops (w\<lparr>zw_heap := zw_heap w @ rest\<rparr>) = (None, w'\<lparr>zw_heap := zw_heap w' @ rest\<rparr>)" for rest
    by (rule close_last_more [OF fw w'(1)])
  moreover have "length (zw_heap w) = Suc (length ms)" using assms by (simp add: within_def)
  ultimately have "ready base w0 w (ms @ [closed_member h0 z' d])"
    unfolding ready_def using between_more [OF w'(2)] by auto
  then show thesis using that w'(3) by blast
qed

end

section \<open>Writing an archive\<close>

text \<open>
  The calls of a client: for each file a header and the pieces in which its data is written; then
  \<^verbatim>\<open>Close\<close>.
\<close>

fun write_chunks :: "('c, 'w) zip_Writer \<Rightarrow> byte list list \<Rightarrow> go_error option \<times> ('c, 'w) zip_Writer" where
  "write_chunks w [] = (None, w)"
| "write_chunks w (p # ps) =
     (case write_last w p of (n, Some e, w) \<Rightarrow> (Some e, w) | (n, None, w) \<Rightarrow> write_chunks w ps)"

fun write_files :: "'w io_writer_ops \<Rightarrow> ('c, 'w) zip_compressors \<Rightarrow> (FileHeader \<times> byte list list) list \<Rightarrow> ('c, 'w) zip_Writer
    \<Rightarrow> go_error option \<times> ('c, 'w) zip_Writer" where
  "write_files wops global [] w = (None, w)"
| "write_files wops global ((fh, ps) # files) w =
     (case new_header fh w of (p, w) \<Rightarrow>
        case CreateHeader wops global w p of
          (Some e, w) \<Rightarrow> (Some e, w)
        | (None, w) \<Rightarrow>
            case write_chunks w ps of
              (Some e, w) \<Rightarrow> (Some e, w)
            | (None, w) \<Rightarrow> write_files wops global files w)"

definition write_archive :: "'w io_writer_ops \<Rightarrow> ('c, 'w) zip_compressors \<Rightarrow> gostring \<Rightarrow> (FileHeader \<times> byte list list) list \<Rightarrow> 'w
    \<Rightarrow> go_error option \<times> ('c, 'w) zip_Writer" where
  "write_archive wops global comment files w0 =
     (case SetComment comment (zip_NewWriter w0) of
        (Some e, w) \<Rightarrow> (Some e, w)
      | (None, w) \<Rightarrow>
          case write_files wops global files w of
            (Some e, w) \<Rightarrow> (Some e, w)
          | (None, w) \<Rightarrow> zip_Close wops w)"

text \<open>The member that is made of a header and the pieces of the data.\<close>

definition made_of :: "(16 word \<Rightarrow> byte list \<Rightarrow> byte list \<Rightarrow> bool) \<Rightarrow> FileHeader \<times> byte list list \<Rightarrow> zip_member \<Rightarrow> bool" where
  "made_of decodes = (\<lambda>(fh, ps) m. \<exists>h0 z. prepare_header fh = Some h0 \<and> decodes (fh_Method fh) z (concat ps) \<and>
     m = closed_member h0 z (concat ps))"

context encoder
begin

lemma write_chunks_within:
  assumes "within base w0 w ms h0 z d []"
  shows "\<exists>w' z'. write_chunks w ps = (None, w') \<and> within base w0 w' ms h0 z' (d @ concat ps) []"
  using assms
proof (induction ps arbitrary: w z d)
  case (Cons p ps)
  obtain w' z' where w': "write_last w p = (length p, None, w')" "within base w0 w' ms h0 z' (d @ p) []" by (rule write_within [OF Cons.prems])
  then show ?case using Cons.IH [OF w'(2)] by simp
qed auto

text \<open>A header that can be written.\<close>

definition writable :: "('c, 'w) zip_compressors \<Rightarrow> ('c, 'w) zip_Writer \<Rightarrow> FileHeader \<Rightarrow> bool" where
  "writable global w0 fh \<longleftrightarrow> fh_Method fh \<in> M \<and> zw_compressor global w0 (fh_Method fh) = Some (compr (fh_Method fh)) \<and>
     (\<exists>h0. prepare_header fh = Some h0 \<and> length (fh_Name h0) \<le> 65535 \<and> length (fh_Extra h0) \<le> 65535)"

lemma write_files_ready:
  assumes "ready base w0 w ms" "\<forall>(fh, ps) \<in> set files. writable global w0 fh"
  shows "\<exists>w' ms'. write_files wops global files w = (None, w') \<and> ready base w0 w' (ms @ ms') \<and> list_all2 (made_of decodes) files ms'"
  using assms
proof (induction files arbitrary: w ms)
  case (Cons f files)
  obtain fh ps where f: "f = (fh, ps)" by (cases f)
  obtain h0 where h0: "prepare_header fh = Some h0" "length (fh_Name h0) \<le> 65535" "length (fh_Extra h0) \<le> 65535"
    and m: "fh_Method fh \<in> M" "zw_compressor global w0 (fh_Method fh) = Some (compr (fh_Method fh))"
    using Cons.prems(2) by (auto simp: writable_def f)
  let ?w = "w\<lparr>zw_heap := zw_heap w @ [fh]\<rparr>"
  have new: "new_header fh w = (length ms, ?w)" using Cons.prems(1) by (simp add: new_header_def ready_def)
  obtain w1 where w1: "close_last wops ?w = (None, w1)" "between base w0 w1 ms [fh]" using Cons.prems(1) unfolding ready_def by blast
  obtain w2 where w2: "CreateHeader wops global w1 (length ms) = (None, w2)" "within base w0 w2 ms h0 [] [] []"
    by (rule create_between [OF w1(2) h0(1) m h0(2,3)])
  obtain w3 z where w3: "write_chunks w2 ps = (None, w3)" "within base w0 w3 ms h0 z (concat ps) []"
    using write_chunks_within [OF w2(2), of ps] by auto
  obtain z' where z': "decodes (fh_Method h0) z' (concat ps)" "ready base w0 w3 (ms @ [closed_member h0 z' (concat ps)])"
    by (rule ready_within [OF w3(2)])
  then have "made_of decodes f (closed_member h0 z' (concat ps))" using h0(1) prepare_method [OF h0(1)] by (auto simp: made_of_def f)
  moreover obtain w' ms' where "write_files wops global files w3 = (None, w')" "ready base w0 w' ((ms @ [closed_member h0 z' (concat ps)]) @ ms')"
      "list_all2 (made_of decodes) files ms'" using Cons.IH [OF z'(2)] Cons.prems(2) by auto
  ultimately show ?case
    using w2(1) w3(1) by (intro exI [of _ w'] exI [of _ "closed_member h0 z' (concat ps) # ms'"])
      (simp add: f new create_closes [OF w1])
qed (auto intro: exI [of _ "[]"])

end

section \<open>Closing the archive\<close>

definition stamp_of :: "FileHeader \<Rightarrow> loctime option" where
  "stamp_of h = (if IsZero (lt_time (fh_Modified h)) then None else Some (fh_Modified h))"

fun items_from :: "nat \<Rightarrow> zip_member list \<Rightarrow> dir_items" where
  "items_from pos [] = []"
| "items_from pos ((h0, h, z, d) # ms) = (h, of_nat pos, stamp_of h) # items_from (pos + length (member_bytes h0 h z)) ms"

lemma length_items_from [simp]: "length (items_from pos ms) = length ms"
  by (induction pos ms rule: items_from.induct) simp_all

text \<open>The archive of the files \<open>ms\<close>.\<close>

definition zip_tail :: "zip_member list \<Rightarrow> gostring \<Rightarrow> byte list" where
  "zip_tail ms comment =
     (let s = length (directory_bytes (items_from 0 ms)); o' = length (members_bytes ms)
      in end64_part (length ms) s o' @ end_part (length ms) s o' comment @ comment)"

definition zip_bytes :: "zip_member list \<Rightarrow> gostring \<Rightarrow> byte list" where
  "zip_bytes ms comment = members_bytes ms @ directory_bytes (items_from 0 ms) @ zip_tail ms comment"

lemma of_nat_low32: "ucast (of_nat n :: 64 word) = (of_nat n :: 32 word)"
proof (rule word_unat_eq_iff [THEN iffD2])
  have "unat (ucast (of_nat n :: 64 word) :: 32 word) = n mod 2 ^ 64 mod 2 ^ 32"
    by (simp add: unsigned_ucast_eq unat_of_nat take_bit_eq_mod)
  also have "\<dots> = n mod 2 ^ 32" by (rule mod_mod_cancel) (simp add: le_imp_power_dvd)
  finally show "unat (ucast (of_nat n :: 64 word) :: 32 word) = unat (of_nat n :: 32 word)" by (simp add: unat_of_nat)
qed

context ok_writer
begin

lemma write_directory_members:
  assumes "cw_is base cw o'"
  shows "\<exists>heap' cw'. write_directory (out_ops wops) (dir_from (length hs) pos ms) (hs @ member_headers ms) cw = (None, heap', cw') \<and>
    cw_is base cw' (o' @ directory_bytes (items_from pos ms))"
  using assms
proof (induction ms arbitrary: hs pos cw o')
  case (Cons m ms)
  obtain h0 h z d where m: "m = (h0, h, z, d)" by (cases m)
  define h' where "h' = h\<lparr>fh_Extra := dir_extra h (of_nat pos)\<rparr>"
  obtain cw1 where cw1: "write_all (out_ops wops) cw [dir_fixed_bytes h (of_nat pos), fh_Name h', fh_Extra h', fh_Comment h'] = (None, cw1)"
      "cw_is base cw1 (o' @ concat [dir_fixed_bytes h (of_nat pos), fh_Name h', fh_Extra h', fh_Comment h'])"
    by (rule cw_write_all [OF Cons.prems])
  then have "cw_is base cw1 (o' @ dir_bytes h (of_nat pos))" by (simp add: dir_bytes_def h'_def)
  from Cons.IH [OF this, of "hs @ [h']" "pos + length (member_bytes h0 h z)"] show ?case
    using cw1(1) by (simp add: m dir_entry_bytes h'_def [symmetric] nth_append)
qed simp

lemma write_end_tail:
  assumes "cw_is base cw o'" "n < 2 ^ 63" "s < 2 ^ 63" "p < 2 ^ 63"
  obtains cw' where "write_end (out_ops wops) (of_nat n) (of_nat s) (of_nat p) (of_nat (p + s)) comment cw = (None, cw')"
    and "cw_is base cw' (o' @ end64_part n s p @ end_part n s p comment @ comment)"
proof -
  have u: "unat (of_nat k :: 64 word) = k" if "k < 2 ^ 63" for k
    using that by (simp add: unat_of_nat take_bit_eq_mod)
  have cond: "uint16max \<le> unat (of_nat n :: 64 word) \<or> uint32max \<le> unat (of_nat s :: 64 word) \<or> uint32max \<le> unat (of_nat p :: 64 word) \<longleftrightarrow> needs64 n s p"
    unfolding u [OF assms(2)] u [OF assms(3)] u [OF assms(4)] needs64_def ..
  show thesis
  proof (cases "needs64 n s p")
    case True
    let ?e = "end64_bytes (of_nat n) (of_nat s) (of_nat p) @ locator_bytes (of_nat (p + s))"
    obtain cw1 where cw1: "write_all (out_ops wops) cw [?e] = (None, cw1)" "cw_is base cw1 (o' @ concat [?e])"
      by (rule cw_write_all [OF assms(1)])
    obtain cw2 where cw2: "write_all (out_ops wops) cw1 [end_bytes (- 1) (- 1) (- 1) comment, comment] = (None, cw2)"
        "cw_is base cw2 ((o' @ concat [?e]) @ concat [end_bytes (- 1) (- 1) (- 1) comment, comment])"
      by (rule cw_write_all [OF cw1(2)])
    have max: "ucast (of_nat uint16max :: 64 word) = (- 1 :: 16 word)" "ucast (of_nat uint32max :: 64 word) = (- 1 :: 32 word)" by simp_all
    show thesis
      by (rule that [of cw2]) (use True cw1(1) cw2 in \<open>simp_all only: write_end_def cond if_True write_buf_def end64_records_bytes
          end_buf_bytes max option.case prod.case end64_part_def end_part_def concat.simps append_Nil2 append_assoc\<close>)
  next
    case False
    then have small: "n < 65535" "s < 4294967295" "p < 4294967295" by (simp_all add: needs64_def)
    let ?e = "end_bytes (of_nat n) (of_nat s) (of_nat p) comment"
    obtain cw1 where cw1: "write_all (out_ops wops) cw [?e, comment] = (None, cw1)" "cw_is base cw1 (o' @ concat [?e, comment])"
      by (rule cw_write_all [OF assms(1)])
    have low: "ucast (of_nat n :: 64 word) = (of_nat n :: 16 word)" "ucast (of_nat k :: 64 word) = (of_nat k :: 32 word)" for k
      by (simp_all add: of_nat_low16 of_nat_low32)
    show thesis
      by (rule that [of cw1]) (use False cw1 in \<open>simp_all only: write_end_def cond if_False write_buf_def
          end_buf_bytes low option.case prod.case end64_part_def end_part_def concat.simps append_Nil append_Nil2 append_assoc\<close>)
  qed
qed

end

context encoder
begin

lemma zip_Close_ready:
  assumes "ready base w0 w ms" and len: "length (zip_bytes ms (zw_comment w0)) < 2 ^ 63"
  obtains w' where "zip_Close wops w = (None, w')" "out (bw_wr (cw_w (zw_cw w'))) = base @ zip_bytes ms (zw_comment w0)" "zw_closed w'"
proof -
  let ?m = "members_bytes ms" and ?d = "directory_bytes (items_from 0 ms)"
  have bounds: "length ?m + length ?d < 2 ^ 63" "length ?m < 2 ^ 63" "length ?d < 2 ^ 63" using len unfolding zip_bytes_def length_append by linarith+
  have n: "length ms < 2 ^ 63" using length_directory [of "items_from 0 ms"] bounds(3) by simp
  have id: "i64 (int k) = int k" if "k < 2 ^ 63" for k using that by (intro i64_id) (simp add: in_i64_def)
  obtain w1 where w1: "close_last wops w = (None, w1)" "between base w0 w1 ms []"
    using assms(1) unfolding ready_def by (metis append_Nil2 zip_Writer.surjective zip_Writer.update_convs(8))
  define w2 where "w2 = (case zw_last w of None \<Rightarrow> w1 | Some fw \<Rightarrow> if fw_closed fw then w1 else w1\<lparr>zw_last := None\<rparr>)"
  have w2: "zw_cw w2 = zw_cw w1" "zw_dir w2 = dir_from 0 0 ms" "zw_heap w2 = member_headers ms" "zw_comment w2 = zw_comment w0" "\<not> zw_closed w2"
    using w1(2) by (auto simp: w2_def between_def frame_def split: option.splits)
  have cw: "cw_is base (zw_cw w1) ?m" using w1(2) by (simp add: between_def)
  obtain heap' cw' where dir: "write_directory (out_ops wops) (dir_from 0 0 ms) (member_headers ms) (zw_cw w1) = (None, heap', cw')"
      "cw_is base cw' (?m @ ?d)" using write_directory_members [OF cw, of "[]" 0 ms] by auto
  have count: "cw_count (zw_cw w1) = int (length ?m)" "cw_count cw' = int (length ?m + length ?d)"
    using cw dir(2) id [OF bounds(2)] id [OF bounds(1)] by (simp_all add: cw_is_def)
  obtain cw'' where end': "write_end (out_ops wops) (of_nat (length ms)) (of_nat (length ?d)) (of_nat (length ?m)) (of_nat (length ?m + length ?d)) (zw_comment w0) cw' = (None, cw'')"
      "cw_is base cw'' ((?m @ ?d) @ zip_tail ms (zw_comment w0))"
    by (rule write_end_tail [OF dir(2) n bounds(3,2), of "zw_comment w0"]) (simp add: zip_tail_def Let_def)
  obtain b where b: "bufio_Flush wops (cw_w cw'') = (None, b)" "out (bw_wr b) = bout (cw_w cw'')"
    using Flush_ok [of "cw_w cw''"] end'(2) by (auto simp: cw_is_def)
  define w' where "w' = w2\<lparr>zw_closed := True, zw_heap := heap', zw_cw := cw''\<lparr>cw_w := b\<rparr>\<rparr>"
  have size': "word_of_int (i64 (int (length ?m + length ?d) - int (length ?m))) = (of_nat (length ?d) :: 64 word)"
    using id [OF bounds(3)] by simp
  have words: "word_of_int (int (length ?m)) = (of_nat (length ?m) :: 64 word)"
      "word_of_int (int (length ?m + length ?d)) = (of_nat (length ?m + length ?d) :: 64 word)" by (simp_all only: of_int_of_nat_eq)
  have "zip_Close wops w = zip_Flush wops (w2\<lparr>zw_closed := True, zw_heap := heap', zw_cw := cw''\<rparr>)"
    unfolding zip_Close_def w1(1) prod.case option.case w2_def [symmetric] Let_def
    using w2 dir(1) end'(1) by (simp add: count size' [simplified] words [simplified])
  also have "\<dots> = (None, w')" using b(1) by (simp add: zip_Flush_def w'_def)
  finally show thesis
    by (rule that) (use end'(2) b(2) in \<open>simp_all add: w'_def cw_is_def zip_bytes_def\<close>)
qed

text \<open>All calls succeed and the writer below has got the archive.\<close>

lemma write_archive_bytes:
  assumes "ok w" "length comment \<le> uint16max" "\<forall>(fh, ps) \<in> set files. writable global (zip_NewWriter w) fh"
  obtains ms where "list_all2 (made_of decodes) files ms"
    and "length (zip_bytes ms comment) < 2 ^ 63 \<longrightarrow>
      (\<exists>w'. write_archive wops global comment files w = (None, w') \<and> out (bw_wr (cw_w (zw_cw w'))) = out w @ zip_bytes ms comment)"
proof -
  define w0 :: "('c, 'w) zip_Writer" where "w0 = (zip_NewWriter w)\<lparr>zw_comment := comment\<rparr>"
  have set': "SetComment comment (zip_NewWriter w) = (None, w0)" using assms(2) by (simp add: SetComment_def w0_def)
  have "between (out w) w0 w0 [] []"
    using assms(1) by (simp add: between_def frame_def w0_def zip_NewWriter_def cw_is_def bok_def bout_def bufio_NewWriter_def i64_def usable_default)
  moreover have "\<forall>(fh, ps) \<in> set files. writable global w0 fh"
    using assms(3) by (auto simp: writable_def w0_def zw_compressor_def)
  ultimately obtain w1 ms where w1: "write_files wops global files w0 = (None, w1)" "ready (out w) w0 w1 ms" "list_all2 (made_of decodes) files ms"
    using write_files_ready [OF ready_between, of "out w" w0 w0 "[]" files global] by auto
  have "\<exists>w'. write_archive wops global comment files w = (None, w') \<and> out (bw_wr (cw_w (zw_cw w'))) = out w @ zip_bytes ms comment"
    if len: "length (zip_bytes ms comment) < 2 ^ 63"
  proof -
    have c: "zw_comment w0 = comment" by (simp add: w0_def)
    obtain w' where "zip_Close wops w1 = (None, w')" "out (bw_wr (cw_w (zw_cw w'))) = out w @ zip_bytes ms comment"
      by (rule zip_Close_ready [OF w1(2)]) (use len in \<open>simp_all add: c\<close>)
    then show ?thesis by (simp add: write_archive_def set' w1(1))
  qed
  then show thesis using that w1(3) by blast
qed

end

end
