(* ===== verification/Zip_Roundtrip.thy ===== *)
theory Zip_Roundtrip
  imports Zip_Open Zip_Produce
begin

text \<open>
  What \<^verbatim>\<open>zip.Writer\<close> writes is read back by \<^verbatim>\<open>zip.Reader\<close>.
\<close>

section \<open>Headers that survive\<close>

text \<open>
  A header that an archive can hold: name, comment and extra data fit the 16-bit lengths, with room for
  the fields that \<^verbatim>\<open>Writer\<close> appends; the name is valid UTF-8; the extra data are fields with
  tags that the reader does not know.
\<close>

definition storable :: "FileHeader \<Rightarrow> bool" where
  "storable fh \<longleftrightarrow> length (fh_Name fh) \<le> 65535 \<and> length (fh_Comment fh) \<le> 65535 \<and> length (fh_Extra fh) + 37 \<le> 65535 \<and>
     ValidString (fh_Name fh) \<and>
     (\<exists>fs. fh_Extra fh = fields_bytes fs \<and> (\<forall>(tag, d) \<in> set fs. foreign tag \<and> length d \<le> 65535))"

text \<open>What \<^verbatim>\<open>CreateHeader\<close> and closing a file leave of a header.\<close>

definition kept :: "FileHeader \<Rightarrow> FileHeader \<Rightarrow> bool" where
  "kept fh h \<longleftrightarrow> fh_Name h = fh_Name fh \<and> fh_Comment h = fh_Comment fh \<and> fh_Method h = fh_Method fh \<and> fh_Modified h = fh_Modified fh \<and>
     fh_ExternalAttrs h = fh_ExternalAttrs fh \<and> fh_Extra h = fh_Extra fh @ stamp_bytes (stamp_of fh) \<and> fh_Flags h AND 8 \<noteq> 0"

lemma utf8_flag_kept: "\<exists>fl. utf8_flag (fh\<lparr>fh_Flags := fh_Flags fh OR 8\<rparr>) = fh\<lparr>fh_Flags := fl\<rparr> \<and> fl AND 8 \<noteq> 0"
proof -
  let ?x = "fh_Flags fh"
  have b: "(x OR 8) AND 8 = 8" for x :: "16 word" by (rule bit_word_eqI) (auto simp: bit_simps)
  have "(NOT 0x800 AND 8 :: 16 word) = 8" by simp
  then have "((?x OR 8) AND (NOT 0x800)) AND 8 = 8" using b [of ?x] by (simp only: and.assoc)
  moreover have "((?x OR 8) OR 0x800) AND 8 = 8" using b [of "?x OR 0x800"] by (simp only: or.assoc or.commute [of 8])
  ultimately have bits: "(?x OR 8) AND 8 = 8" "((?x OR 8) AND (NOT 0x800)) AND 8 = 8" "((?x OR 8) OR 0x800) AND 8 = 8"
    using b by simp_all
  obtain v1 r1 v2 r2 where det: "detectUTF8 (fh_Name fh) = (v1, r1)" "detectUTF8 (fh_Comment fh) = (v2, r2)" by fastforce
  define fl where "fl = (if fh_NonUTF8 fh then (?x OR 8) AND (NOT 0x800) else if (r1 \<or> r2) \<and> v1 \<and> v2 then (?x OR 8) OR 0x800 else ?x OR 8)"
  have "utf8_flag (fh\<lparr>fh_Flags := ?x OR 8\<rparr>) = fh\<lparr>fh_Flags := fl\<rparr>" by (auto simp: utf8_flag_def det fl_def)
  moreover have "fl AND 8 = 8" using bits by (simp only: fl_def split: if_split) simp
  ultimately show ?thesis by (intro exI [of _ fl]) simp
qed

lemma prepare_header_kept: "\<exists>h0. prepare_header fh = Some h0 \<and> kept fh h0"
proof -
  obtain fl where fl: "utf8_flag (fh\<lparr>fh_Flags := fh_Flags fh OR 8\<rparr>) = fh\<lparr>fh_Flags := fl\<rparr>" "fl AND 8 \<noteq> 0" using utf8_flag_kept by blast
  show ?thesis
    using fl(2) by (cases "timeToMsDosTime (fh_Modified fh)")
      (simp add: prepare_header_def fl(1) stamp_modified_def ext_time_eq kept_def stamp_of_def stamp_bytes_def)
qed

lemma kept_close: "kept fh h0 \<Longrightarrow> kept fh (close_header crc c u h0)"
  by (simp add: kept_def close_header_def Let_def)

lemma close_header_sizes:
  "fh_CompressedSize64 (close_header crc c u h0) = word_of_int c" "fh_UncompressedSize64 (close_header crc c u h0) = word_of_int u"
  "fh_CRC32 (close_header crc c u h0) = crc"
  by (simp_all add: close_header_def Let_def)

lemma isZip64_close: "isZip64 (close_header crc c u h0) \<longleftrightarrow> uint32max \<le> unat (word_of_int c :: 64 word) \<or> uint32max \<le> unat (word_of_int u :: 64 word)"
  unfolding isZip64_def close_header_sizes ..

lemma low_ucast: "unat (x :: 64 word) < 2 ^ 32 \<Longrightarrow> ucast (ucast x :: 32 word) = x"
  by (metis of_nat_unat ucast_id unat_low)

lemma close_header_32:
  assumes "\<not> isZip64 (close_header crc c u h0)"
  shows "fh_CompressedSize64 (close_header crc c u h0) = ucast (fh_CompressedSize (close_header crc c u h0))"
    and "fh_UncompressedSize64 (close_header crc c u h0) = ucast (fh_UncompressedSize (close_header crc c u h0))"
proof -
  have small: "unat (word_of_int c :: 64 word) < 2 ^ 32" "unat (word_of_int u :: 64 word) < 2 ^ 32"
    using assms unfolding isZip64_close by simp_all
  have z: "\<not> isZip64 (h0\<lparr>fh_CRC32 := crc, fh_CompressedSize64 := word_of_int c, fh_UncompressedSize64 := word_of_int u\<rparr>)"
    using assms unfolding isZip64_close by (simp add: isZip64_def)
  show "fh_CompressedSize64 (close_header crc c u h0) = ucast (fh_CompressedSize (close_header crc c u h0))"
    and "fh_UncompressedSize64 (close_header crc c u h0) = ucast (fh_UncompressedSize (close_header crc c u h0))"
    using z low_ucast [OF small(1)] low_ucast [OF small(2)] by (simp_all add: close_header_def Let_def)
qed

lemma entry_wf_close:
  assumes "storable fh" "kept fh h0" "pos < 2 ^ 63"
  shows "entry_wf (close_header crc c u h0) (of_nat pos) \<and> (\<exists>fs. stamped fs (stamp_of (close_header crc c u h0)) (close_header crc c u h0))"
proof -
  let ?h = "close_header crc c u h0"
  note k = kept_close [OF assms(2), of crc c u, unfolded kept_def]
  have st: "stamp_of ?h = stamp_of fh" using k by (simp add: stamp_of_def)
  have "length (stamp_bytes (stamp_of fh)) \<le> 9" by (simp add: stamp_bytes_def split: option.split)
  then have "length (dir_extra ?h (of_nat pos)) \<le> 65535" using k assms(1) by (simp add: dir_extra_def storable_def)
  moreover have "unat (of_nat pos :: 64 word) = pos" using assms(3) by (simp add: unat_of_nat take_bit_eq_mod)
  ultimately have "entry_wf ?h (of_nat pos)"
    using k assms(1,3) close_header_32 [of crc c u h0] unfolding entry_wf_def by (simp add: storable_def)
  moreover have "\<exists>fs. stamped fs (stamp_of ?h) ?h" using k st assms(1) unfolding stamped_def storable_def by auto
  ultimately show ?thesis ..
qed

section \<open>The round trip\<close>

lemma items_from_wf:
  assumes "pos + length (members_bytes ms) < 2 ^ 63"
    and "\<forall>m \<in> set ms. \<exists>fh h0 z d. m = closed_member h0 z d \<and> storable fh \<and> kept fh h0"
  shows "directory_wf (items_from pos ms) \<and> (\<forall>(h, off, st) \<in> set (items_from pos ms). ValidString (fh_Name h))"
  using assms
proof (induction ms arbitrary: pos)
  case (Cons m ms)
  obtain fh h0 z d where m: "m = closed_member h0 z d" "storable fh" "kept fh h0" using Cons.prems(2) by auto
  let ?h = "close_header (crc32_of d) (i64 (int (length z))) (i64 (int (length d))) h0"
  have "pos < 2 ^ 63" "pos + length (member_bytes h0 ?h z) + length (members_bytes ms) < 2 ^ 63"
    using Cons.prems(1) by (simp_all add: m(1) closed_member_def)
  then show ?case
    using Cons.IH [of "pos + length (member_bytes h0 ?h z)"] Cons.prems(2) entry_wf_close [OF m(2,3)] kept_close [OF m(3)] m(2)
    by (auto simp: directory_wf_def m(1) closed_member_def kept_def storable_def)
qed (simp add: directory_wf_def)

text \<open>What the reader tells of a file that was written with the header \<open>fh\<close> and the data \<open>d\<close>.\<close>

definition restored :: "FileHeader \<Rightarrow> byte list \<Rightarrow> File \<Rightarrow> bool" where
  "restored fh d f \<longleftrightarrow> fh_Name (f_header f) = fh_Name fh \<and> fh_Comment (f_header f) = fh_Comment fh \<and>
     fh_Method (f_header f) = fh_Method fh \<and> fh_ExternalAttrs (f_header f) = fh_ExternalAttrs fh \<and>
     fh_UncompressedSize64 (f_header f) = of_nat (length d) \<and> fh_CRC32 (f_header f) = crc32_of d"

text \<open>An archive behind the bytes \<open>pre\<close> that is not taken for another one.\<close>

definition readable :: "byte list \<Rightarrow> zip_member list \<Rightarrow> gostring \<Rightarrow> bool" where
  "readable pre ms comment \<longleftrightarrow>
     (let dir = directory_bytes (items_from 0 ms); body = members_bytes ms
      in length (pre @ zip_bytes ms comment) < 2 ^ 63 \<and> (needs64 (length ms) (length dir) (length body) \<longrightarrow> pre = []) \<and>
         unambiguous (pre @ body @ dir) (length ms) (length dir) (length body) comment)"

text \<open>The member that a header and pieces of data become.\<close>

definition stored_as :: "(16 word \<Rightarrow> byte list \<Rightarrow> byte list \<Rightarrow> bool) \<Rightarrow> FileHeader \<times> byte list list \<Rightarrow> zip_member \<Rightarrow> bool" where
  "stored_as decodes = (\<lambda>(fh, ps) m. \<exists>h0 z. storable fh \<and> kept fh h0 \<and> decodes (fh_Method fh) z (concat ps) \<and> m = closed_member h0 z (concat ps))"

context archive_at
begin

text \<open>Each file of the directory can be opened and read.\<close>

lemma members_read:
  assumes "a = pre @ members_bytes ms0 @ members_bytes ms @ rest" "length a < 2 ^ 63"
    and "list_all2 (stored_as decodes) files ms"
    and "\<forall>(fh, ps) \<in> set files. decoder (dcompr (fh_Method fh)) (decodes (fh_Method fh)) \<and>
        zip_decompressor decompressors zr (fh_Method fh) = Some (dcompr (fh_Method fh))"
  shows "list_all2 (\<lambda>(fh, ps) f. restored fh (concat ps) f \<and>
      (\<exists>r r'. File_Open decompressors ra zr f = Inr r \<and> ReadAll checksum_ops (Suc (length (concat ps))) r [] = (concat ps, None, r')))
    files (directory_files sz (int (length pre)) (items_from (length (members_bytes ms0)) ms))"
  using assms(1,3,4)
proof (induction ms arbitrary: ms0 files)
  case (Cons m ms)
  obtain fh ps files' where files: "files = (fh, ps) # files'"
    and rel: "list_all2 (stored_as decodes) files' ms"
    using Cons.prems(2) by (cases files) auto
  obtain h0 z where m: "storable fh" "kept fh h0" "decodes (fh_Method fh) z (concat ps)" "m = closed_member h0 z (concat ps)"
    using Cons.prems(2) by (auto simp: files stored_as_def)
  let ?d = "concat ps" and ?pos = "length (members_bytes ms0)"
  define h where "h = close_header (crc32_of ?d) (i64 (int (length z))) (i64 (int (length ?d))) h0"
  define f where "f = (read_file sz (stamp_of h) h (of_nat ?pos))\<lparr>f_headerOffset := i64 (sint (of_nat ?pos :: 64 word) + int (length pre))\<rparr>"
  have k: "kept fh h" unfolding h_def by (rule kept_close [OF m(2)])
  have a: "a = (pre @ members_bytes ms0) @ member_bytes h0 h z @ members_bytes ms @ rest"
    using Cons.prems(1) by (simp add: m(4) closed_member_def h_def)
  have "length pre + ?pos < 2 ^ 63" using assms(2) unfolding a length_append by linarith
  then have off: "f_headerOffset f = int (length (pre @ members_bytes ms0))"
    by (simp add: f_def sint_of_nat64 in_i64_def add.commute)
  have desc: "describes f h z ?d"
    using k by (simp add: describes_def f_def read_file_def kept_def hasDataDescriptor_def h_def close_header_sizes word_i64)
  have len: "length (fh_Name h0) \<le> 65535" "length (fh_Extra h0) \<le> 65535"
    using m(1,2) by (auto simp: storable_def kept_def stamp_bytes_def split: option.splits)
  have dec: "decoder (dcompr (fh_Method fh)) (decodes (fh_Method fh))"
      "zip_decompressor decompressors zr (fh_Method (f_header f)) = Some (dcompr (fh_Method fh))"
    using Cons.prems(3) k by (simp_all add: files f_def read_file_def kept_def)
  have open': "\<exists>r r'. File_Open decompressors ra zr f = Inr r \<and> ReadAll checksum_ops (Suc (length ?d)) r [] = (?d, None, r')"
    by (rule File_Open_member [OF dec(1) m(3) a assms(2) off desc len dec(2)]) simp
  have rest: "restored fh ?d f" using k desc by (simp add: restored_def describes_def f_def read_file_def kept_def)
  have a': "a = pre @ members_bytes (ms0 @ [m]) @ members_bytes ms @ rest" using Cons.prems(1) by (cases m) simp
  have "length (members_bytes (ms0 @ [m])) = ?pos + length (member_bytes h0 h z)" by (simp add: m(4) closed_member_def h_def)
  then have "directory_files sz (int (length pre)) (items_from ?pos (m # ms)) =
      f # directory_files sz (int (length pre)) (items_from (length (members_bytes (ms0 @ [m]))) ms)"
    by (simp add: m(4) closed_member_def h_def f_def)
  then show ?case using Cons.IH [OF a' rel] Cons.prems(3) open' rest by (simp add: files)
qed simp

lemma zip_bytes_read:
  fixes decompressors :: "'d decompressors"
  assumes a: "a = pre @ zip_bytes ms comment" and r: "readable pre ms comment" and c: "length comment \<le> 65535"
    and ms: "list_all2 (stored_as decodes) files ms"
    and dec: "\<forall>(fh, ps) \<in> set files. decoder (dcompr (fh_Method fh)) (decodes (fh_Method fh)) \<and>
        decompressors (fh_Method fh) = Some (dcompr (fh_Method fh))"
  shows "\<exists>zr. zip_NewReader nc ra (int (length a)) = Inr zr \<and> zr_Comment zr = comment \<and>
    list_all2 (\<lambda>(fh, ps) f. restored fh (concat ps) f \<and>
      (\<exists>r r'. File_Open decompressors ra zr f = Inr r \<and> ReadAll checksum_ops (Suc (length (concat ps))) r [] = (concat ps, None, r')))
    files (zr_File zr)"
proof -
  define ds where "ds = items_from 0 ms"
  have n: "length ds = length ms" by (simp add: ds_def)
  have layout: "a = pre @ members_bytes ms @ directory_bytes ds @ end64_part (length ds) (length (directory_bytes ds)) (length (members_bytes ms)) @
      end_part (length ds) (length (directory_bytes ds)) (length (members_bytes ms)) comment @ comment"
    by (simp add: a zip_bytes_def zip_tail_def Let_def ds_def)
  have len: "length a < 2 ^ 63" and big: "needs64 (length ds) (length (directory_bytes ds)) (length (members_bytes ms)) \<longrightarrow> pre = []"
    and un: "unambiguous (pre @ members_bytes ms @ directory_bytes ds) (length ds) (length (directory_bytes ds)) (length (members_bytes ms)) comment"
    using r unfolding readable_def Let_def a ds_def length_items_from by blast+
  have "\<forall>m \<in> set ms. \<exists>fh h0 z d. m = closed_member h0 z d \<and> storable fh \<and> kept fh h0"
    using ms by (induction rule: list_all2_induct) (auto simp: stored_as_def)
  moreover have "0 + length (members_bytes ms) < 2 ^ 63" using len unfolding layout length_append by linarith
  ultimately have wf: "directory_wf ds" "\<forall>(h, off, st) \<in> set ds. ValidString (fh_Name h)"
    using items_from_wf [of 0 ms] by (simp_all add: ds_def)
  define zr :: "'d zip_Reader" where "zr = \<lparr>zr_File = directory_files (int (length a)) (int (length pre)) ds, zr_Comment = comment, zr_decompressors = Map.empty\<rparr>"
  have "zip_NewReader nc ra (int (length a)) = Inr zr" unfolding zr_def by (rule zip_NewReader_layout [OF layout big len c un wf])
  moreover have "a = pre @ members_bytes [] @ members_bytes ms @ directory_bytes ds @ zip_tail ms comment"
    by (simp add: a zip_bytes_def ds_def)
  note mr = members_read [OF this len ms, of dcompr decompressors zr "int (length a)"]
  have "list_all2 (\<lambda>(fh, ps) f. restored fh (concat ps) f \<and>
      (\<exists>r r'. File_Open decompressors ra zr f = Inr r \<and> ReadAll checksum_ops (Suc (length (concat ps))) r [] = (concat ps, None, r')))
    files (zr_File zr)"
    using mr dec by (auto simp: zr_def ds_def zip_decompressor_def)
  ultimately show ?thesis by (intro exI [of _ zr]) (simp add: zr_def)
qed

end

text \<open>What is written can be read.\<close>

lemma archive_read_back:
  assumes enc: "encoder wops ok out M compr cops holds decodes" and dec: "\<forall>m \<in> M. decoder (dcompr m) (decodes m)"
    and reg: "\<forall>m \<in> M. compressors m = Some (compr m) \<and> decompressors m = Some (dcompr m)"
    and w: "ok w" and c: "length comment \<le> 65535"
    and files: "\<forall>(fh, ps) \<in> set files. fh_Method fh \<in> M \<and> storable fh"
  shows "\<exists>ms. list_all2 (made_of decodes) files ms \<and>
    (length (zip_bytes ms comment) < 2 ^ 63 \<longrightarrow>
      (\<exists>w'. write_archive wops compressors comment files w = (None, w') \<and>
            out (bw_wr (cw_w (zw_cw w'))) = out w @ zip_bytes ms comment)) \<and>
    (\<forall>pre nc ra. readable pre ms comment \<longrightarrow> archive_at ra (pre @ zip_bytes ms comment) \<longrightarrow>
      (\<exists>zr. zip_NewReader nc ra (int (length (pre @ zip_bytes ms comment))) = Inr zr \<and> zr_Comment zr = comment \<and>
        list_all2 (\<lambda>(fh, ps) f. restored fh (concat ps) f \<and>
          (\<exists>r r'. File_Open decompressors ra zr f = Inr r \<and>
                  ReadAll checksum_ops (Suc (length (concat ps))) r [] = (concat ps, None, r'))) files (zr_File zr)))"
proof -
  have "\<forall>(fh, ps) \<in> set files. encoder.writable M compr compressors (zip_NewWriter w) fh"
  proof clarify
    fix fh ps
    assume "(fh, ps) \<in> set files"
    then have fh: "fh_Method fh \<in> M" "storable fh" using files by auto
    obtain h0 where "prepare_header fh = Some h0" "kept fh h0" using prepare_header_kept by blast
    then show "encoder.writable M compr compressors (zip_NewWriter w) fh"
      using fh reg by (auto simp: encoder.writable_def [OF enc] zw_compressor_def zip_NewWriter_def storable_def kept_def stamp_bytes_def split: option.splits)
  qed
  then obtain ms where ms: "list_all2 (made_of decodes) files ms" and wr: "length (zip_bytes ms comment) < 2 ^ 63 \<longrightarrow>
      (\<exists>w'. write_archive wops compressors comment files w = (None, w') \<and> out (bw_wr (cw_w (zw_cw w'))) = out w @ zip_bytes ms comment)"
    using encoder.write_archive_bytes [OF enc w, of comment files compressors] c by auto
  have rel: "list_all2 (stored_as decodes) files ms"
    unfolding list_all2_iff
  proof (intro conjI ballI)
    show "length files = length ms" using ms by (rule list_all2_lengthD)
    fix x
    assume x: "x \<in> set (zip files ms)"
    obtain fh ps m where x': "x = ((fh, ps), m)" by (cases x) auto
    then have "(fh, ps) \<in> set files" "made_of decodes (fh, ps) m" using x ms by (auto simp: list_all2_iff dest: set_zip_leftD)
    moreover obtain h0 where "prepare_header fh = Some h0" "kept fh h0" using prepare_header_kept by blast
    ultimately show "case x of (x, y) \<Rightarrow> stored_as decodes x y"
      using files by (auto simp: x' made_of_def stored_as_def)
  qed
  have d: "\<forall>(fh, ps) \<in> set files. decoder (dcompr (fh_Method fh)) (decodes (fh_Method fh)) \<and> decompressors (fh_Method fh) = Some (dcompr (fh_Method fh))"
    using files dec reg by auto
  show ?thesis using ms wr archive_at.zip_bytes_read [OF _ refl _ c rel d] by (intro exI [of _ ms]) blast
qed

text \<open>
  C8. What is written to a \<^verbatim>\<open>zip.Writer\<close> is read back by \<^verbatim>\<open>zip.NewReader\<close>. Take any
  list of files, each with a header that an archive can hold and its data in pieces of any sizes,
  compressors and decompressors that keep their contracts, and a writer below that does not fail. Then
  \<^verbatim>\<open>CreateHeader\<close>, \<^verbatim>\<open>Write\<close> and \<^verbatim>\<open>Close\<close> succeed; and from the archive
  written, also behind other bytes, \<^verbatim>\<open>NewReader\<close> on any \<^verbatim>\<open>io.ReaderAt\<close> yields the files
  in their order with names, comments, methods, attributes, sizes and checksums, each file can be opened, and
  reading it yields its data and then \<^verbatim>\<open>io.EOF\<close>. Archives with zip64 records are included (with
  nothing in front of them); excluded are archives that can be taken for others (\<open>readable\<close>).
\<close>

theorem zip_roundtrip:
  assumes enc: "encoder wops ok out M compr cops holds decodes" and dec: "\<forall>m \<in> M. decoder (dcompr m) (decodes m)"
    and reg: "\<forall>m \<in> M. compressors m = Some (compr m) \<and> decompressors m = Some (dcompr m)"
    and w: "ok w" and c: "length comment \<le> 65535"
    and files: "\<forall>(fh, ps) \<in> set files. fh_Method fh \<in> M \<and> storable fh"
  shows "\<exists>ms. list_all2 (made_of decodes) files ms \<and>
    (length (zip_bytes ms comment) < 2 ^ 63 \<longrightarrow>
      (\<exists>w'. write_archive wops compressors comment files w = (None, w') \<and>
            out (bw_wr (cw_w (zw_cw w'))) = out w @ zip_bytes ms comment)) \<and>
    (\<forall>pre nc ra. readable pre ms comment \<longrightarrow> archive_at ra (pre @ zip_bytes ms comment) \<longrightarrow>
      (\<exists>zr. zip_NewReader nc ra (int (length (pre @ zip_bytes ms comment))) = Inr zr \<and> zr_Comment zr = comment \<and>
        list_all2 (\<lambda>(fh, ps) f. restored fh (concat ps) f \<and>
          (\<exists>r r'. File_Open decompressors ra zr f = Inr r \<and>
                  ReadAll checksum_ops (Suc (length (concat ps))) r [] = (concat ps, None, r'))) files (zr_File zr)))"
  using assms by (rule archive_read_back)

text \<open>An archive of one file with a name and contents of one byte.\<close>

definition a_files :: "16 word \<Rightarrow> (FileHeader \<times> byte list list) list" where
  "a_files m = [(new_FileHeader\<lparr>fh_Name := [97], fh_Method := m\<rparr>, [[97]])]"

lemma a_storable: "\<forall>(fh, ps) \<in> set (a_files m). fh_Method fh \<in> {m} \<and> storable fh"
  by (auto simp: a_files_def new_FileHeader_def storable_def ValidString.simps DecodeRune_def RuneError_def intro: exI [of _ "[]"])

lemma a_readable:
  assumes "list_all2 (made_of decodes) (a_files m) ms" "\<And>z. decodes m z [97] \<Longrightarrow> z = [97]"
  shows "readable [] ms []"
proof -
  let ?fh = "new_FileHeader\<lparr>fh_Name := [97], fh_Method := m\<rparr>"
  obtain h0 where h0: "ms = [closed_member h0 [97] [97]]" "prepare_header ?fh = Some h0"
    using assms by (auto simp: a_files_def list_all2_Cons1 made_of_def)
  then have k0: "kept ?fh h0" using prepare_header_kept [of ?fh] by simp
  define h where "h = close_header (crc32_of [97]) (i64 1) (i64 1) h0"
  have i: "i64 1 = 1" by (simp add: i64_def)
  have k: "fh_Name h = [97]" "fh_Comment h = []" "fh_Extra h = []" "fh_Extra h0 = []" "fh_Name h0 = [97]"
    using k0 kept_close [OF k0, of "crc32_of [97]" "i64 1" "i64 1"]
    by (simp_all add: kept_def h_def new_FileHeader_def stamp_of_def stamp_bytes_def zero_loctime_def zero_time_def IsZero_def)
  have z: "\<not> isZip64 h" unfolding h_def isZip64_close i by simp
  have ms: "ms = [(h0, h, [97], [97])]" by (simp add: h0(1) closed_member_def h_def)
  have dx: "dir_extra h 0 = []" using z k by (simp add: dir_extra_def)
  have body: "length (members_bytes ms) = 48" using k z by (simp add: ms member_bytes_def length_descriptor)
  have dir: "directory_bytes (items_from 0 ms) = dir_fixed_bytes h 0 @ [97]" using k dx by (simp add: ms dir_bytes_def)
  define x where "x = le32 directoryHeaderSignature @ le16 (fh_CreatorVersion h) @ le16 (fh_ReaderVersion h) @ le16 (fh_Flags h) @
     le16 (fh_Method h) @ le16 (fh_ModifiedTime h) @ le16 (fh_ModifiedDate h) @ le32 (fh_CRC32 h) @ le32 (dir_csize h 0) @ le32 (dir_usize h 0)"
  obtain y where y: "dir_fixed_bytes h 0 = x @ [1, 0] @ y" "length x = 28"
    using k by (simp add: dir_fixed_bytes_def x_def le_bytes_2)
  have nth: "take 4 (drop 75 (members_bytes ms @ dir_fixed_bytes h 0 @ [97])) ! 1 = 1"
    using body y by (simp add: nth_append)
  have loc: "le32 directory64LocSignature ! 1 = 0x4b" by (simp add: le_bytes_4 directory64LocSignature_def)
  have "take 4 (drop 75 (members_bytes ms @ dir_fixed_bytes h 0 @ [97])) \<noteq> le32 directory64LocSignature"
  proof
    assume eq: "take 4 (drop 75 (members_bytes ms @ dir_fixed_bytes h 0 @ [97])) = le32 directory64LocSignature"
    show False using nth loc unfolding eq by simp
  qed
  moreover have "length (members_bytes ms @ dir_fixed_bytes h 0 @ [97]) - 20 = 75" using body by simp
  ultimately have "unambiguous (members_bytes ms @ dir_fixed_bytes h 0 @ [97]) 1 47 48 []"
    by (simp add: unambiguous_def no_later_end_def)
  moreover have "length (zip_bytes ms []) < 2 ^ 63"
    using body dir by (simp add: zip_bytes_def zip_tail_def Let_def end64_part_def end_part_def needs64_def ms)
  moreover have "length ms = 1" "length (dir_fixed_bytes h 0 @ [97]) = 47" by (simp_all add: ms)
  ultimately show ?thesis unfolding readable_def Let_def dir by (simp only: body append_Nil simp_thms)
qed

theorem zip_roundtrip_witness:
  "\<exists>a zr f r r'. (\<exists>w'. write_archive buffer_ops (\<lambda>_. Some (store_compressor ())) [] (a_files Store) [] = (None, w') \<and> bw_wr (cw_w (zw_cw w')) = a) \<and>
     zip_NewReader \<lparr>nc_DetectBest = (\<lambda>_. None), nc_CodePage437 = Some, nc_ShiftJIS = Some\<rparr> (bytes_ReadAt a) (int (length a)) = Inr zr \<and>
     zr_File zr = [f] \<and> fh_Name (f_header f) = [97] \<and>
     File_Open (\<lambda>_. Some store_decompressor) (bytes_ReadAt a) zr f = Inr r \<and> ReadAll checksum_ops 2 r [] = ([97], None, r')"
proof -
  have 1: "\<forall>m \<in> {Store}. decoder store_decompressor ((\<lambda>_ z d. z = d) m)" using store.decoder_axioms by simp
  have 2: "\<forall>m \<in> {Store}. Some (store_compressor ()) = Some (store_compressor ()) \<and> Some store_decompressor = Some store_decompressor" by simp
  from zip_roundtrip [OF buffer_store.encoder_axioms 1 2 TrueI _ a_storable, where w = "[]" and comment = "[]"]
  obtain ms where ms: "list_all2 (made_of (\<lambda>_ z d. z = d)) (a_files Store) ms"
    and wr: "length (zip_bytes ms []) < 2 ^ 63 \<Longrightarrow>
      \<exists>w'. write_archive buffer_ops (\<lambda>_. Some (store_compressor ())) [] (a_files Store) [] = (None, w') \<and> bw_wr (cw_w (zw_cw w')) = [] @ zip_bytes ms []"
    and rt: "\<And>pre nc ra. readable pre ms [] \<Longrightarrow> archive_at ra (pre @ zip_bytes ms []) \<Longrightarrow>
      (\<exists>zr. zip_NewReader nc ra (int (length (pre @ zip_bytes ms []))) = Inr zr \<and> zr_Comment zr = [] \<and>
        list_all2 (\<lambda>(fh, ps) f. restored fh (concat ps) f \<and>
          (\<exists>r r'. File_Open (\<lambda>_. Some store_decompressor) ra zr f = Inr r \<and>
                  ReadAll checksum_ops (Suc (length (concat ps))) r [] = (concat ps, None, r'))) (a_files Store) (zr_File zr))"
    by auto
  let ?a = "zip_bytes ms []" and ?nc = "\<lparr>nc_DetectBest = (\<lambda>_. None), nc_CodePage437 = Some, nc_ShiftJIS = Some\<rparr>"
  have "archive_at (bytes_ReadAt ?a) ([] @ ?a)" using bytes_at.archive_at_axioms [of ?a] by simp
  note rt = rt [OF a_readable [OF ms] this, of ?nc]
  have "length ?a < 2 ^ 63" using a_readable [OF ms] by (simp add: readable_def Let_def)
  note wr = wr [OF this]
  obtain w' zr where w': "write_archive buffer_ops (\<lambda>_. Some (store_compressor ())) [] (a_files Store) [] = (None, w')" "bw_wr (cw_w (zw_cw w')) = ?a"
    and zr: "zip_NewReader ?nc (bytes_ReadAt ?a) (int (length ?a)) = Inr zr"
    and fs: "list_all2 (\<lambda>(fh, ps) f. restored fh (concat ps) f \<and>
          (\<exists>r r'. File_Open (\<lambda>_. Some store_decompressor) (bytes_ReadAt ?a) zr f = Inr r \<and>
                  ReadAll checksum_ops (Suc (length (concat ps))) r [] = (concat ps, None, r'))) (a_files Store) (zr_File zr)"
    using rt wr by auto
  obtain f where f: "zr_File zr = [f]" "restored (new_FileHeader\<lparr>fh_Name := [97], fh_Method := Store\<rparr>) [97] f"
      "\<exists>r r'. File_Open (\<lambda>_. Some store_decompressor) (bytes_ReadAt ?a) zr f = Inr r \<and> ReadAll checksum_ops 2 r [] = ([97], None, r')"
    using fs by (auto simp: a_files_def list_all2_Cons1 numeral_2_eq_2 simp del: ReadAll.simps)
  show ?thesis using w' zr f by (intro exI [of _ ?a] exI [of _ zr] exI [of _ f]) (auto simp: restored_def)
qed

end
