(* ===== verification/Zip_Entry.thy ===== *)
theory Zip_Entry
  imports Zip_Roundtrip
begin

text \<open>
  A directory entry of a zip archive is read back field by field, with the modification time and its zone.
\<close>

section \<open>The modification time\<close>

lemma sat64_id: "- 9223372036854775808 \<le> x \<Longrightarrow> x \<le> 9223372036854775807 \<Longrightarrow> sat64 x = x"
  by (simp add: sat64_def)

text \<open>Rounding to a multiple of \<open>m\<close> that is at most a little more than the duration.\<close>

lemma duration_Round_near:
  fixes m q e :: int
  assumes "0 \<le> e" "2 * e < m" "- 9223372036854775808 \<le> q * m" "q * m \<le> 9223372036854775807"
  shows "duration_Round (q * m - e) m = q * m"
proof (cases "q * m - e < 0")
  case True
  have "- (q * m - e) = e + (- q) * m" by simp
  then have "(- (q * m - e)) mod m = e" using assms(1,2) by (metis mod_mult_self1 mod_pos_pos_trivial mult.commute mult_2 add_increasing le_add_same_cancel1 order_le_less_trans)
  then show ?thesis using True assms(1,2) by (simp add: duration_Round_def Let_def)
next
  case False
  show ?thesis
  proof (cases "e = 0")
    case True
    then show ?thesis using False assms(1,2) by (simp add: duration_Round_def)
  next
    case e: False
    have "q * m - e = (m - e) + (q - 1) * m" by (simp add: algebra_simps)
    moreover have "(m - e) mod m = m - e" using assms(1,2) e by (intro mod_pos_pos_trivial) linarith+
    ultimately have "(q * m - e) mod m = m - e" by (metis mod_mult_self1 mult.commute)
    then show ?thesis using False assms e by (simp add: duration_Round_def Let_def sat64_id)
  qed
qed

lemma timeZone_near:
  assumes "p = 0 \<or> p = (1 :: int)" "- 48 \<le> q" "q \<le> 56"
  shows "timeZone ((900 * q - p) * 1000000000) = FixedZone (900 * q)"
proof -
  have "(900 * q - p) * 1000000000 = q * (15 * 60 * 1000000000) - p * 1000000000" by simp
  moreover have "duration_Round (q * (15 * 60 * 1000000000) - p * 1000000000) (15 * 60 * 1000000000) = q * (15 * 60 * 1000000000)"
    by (rule duration_Round_near) (use assms in linarith)+
  ultimately have r: "duration_Round ((900 * q - p) * 1000000000) (15 * 60 * 1000000000) = q * (15 * 60 * 1000000000)" by (simp only:)
  have "(- (q * (15 * 60 * 1000000000))) div 1000000000 = - (900 * q)" "q * (15 * 60 * 1000000000) div 1000000000 = 900 * q" by simp_all
  then show ?thesis using assms unfolding timeZone_def r Let_def by simp
qed

text \<open>
  Times that a zip archive can hold with their zone: the year fits an MS-DOS date, the seconds since 1970
  fit 32 bits, and the zone is a whole number of quarters of an hour in the range of real zones.
\<close>

definition zip_time :: "loctime \<Rightarrow> bool" where
  "zip_time t \<longleftrightarrow> in_i64 (t_sec (lt_time t)) \<and> 1980 \<le> time_Year t \<and> time_Year t \<le> 2107 \<and> 0 \<le> Unix_of (lt_time t) \<and> Unix_of (lt_time t) < 2 ^ 32 \<and>
     loc_offset (lt_loc t) mod 900 = 0 \<and> - 43200 \<le> loc_offset (lt_loc t) \<and> loc_offset (lt_loc t) \<le> 50400"

lemma dos_date_nonzero:
  assumes "1980 \<le> time_Year t" "time_Year t \<le> 2107" "timeToMsDosTime t = (d, w)"
  shows "d \<noteq> 0"
proof -
  note dm = day_in_month [OF date_parts(1) [of t]]
  have "time_Day t \<le> 31" "1 \<le> time_Day t" "1 \<le> time_Month t" "time_Month t \<le> 12" using dm by simp_all
  moreover have "d = word_of_int (time_Day t + time_Month t * 2 ^ 5 + (time_Year t - 1980) * 2 ^ 9)"
    using assms(3) by (simp only: timeToMsDosTime_def prod.inject)
  ultimately have "uint (d AND 0x1f) = time_Day t" using dos_date_fields(3) assms(1,2) by blast
  then show ?thesis using \<open>1 \<le> time_Day t\<close> by auto
qed

lemma dir_modified_restored:
  assumes t: "zip_time t" and h: "timeToMsDosTime t = (fh_ModifiedDate h, fh_ModifiedTime h)"
  shows "dir_modified h (stamp_time (Some t)) =
    \<lparr>lt_time = \<lparr>t_sec = t_sec (lt_time t), t_nsec = 0\<rparr>, lt_loc = FixedZone (loc_offset (lt_loc t))\<rparr>"
proof -
  let ?o = "loc_offset (lt_loc t)" and ?m = "msDosTimeToTime (fh_ModifiedDate h) (fh_ModifiedTime h)"
  have y: "1980 \<le> time_Year t" "time_Year t \<le> 2107" and u: "0 \<le> Unix_of (lt_time t)" "Unix_of (lt_time t) < 2 ^ 32"
    using t by (simp_all add: zip_time_def)
  have "uint (word_of_int (Unix_of (lt_time t)) :: 32 word) = Unix_of (lt_time t)"
    using u by (simp add: uint_word_of_int_eq take_bit_eq_mod)
  then have st: "stamp_time (Some t) = \<lparr>t_sec = t_sec (lt_time t), t_nsec = 0\<rparr>"
    using t by (simp add: zip_time_def stamp_time_def time_Unix_def) (simp add: Unix_of_def i64_add)
  obtain q where q: "?o = 900 * q" "- 48 \<le> q" "q \<le> 56" using t by (auto simp: zip_time_def elim!: dvdE simp flip: dvd_eq_mod_eq_0)
  note ms = msDosTime_roundtrip [OF y h]
  define p where "p = local_secs t mod 2"
  have p: "p = 0 \<or> p = 1" by (auto simp: p_def)
  have "(t_sec (lt_time ?m) - t_sec (lt_time t)) = 900 * q - p"
    using ms q(1) by (simp add: local_secs_def p_def)
  then have "time_Sub (lt_time ?m) (stamp_time (Some t)) = (900 * q - p) * 1000000000"
    using ms st p q by (auto simp: time_Sub_def sat64_id)
  moreover have "\<not> IsZero (stamp_time (Some t))" 
    using u(1) i64_id [of "- unixToInternal"] by (auto simp: st IsZero_def Unix_of_def in_i64_def unixToInternal_def)
  ultimately show ?thesis
    using dos_date_nonzero [OF y h] timeZone_near [OF p q(2,3)] by (simp add: dir_modified_def Let_def time_In_def q(1) st)
qed

lemma prepare_header_times:
  assumes "prepare_header fh = Some h0" "\<not> IsZero (lt_time (fh_Modified fh))"
  shows "timeToMsDosTime (fh_Modified fh) = (fh_ModifiedDate h0, fh_ModifiedTime h0) \<and> stamp_of fh = Some (fh_Modified fh)"
proof -
  obtain fl where fl: "utf8_flag (fh\<lparr>fh_Flags := fh_Flags fh OR 8\<rparr>) = fh\<lparr>fh_Flags := fl\<rparr>" using utf8_flag_kept by blast
  show ?thesis
    using assms by (cases "timeToMsDosTime (fh_Modified fh)")
      (auto simp: prepare_header_def fl stamp_modified_def ext_time_eq stamp_of_def)
qed

lemma zip_time_set: "zip_time t \<Longrightarrow> \<not> IsZero (lt_time t)"
  using i64_id [of "- unixToInternal"] by (auto simp: zip_time_def IsZero_def Unix_of_def in_i64_def unixToInternal_def)

lemma close_header_times:
  "fh_ModifiedDate (close_header crc c u h0) = fh_ModifiedDate h0" "fh_ModifiedTime (close_header crc c u h0) = fh_ModifiedTime h0"
  by (simp_all add: close_header_def Let_def)

text \<open>
  C15. The directory entry of a file, from \<^verbatim>\<open>CreateHeader\<close> over the end of its data to \<^verbatim>\<open>Close\<close>,
  is read back by \<^verbatim>\<open>readDirectoryHeader\<close> from any conforming reader, also when sizes or the offset need
  zip64: name, comment, method, attributes, checksum, 64-bit sizes and the offset are restored, and exactly the entry
  is consumed. A modification time that the two time stamps can hold (\<open>zip_time\<close>) is restored to
  the second, with the zone it was given in.
\<close>

theorem dir_entry_roundtrip:
  assumes rd: "io_reader ops ok left fins" "ok s" "fins s \<subseteq> {EOF}"
    and h0: "storable fh" "prepare_header fh = Some h0" and pos: "pos < 2 ^ 63"
    and e: "dir_entry (close_header crc c u h0) (of_nat pos) = Some (buf, h')"
    and left: "left s = buf @ fh_Name h' @ fh_Extra h' @ fh_Comment h' @ rest"
  shows "\<exists>f s'. readDirectoryHeader ops (empty_file sz) s = (Inr f, s') \<and> left s' = rest \<and>
    fh_Name (f_header f) = fh_Name fh \<and> fh_Comment (f_header f) = fh_Comment fh \<and> fh_Method (f_header f) = fh_Method fh \<and>
    fh_ExternalAttrs (f_header f) = fh_ExternalAttrs fh \<and> fh_CRC32 (f_header f) = crc \<and>
    fh_CompressedSize64 (f_header f) = word_of_int c \<and> fh_UncompressedSize64 (f_header f) = word_of_int u \<and>
    f_headerOffset f = int pos \<and>
    (zip_time (fh_Modified fh) \<longrightarrow>
      fh_Modified (f_header f) = \<lparr>lt_time = \<lparr>t_sec = t_sec (lt_time (fh_Modified fh)), t_nsec = 0\<rparr>,
                                  lt_loc = FixedZone (loc_offset (lt_loc (fh_Modified fh)))\<rparr>)"
proof -
  let ?h = "close_header crc c u h0" and ?t = "fh_Modified fh"
  have k0: "kept fh h0" using prepare_header_kept [of fh] h0(2) by simp
  then have k: "kept fh ?h" by (rule kept_close)
  have st: "stamp_of ?h = stamp_of fh" using k by (simp add: stamp_of_def kept_def)
  obtain fs where wf: "entry_wf ?h (of_nat pos)" "stamped fs (stamp_of fh) ?h"
    using entry_wf_close [OF h0(1) k0 pos, of crc c u] unfolding st by blast
  have "left s = dir_bytes ?h (of_nat pos) @ rest" using left e by (auto simp: dir_entry_bytes dir_bytes_def)
  then obtain s' where s': "readDirectoryHeader ops (empty_file sz) s = (Inr (read_file sz (stamp_of fh) ?h (of_nat pos)), s')" "left s' = rest"
    by (rule io_reader.readDirectoryHeader_entry [OF rd _ wf])
  have "dir_modified ?h (stamp_time (stamp_of fh)) =
      \<lparr>lt_time = \<lparr>t_sec = t_sec (lt_time ?t), t_nsec = 0\<rparr>, lt_loc = FixedZone (loc_offset (lt_loc ?t))\<rparr>" if z: "zip_time ?t"
    using prepare_header_times [OF h0(2) zip_time_set [OF z]] dir_modified_restored [OF z, of ?h] by (simp add: close_header_times)
  moreover have "sint (of_nat pos :: 64 word) = int pos" using pos by (rule sint_of_nat64)
  ultimately show ?thesis
    using s' k by (intro exI [of _ "read_file sz (stamp_of fh) ?h (of_nat pos)"] exI [of _ s'])
      (simp add: read_file_def kept_def close_header_sizes)
qed

definition new_year :: loctime where
  "new_year = \<lparr>lt_time = \<lparr>t_sec = 63713433599, t_nsec = 7\<rparr>, lt_loc = FixedZone 3600\<rparr>"

lemma new_year_zip: "zip_time new_year"
  by (simp add: zip_time_def new_year_def in_i64_def Unix_of_def unixToInternal_def i64_def time_Year_def local_secs_def year_of_day_def
      days_before_year_def Let_def)

theorem dir_entry_roundtrip_witness:
  "\<exists>h0 buf h' f s'. prepare_header (new_FileHeader\<lparr>fh_Name := [97], fh_Modified := new_year\<rparr>) = Some h0 \<and>
     dir_entry (close_header 1 5000000000 6000000000 h0) 7000000000 = Some (buf, h') \<and>
     readDirectoryHeader bytes_ops (empty_file 0) \<lparr>br_data = buf @ fh_Name h' @ fh_Extra h' @ fh_Comment h' @ [1, 2], br_off = 0\<rparr> = (Inr f, s') \<and>
     bytes_left s' = [1, 2] \<and> f_headerOffset f = 7000000000 \<and> fh_UncompressedSize64 (f_header f) = 6000000000 \<and>
     fh_Modified (f_header f) = new_year\<lparr>lt_time := \<lparr>t_sec = 63713433599, t_nsec = 0\<rparr>\<rparr>"
proof -
  let ?fh = "new_FileHeader\<lparr>fh_Name := [97], fh_Modified := new_year\<rparr>"
  have st: "storable ?fh"
    by (auto simp: new_FileHeader_def storable_def ValidString.simps DecodeRune_def RuneError_def intro: exI [of _ "[]"])
  obtain h0 where h0: "prepare_header ?fh = Some h0" using prepare_header_kept by blast
  obtain buf h' where e: "dir_entry (close_header 1 5000000000 6000000000 h0) (of_nat 7000000000) = Some (buf, h')" unfolding dir_entry_bytes by blast
  let ?s = "\<lparr>br_data = buf @ fh_Name h' @ fh_Extra h' @ fh_Comment h' @ [1, 2], br_off = 0\<rparr>"
  have l: "bytes_left ?s = buf @ fh_Name h' @ fh_Extra h' @ fh_Comment h' @ [1, 2]" by (simp add: bytes_left_def)
  obtain f s' where "readDirectoryHeader bytes_ops (empty_file 0) ?s = (Inr f, s')" "bytes_left s' = [1, 2]" "f_headerOffset f = int 7000000000"
      "fh_UncompressedSize64 (f_header f) = word_of_int 6000000000"
      "fh_Modified (f_header f) = \<lparr>lt_time = \<lparr>t_sec = t_sec (lt_time new_year), t_nsec = 0\<rparr>, lt_loc = FixedZone (loc_offset (lt_loc new_year))\<rparr>"
    using dir_entry_roundtrip [OF bytes.io_reader_axioms TrueI subset_refl st h0 _ e l, where sz = 0] new_year_zip by auto
  moreover have "(of_nat 7000000000 :: 64 word) = 7000000000" by simp
  ultimately show ?thesis using h0 e by (intro exI [of _ h0] exI [of _ buf] exI [of _ h'] exI [of _ f] exI [of _ s']) (simp add: new_year_def)
qed

end
