(* ===== verification/Pflate.thy ===== *)
theory Pflate
  imports Go_Bufio
begin

text \<open>
  The file \<^verbatim>\<open>pflate/pflate.go\<close>: a writer that splits its data into blocks and compresses them in
  parallel. \<^verbatim>\<open>Write\<close>, \<^verbatim>\<open>Flush\<close>, \<^verbatim>\<open>Close\<close> and \<^verbatim>\<open>Reset\<close> run in the
  caller's goroutine; each block is compressed in a goroutine of its own (\<^verbatim>\<open>compressBlock\<close>), and another one
  takes the results in the order of the blocks from the channel \<^verbatim>\<open>results\<close> and writes them.

  Each goroutine is a program counter with a step function; between two operations on channels, locks or the
  shared writer a goroutine works on its own data, so a step goes from one such operation to the next. A step
  function is undefined where the goroutine is blocked or has ended. The state of the system is \<open>pf_machine\<close>, a step
  of the system is a step of any goroutine (\<open>pf_step\<close>), and \<open>pf_session\<close> are the states that a
  sequence of calls can reach under every scheduling.
\<close>

section \<open>Bytes\<close>

definition put2 :: "byte list \<Rightarrow> 16 word \<Rightarrow> byte list" where
  "put2 p v = p[0 := ucast v, 1 := ucast (drop_bit 8 v)]"

definition put4 :: "byte list \<Rightarrow> 32 word \<Rightarrow> byte list" where
  "put4 p v = p[0 := ucast v, 1 := ucast (drop_bit 8 v), 2 := ucast (drop_bit 16 v), 3 := ucast (drop_bit 24 v)]"

section \<open>State\<close>

definition defaultBlockSize :: int where "defaultBlockSize = 262144"
definition tailSize :: nat where "tailSize = 16384"
definition defaultBlocks :: int where "defaultBlocks = 16"

text \<open>
  A \<^verbatim>\<open>result\<close>: its channel \<^verbatim>\<open>result\<close> with room for one value, whether that channel is closed, and
  whether \<^verbatim>\<open>notifyWritten\<close> is closed. Results are objects, known by their addresses.
\<close>

record pf_result =
  r_result :: "byte list option"
  r_closed :: bool
  r_notifyWritten :: bool

text \<open>A channel of results.\<close>

record pf_chan =
  ch_cap :: nat
  ch_queue :: "nat list"
  ch_closed :: bool

record 'w pf_Writer =
  z_started :: bool
  z_w :: 'w
  z_level :: int
  z_blockSize :: int
  z_blocks :: int
  z_currentBuffer :: "byte list"
  z_prevTail :: "byte list"
  z_size :: int
  z_closed :: bool
  z_buf :: "byte list"
  z_err :: "go_error option"
  z_pushedErr :: bool
  z_results :: "nat option"

text \<open>The caller's goroutine: the place in the method that it executes next. \<open>Select\<close> and \<open>Await\<close> are in
  \<^verbatim>\<open>compressCurrent\<close>.\<close>

datatype 'w pf_pc =
    Return nat "go_error option"
  | Panicked string
  | Enter_Write "byte list"
  | Write_loop "byte list" "byte list"
  | Write_check "byte list" "byte list" nat
  | Write_end "byte list"
  | Enter_Flush
  | Flush_send
  | Flush_end
  | Enter_Close
  | Close_send
  | Close_end
  | Select bool
  | Await nat
  | Enter_Reset 'w
  | Reset_wait 'w

text \<open>A goroutine of \<^verbatim>\<open>compressBlock\<close>.\<close>

datatype pf_worker =
    W_run "byte list" "byte list" nat bool
  | W_push go_error nat
  | W_close nat
  | W_done

text \<open>The goroutine that \<^verbatim>\<open>Write\<close> starts to receive the results.\<close>

datatype pf_listener =
    L_start
  | L_recv nat
  | L_result nat nat
  | L_write nat nat "byte list"
  | L_push nat go_error
  | L_exit nat
  | L_written nat nat
  | L_done

text \<open>
  The \<^verbatim>\<open>Writer\<close> with its channels and goroutines. The counter of the wait group is the number of workers
  that are not done. The pools hold scratch memory: what is taken from \<^verbatim>\<open>dstPool\<close> is emptied first, a
  compressor from \<^verbatim>\<open>dictFlatePool\<close> is reset first.
\<close>

record 'w pf_machine =
  m_z :: "'w pf_Writer"
  m_chans :: "pf_chan list"
  m_results :: "pf_result list"
  m_workers :: "pf_worker list"
  m_listeners :: "pf_listener list"
  m_pc :: "'w pf_pc"
  m_stack :: "'w pf_pc list"

abbreviation upd_z :: "('w pf_Writer \<Rightarrow> 'w pf_Writer) \<Rightarrow> 'w pf_machine \<Rightarrow> 'w pf_machine" where
  "upd_z f m \<equiv> m\<lparr>m_z := f (m_z m)\<rparr>"

abbreviation goto :: "'w pf_pc \<Rightarrow> 'w pf_machine \<Rightarrow> 'w pf_machine" where
  "goto pc m \<equiv> m\<lparr>m_pc := pc\<rparr>"

abbreviation call :: "'w pf_pc \<Rightarrow> 'w pf_pc \<Rightarrow> 'w pf_machine \<Rightarrow> 'w pf_machine" where
  "call pc k m \<equiv> m\<lparr>m_pc := pc, m_stack := k # m_stack m\<rparr>"

abbreviation make_chan :: "int \<Rightarrow> 'w pf_machine \<Rightarrow> 'w pf_machine" where
  "make_chan n m \<equiv> upd_z (\<lambda>z. z\<lparr>z_results := Some (length (m_chans m))\<rparr>)
     (m\<lparr>m_chans := m_chans m @ [\<lparr>ch_cap = nat n, ch_queue = [], ch_closed = False\<rparr>]\<rparr>)"

definition upd_chan :: "nat \<Rightarrow> (pf_chan \<Rightarrow> pf_chan) \<Rightarrow> 'w pf_machine \<Rightarrow> 'w pf_machine" where
  "upd_chan c f m = m\<lparr>m_chans := (m_chans m)[c := f (m_chans m ! c)]\<rparr>"

definition upd_result :: "nat \<Rightarrow> (pf_result \<Rightarrow> pf_result) \<Rightarrow> 'w pf_machine \<Rightarrow> 'w pf_machine" where
  "upd_result r f m = m\<lparr>m_results := (m_results m)[r := f (m_results m ! r)]\<rparr>"

section \<open>Making a Writer\<close>

text \<open>
  \<^verbatim>\<open>make(chan result, blocks)\<close> panics when the buffer, with 16 bytes for each result and 96 for the
  channel, is larger than \<open>2 ^ 48\<close> bytes: this limit, and the one of a slice, are those of the run-time on 64-bit Linux.
\<close>

definition max_chan :: int where "max_chan = 2 ^ 44 - 6"

definition SetConcurrency :: "int \<Rightarrow> int \<Rightarrow> 'w pf_machine \<Rightarrow> go_error option \<times> 'w pf_machine" where
  "SetConcurrency blockSize blocks m =
     (if blockSize \<le> int tailSize then (Some (ErrMsg ''gzip: block size cannot be less than or equal to 16384''), m)
      else if blocks \<le> 0 then (Some (ErrMsg ''gzip: blocks cannot be zero or less''), m)
      else if blockSize = z_blockSize (m_z m) \<and> blocks = z_blocks (m_z m) then (None, m)
      else if max_chan < blocks then (Some (Panic ''makechan: size out of range''), upd_z (\<lambda>z. z\<lparr>z_blockSize := blockSize\<rparr>) m)
      else (None, upd_z (\<lambda>z. z\<lparr>z_blocks := blocks\<rparr>) (make_chan blocks (upd_z (\<lambda>z. z\<lparr>z_blockSize := blockSize\<rparr>) m))))"

text \<open>\<^verbatim>\<open>init\<close> after \<^verbatim>\<open>z.wg.Wait()\<close>.\<close>

definition pf_init :: "'w \<Rightarrow> int \<Rightarrow> 'w pf_machine \<Rightarrow> 'w pf_machine" where
  "pf_init w level m =
     upd_z (\<lambda>z. z\<lparr>z_err := None, z_closed := False, z_currentBuffer := [], z_buf := replicate 10 0, z_prevTail := [], z_size := 0\<rparr>)
       (make_chan (z_blocks (m_z m)) (upd_z (\<lambda>z. z\<lparr>z_started := False, z_w := w, z_level := level, z_pushedErr := False\<rparr>) m))"

text \<open>The value of \<^verbatim>\<open>new(Writer)\<close>; the field \<^verbatim>\<open>w\<close> is set before it is used.\<close>

definition new_Writer :: "'w \<Rightarrow> 'w pf_machine" where
  "new_Writer w =
     \<lparr>m_z = \<lparr>z_started = False, z_w = w, z_level = 0, z_blockSize = 0, z_blocks = 0, z_currentBuffer = [], z_prevTail = [], z_size = 0,
              z_closed = False, z_buf = replicate 10 0, z_err = None, z_pushedErr = False, z_results = None\<rparr>,
      m_chans = [], m_results = [], m_workers = [], m_listeners = [], m_pc = Return 0 None, m_stack = []\<rparr>"

definition pf_NewWriter :: "'w \<Rightarrow> int \<Rightarrow> 'w pf_machine result" where
  "pf_NewWriter w level =
     (if level < - 2 \<or> 9 < level then Inl (ErrMsg ''gzip: invalid compression level'')
      else Inr (pf_init w level (snd (SetConcurrency defaultBlockSize defaultBlocks (new_Writer w)))))"

definition writeBytes :: "'w io_writer_ops \<Rightarrow> byte list \<Rightarrow> 'w pf_Writer \<Rightarrow> go_error option \<times> 'w pf_Writer" where
  "writeBytes wops b z =
     (if 0xffff < length b then (Some (ErrMsg ''pflate.Write: Extra data is too large''), z)
      else let buf = put2 (take 2 (z_buf z)) (of_nat (length b)) @ drop 2 (z_buf z)
           in case op_write wops (z_w z) (take 2 buf) of
                (_, Some e, w) \<Rightarrow> (Some e, z\<lparr>z_buf := buf, z_w := w\<rparr>)
              | (_, None, w) \<Rightarrow> (case op_write wops w b of (_, e, w) \<Rightarrow> (e, z\<lparr>z_buf := buf, z_w := w\<rparr>)))"

section \<open>The caller's goroutine\<close>

definition pushError :: "go_error \<Rightarrow> 'w pf_Writer \<Rightarrow> 'w pf_Writer" where
  "pushError e z = (if z_err z \<noteq> None then z else z\<lparr>z_err := Some e, z_pushedErr := True\<rparr>)"

text \<open>
  The first part of \<^verbatim>\<open>Write\<close>. A slice of more than \<open>2 ^ 48\<close> bytes cannot be made; the scratch memory of the pools is
  not modelled, and the theorems take blocks of at most \<open>2 ^ 47\<close> bytes, for which it can.
\<close>

definition start_Writer :: "'w pf_machine \<Rightarrow> 'w pf_machine option" where
  "start_Writer m =
     (if z_started (m_z m) then Some m
      else if z_blockSize (m_z m) < 0 \<or> 2 ^ 48 < z_blockSize (m_z m) then None
      else Some (upd_z (\<lambda>z. z\<lparr>z_started := True, z_currentBuffer := []\<rparr>) (m\<lparr>m_listeners := m_listeners m @ [L_start]\<rparr>)))"

text \<open>A round of the loop of \<^verbatim>\<open>Write\<close> up to the call of \<^verbatim>\<open>compressCurrent\<close>.\<close>

definition write_round :: "byte list \<Rightarrow> byte list \<Rightarrow> 'w pf_machine \<Rightarrow> 'w pf_machine" where
  "write_round p q m =
     (let z = m_z m; cur = z_currentBuffer z;
          n = (if z_blockSize z < int (length q) + int (length cur) then z_blockSize z - int (length cur) else int (length q))
      in if n < 0 then goto (Panicked ''slice bounds out of range'') m
         else
           let cur = cur @ take (nat n) q; m = upd_z (\<lambda>z. z\<lparr>z_currentBuffer := cur\<rparr>) m
           in if z_blockSize z \<le> int (length cur) then call (Select False) (Write_check p q (nat n)) m
              else goto (Write_loop p (drop (nat n) q)) (upd_z (\<lambda>z. z\<lparr>z_size := i64 (z_size z + n)\<rparr>) m))"

definition resume :: "nat \<Rightarrow> go_error option \<Rightarrow> 'w pf_pc \<Rightarrow> 'w pf_pc" where
  "resume n e k =
     (case k of
        Flush_send \<Rightarrow> if e \<noteq> None then Return 0 e else k
      | Close_send \<Rightarrow> if e \<noteq> None then Return 0 e else k
      | _ \<Rightarrow> k)"

definition closeResults :: "'w pf_machine \<Rightarrow> 'w pf_machine option" where
  "closeResults m =
     (case z_results (m_z m) of
        None \<Rightarrow> None
      | Some c \<Rightarrow> if ch_closed (m_chans m ! c) then None else Some (upd_chan c (\<lambda>ch. ch\<lparr>ch_closed := True\<rparr>) m))"

definition checkError :: "'w pf_machine \<Rightarrow> go_error option" where
  "checkError m = z_err (m_z m)"

text \<open>\<^verbatim>\<open>Write\<close>: its beginning, a round of its loop, what follows \<^verbatim>\<open>compressCurrent\<close> there, and its end.\<close>

definition Write_step :: "'w pf_pc \<Rightarrow> 'w pf_machine \<Rightarrow> 'w pf_machine option" where
  "Write_step pc m =
     (case pc of
        Enter_Write p \<Rightarrow>
          (case checkError m of
             Some e \<Rightarrow> Some (goto (Return 0 (Some e)) m)
           | None \<Rightarrow> (case start_Writer m of
                        None \<Rightarrow> Some (goto (Panicked ''makeslice: cap out of range'')
                          (upd_z (\<lambda>z. z\<lparr>z_started := True\<rparr>) (m\<lparr>m_listeners := m_listeners m @ [L_start]\<rparr>)))
                      | Some m \<Rightarrow> Some (goto (Write_loop p p) m)))
      | Write_loop p q \<Rightarrow> Some (if q = [] then goto (Write_end p) m else write_round p q m)
      | Write_check p q n \<Rightarrow>
          (case checkError m of
             Some e \<Rightarrow> Some (goto (Return (length p - length q - n) (Some e)) m)
           | None \<Rightarrow> Some (goto (Write_loop p (drop n q)) (upd_z (\<lambda>z. z\<lparr>z_size := i64 (z_size z + int n)\<rparr>) m)))
      | Write_end p \<Rightarrow> Some (goto (Return (length p) (checkError m)) m)
      | _ \<Rightarrow> None)"

definition Flush_step :: "'w pf_pc \<Rightarrow> 'w pf_machine \<Rightarrow> 'w pf_machine option" where
  "Flush_step pc m =
     (case pc of
        Enter_Flush \<Rightarrow>
          (case checkError m of
             Some e \<Rightarrow> Some (goto (Return 0 (Some e)) m)
           | None \<Rightarrow> Some (if z_closed (m_z m) then goto (Return 0 None) m
                           else if \<not> z_started (m_z m) then call (Enter_Write []) Flush_send m
                           else goto Flush_send m))
      | Flush_send \<Rightarrow> Some (call (Select True) Flush_end m)
      | Flush_end \<Rightarrow> Some (goto (Return 0 (checkError m)) m)
      | _ \<Rightarrow> None)"

definition Close_step :: "'w pf_pc \<Rightarrow> 'w pf_machine \<Rightarrow> 'w pf_machine option" where
  "Close_step pc m =
     (case pc of
        Enter_Close \<Rightarrow>
          (case checkError m of
             Some e \<Rightarrow> Some (goto (Return 0 (Some e)) m)
           | None \<Rightarrow> Some (if z_closed (m_z m) then goto (Return 0 None) m
                           else let m = upd_z (\<lambda>z. z\<lparr>z_closed := True\<rparr>) m
                                in if \<not> z_started (m_z m) then call (Enter_Write []) Close_send m
                                   else goto Close_send m))
      | Close_send \<Rightarrow> Some (call (Select True) Close_end m)
      | Close_end \<Rightarrow>
          (case checkError m of
             Some e \<Rightarrow> Some (goto (Return 0 (Some e)) m)
           | None \<Rightarrow> (case closeResults m of
                        None \<Rightarrow> Some (goto (Panicked ''close of closed channel'') m)
                      | Some m \<Rightarrow> Some (goto (Return 0 None) m)))
      | _ \<Rightarrow> None)"

definition Reset_step :: "'w pf_pc \<Rightarrow> 'w pf_machine \<Rightarrow> 'w pf_machine option" where
  "Reset_step pc m =
     (case pc of
        Enter_Reset w \<Rightarrow>
          (case (if z_results (m_z m) \<noteq> None \<and> \<not> z_closed (m_z m) then closeResults m else Some m) of
             None \<Rightarrow> Some (goto (Panicked ''close of closed channel'') m)
           | Some m \<Rightarrow> Some (goto (Reset_wait w) (snd (SetConcurrency defaultBlockSize defaultBlocks m))))
      | Reset_wait w \<Rightarrow>
          if list_all (\<lambda>x. x = W_done) (m_workers m) then Some (goto (Return 0 None) (pf_init w (z_level (m_z m)) m)) else None
      | _ \<Rightarrow> None)"

text \<open>
  A step of the caller's goroutine: a return to the calling method, the wait at the end of \<^verbatim>\<open>compressCurrent\<close>,
  or a step of the method. In the \<^verbatim>\<open>select\<close> there are two other steps, below.
\<close>

definition main_step :: "'w pf_machine \<Rightarrow> 'w pf_machine option" where
  "main_step m =
     (case m_pc m of
        Return n e \<Rightarrow> (case m_stack m of [] \<Rightarrow> None | k # ks \<Rightarrow> Some (m\<lparr>m_pc := resume n e k, m_stack := ks\<rparr>))
      | Panicked s \<Rightarrow> None
      | Select flush \<Rightarrow> None
      | Await r \<Rightarrow> if r_notifyWritten (m_results m ! r) then Some (goto (Return 0 None) m) else None
      | Enter_Write p \<Rightarrow> Write_step (m_pc m) m
      | Write_loop p q \<Rightarrow> Write_step (m_pc m) m
      | Write_check p q n \<Rightarrow> Write_step (m_pc m) m
      | Write_end p \<Rightarrow> Write_step (m_pc m) m
      | Enter_Flush \<Rightarrow> Flush_step (m_pc m) m
      | Flush_send \<Rightarrow> Flush_step (m_pc m) m
      | Flush_end \<Rightarrow> Flush_step (m_pc m) m
      | Enter_Close \<Rightarrow> Close_step (m_pc m) m
      | Close_send \<Rightarrow> Close_step (m_pc m) m
      | Close_end \<Rightarrow> Close_step (m_pc m) m
      | Enter_Reset w \<Rightarrow> Reset_step (m_pc m) m
      | Reset_wait w \<Rightarrow> Reset_step (m_pc m) m)"

lemmas main_step_defs = main_step_def Write_step_def Flush_step_def Close_step_def Reset_step_def checkError_def

text \<open>The two cases of the \<^verbatim>\<open>select\<close> of \<^verbatim>\<open>compressCurrent\<close>.\<close>

definition dispatch :: "bool \<Rightarrow> nat \<Rightarrow> 'w pf_machine \<Rightarrow> 'w pf_machine" where
  "dispatch flush r m =
     (let z = m_z m; c = z_currentBuffer z
      in if 2 * z_blockSize z < int (length c) then
           let B = nat (z_blockSize z); c = take B c
           in goto (Select flush)
                (upd_z (\<lambda>z. z\<lparr>z_prevTail := drop (length c - tailSize) c, z_currentBuffer := drop B (z_currentBuffer z)\<rparr>)
                  (m\<lparr>m_workers := m_workers m @ [W_run c (z_prevTail z) r False]\<rparr>))
         else
           goto (if flush then Await r else Return 0 None)
             (upd_z (\<lambda>z. z\<lparr>z_prevTail := (if tailSize < length c then drop (length c - tailSize) c else []), z_currentBuffer := []\<rparr>)
               (m\<lparr>m_workers := m_workers m @ [W_run c (z_prevTail z) r (z_closed z)]\<rparr>)))"

definition select_send :: "'w pf_machine \<Rightarrow> 'w pf_machine option" where
  "select_send m =
     (case (m_pc m, z_results (m_z m)) of
        (Select flush, Some c) \<Rightarrow>
          let ch = m_chans m ! c; r = length (m_results m)
          in if ch_closed ch then Some (goto (Panicked ''send on closed channel'') m)
             else if length (ch_queue ch) < ch_cap ch then
               Some (dispatch flush r (upd_chan c (\<lambda>ch. ch\<lparr>ch_queue := ch_queue ch @ [r]\<rparr>)
                 (m\<lparr>m_results := m_results m @ [\<lparr>r_result = None, r_closed = False, r_notifyWritten = False\<rparr>]\<rparr>)))
             else None
      | _ \<Rightarrow> None)"

definition select_pushedErr :: "'w pf_machine \<Rightarrow> 'w pf_machine option" where
  "select_pushedErr m =
     (case m_pc m of
        Select flush \<Rightarrow> if z_pushedErr (m_z m) then Some (goto (Return 0 None) m) else None
      | _ \<Rightarrow> None)"

section \<open>The other goroutines\<close>

text \<open>
  \<^verbatim>\<open>compressBlock\<close>. What the third-party package \<^verbatim>\<open>flate\<close> makes of a block, with a level, a
  preset dictionary and whether the stream is closed after it, is the parameter \<open>deflate\<close>.
\<close>

type_synonym pf_deflate = "int \<Rightarrow> byte list \<Rightarrow> byte list \<Rightarrow> bool \<Rightarrow> byte list result"

definition compressBlock_step :: "pf_deflate \<Rightarrow> nat \<Rightarrow> 'w pf_machine \<Rightarrow> 'w pf_machine option" where
  "compressBlock_step deflate i m =
     (case m_workers m ! i of
        W_run p prevTail r closed \<Rightarrow>
          (case deflate (z_level (m_z m)) prevTail p closed of
             Inl e \<Rightarrow> Some (m\<lparr>m_workers := (m_workers m)[i := W_push e r]\<rparr>)
           | Inr buf \<Rightarrow> Some (upd_result r (\<lambda>x. x\<lparr>r_result := Some buf\<rparr>) (m\<lparr>m_workers := (m_workers m)[i := W_close r]\<rparr>)))
      | W_push e r \<Rightarrow> Some (upd_z (pushError e) (m\<lparr>m_workers := (m_workers m)[i := W_close r]\<rparr>))
      | W_close r \<Rightarrow> Some (upd_result r (\<lambda>x. x\<lparr>r_closed := True\<rparr>) (m\<lparr>m_workers := (m_workers m)[i := W_done]\<rparr>))
      | W_done \<Rightarrow> None)"

abbreviation set_listener :: "nat \<Rightarrow> pf_listener \<Rightarrow> 'w pf_machine \<Rightarrow> 'w pf_machine" where
  "set_listener j l m \<equiv> m\<lparr>m_listeners := (m_listeners m)[j := l]\<rparr>"

definition listener_step :: "'w io_writer_ops \<Rightarrow> nat \<Rightarrow> 'w pf_machine \<Rightarrow> 'w pf_machine option" where
  "listener_step wops j m =
     (case m_listeners m ! j of
        L_start \<Rightarrow> (case z_results (m_z m) of None \<Rightarrow> None | Some c \<Rightarrow> Some (set_listener j (L_recv c) m))
      | L_recv c \<Rightarrow>
          (case ch_queue (m_chans m ! c) of
             r # rs \<Rightarrow> Some (set_listener j (L_result c r) (upd_chan c (\<lambda>ch. ch\<lparr>ch_queue := rs\<rparr>) m))
           | [] \<Rightarrow> if ch_closed (m_chans m ! c) then Some (set_listener j L_done m) else None)
      | L_result c r \<Rightarrow>
          (case r_result (m_results m ! r) of
             Some buf \<Rightarrow> Some (set_listener j (L_write c r buf) (upd_result r (\<lambda>x. x\<lparr>r_result := None\<rparr>) m))
           | None \<Rightarrow> if r_closed (m_results m ! r) then Some (set_listener j (L_write c r []) m) else None)
      | L_write c r buf \<Rightarrow>
          (case op_write wops (z_w (m_z m)) buf of
             (n, err, w) \<Rightarrow>
               Some (set_listener j (case err of Some e \<Rightarrow> L_push r e
                                     | None \<Rightarrow> if n \<noteq> length buf then L_push r (ErrMsg ''gzip: short write'') else L_written c r)
                       (upd_z (\<lambda>z. z\<lparr>z_w := w\<rparr>) m)))
      | L_push r e \<Rightarrow> Some (set_listener j (L_exit r) (upd_z (pushError e) m))
      | L_exit r \<Rightarrow> Some (set_listener j L_done (upd_result r (\<lambda>x. x\<lparr>r_notifyWritten := True\<rparr>) m))
      | L_written c r \<Rightarrow> Some (set_listener j (L_recv c) (upd_result r (\<lambda>x. x\<lparr>r_notifyWritten := True\<rparr>) m))
      | L_done \<Rightarrow> None)"

text \<open>A step of any goroutine.\<close>

inductive pf_step :: "'w io_writer_ops \<Rightarrow> pf_deflate \<Rightarrow> 'w pf_machine \<Rightarrow> 'w pf_machine \<Rightarrow> bool" for wops deflate where
  main: "main_step m = Some m' \<Longrightarrow> pf_step wops deflate m m'"
| send: "select_send m = Some m' \<Longrightarrow> pf_step wops deflate m m'"
| pushed: "select_pushedErr m = Some m' \<Longrightarrow> pf_step wops deflate m m'"
| worker: "i < length (m_workers m) \<Longrightarrow> compressBlock_step deflate i m = Some m' \<Longrightarrow> pf_step wops deflate m m'"
| listener: "j < length (m_listeners m) \<Longrightarrow> listener_step wops j m = Some m' \<Longrightarrow> pf_step wops deflate m m'"

text \<open>Calls of methods, one after another, from one goroutine.\<close>

datatype 'w pf_call = PWrite "byte list" | PFlush | PClose | PReset 'w

fun enter :: "'w pf_call \<Rightarrow> 'w pf_pc" where
  "enter (PWrite p) = Enter_Write p"
| "enter PFlush = Enter_Flush"
| "enter PClose = Enter_Close"
| "enter (PReset w) = Enter_Reset w"

definition returned :: "'w pf_machine \<Rightarrow> bool" where
  "returned m \<longleftrightarrow> (\<exists>n e. m_pc m = Return n e) \<and> m_stack m = []"

text \<open>The states reached from a \<^verbatim>\<open>Writer\<close> with the calls made so far, under every scheduling.\<close>

inductive pf_session :: "'w io_writer_ops \<Rightarrow> pf_deflate \<Rightarrow> 'w pf_machine \<Rightarrow> 'w pf_call list \<Rightarrow> 'w pf_machine \<Rightarrow> bool"
    for wops deflate m0 where
  start: "pf_session wops deflate m0 [] m0"
| step: "pf_session wops deflate m0 cs m \<Longrightarrow> pf_step wops deflate m m' \<Longrightarrow> pf_session wops deflate m0 cs m'"
| invoke: "pf_session wops deflate m0 cs m \<Longrightarrow> returned m \<Longrightarrow> pf_session wops deflate m0 (cs @ [c]) (goto (enter c) m)"

end
