(* ===== verification/Pflate_Spec.thy ===== *)
theory Pflate_Spec
  imports Pflate
begin

text \<open>
  The specification of \<^verbatim>\<open>pflate.Writer\<close>: the blocks that a sequence of calls is split into, with no
  goroutines, and the predicates that describe where each goroutine stands.
\<close>

section \<open>The blocks of a sequence of calls\<close>

text \<open>
  The specification, with no goroutines in it: a block is the dictionary, the data, and whether it is the
  last one; the state is what is buffered, the dictionary of the next block and whether the stream is closed. These are the loop of
  \<^verbatim>\<open>Write\<close> and the dispatch of \<^verbatim>\<open>compressCurrent\<close> where no error has been pushed; buffers longer than two
  blocks, which \<^verbatim>\<open>compressCurrent\<close> would split, do not come up.
\<close>

type_synonym pf_block = "byte list \<times> byte list \<times> bool"

type_synonym pf_split = "byte list \<times> byte list \<times> bool"

definition tail_of :: "byte list \<Rightarrow> byte list" where
  "tail_of c = (if tailSize < length c then drop (length c - tailSize) c else [])"

function split_write :: "nat \<Rightarrow> byte list \<Rightarrow> pf_split \<Rightarrow> pf_block list \<times> pf_split" where
  "split_write B q (buf, tail, cl) =
     (if length buf + length q < B \<or> B = 0 then ([], buf @ q, tail, cl)
      else
        let c = buf @ take (B - length buf) q;
            (bs, st) = split_write B (drop (B - length buf) q) ([], tail_of c, cl)
        in ((tail, c, cl) # bs, st))"
  by pat_completeness auto
termination
  by (relation "measure (\<lambda>(B, q, buf, tail, cl). length buf + length q)") auto

declare split_write.simps [simp del]

definition split_emit :: "pf_split \<Rightarrow> pf_block list \<times> pf_split" where
  "split_emit = (\<lambda>(buf, tail, cl). ([(tail, buf, cl)], [], tail_of buf, cl))"

fun split_call :: "nat \<Rightarrow> 'w pf_call \<Rightarrow> pf_split \<Rightarrow> pf_block list \<times> pf_split" where
  "split_call B (PWrite p) st = split_write B p st"
| "split_call B PFlush (buf, tail, cl) = (if cl then ([], buf, tail, cl) else split_emit (buf, tail, cl))"
| "split_call B PClose (buf, tail, cl) = (if cl then ([], buf, tail, cl) else split_emit (buf, tail, True))"
| "split_call B (PReset w) st = ([], [], [], False)"

definition split_seq :: "(pf_split \<Rightarrow> pf_block list \<times> pf_split) \<Rightarrow> pf_block list \<times> pf_split \<Rightarrow> pf_block list \<times> pf_split" where
  "split_seq f = (\<lambda>(bs, st). case f st of (bs', st') \<Rightarrow> (bs @ bs', st'))"

definition split_calls :: "nat \<Rightarrow> 'w pf_call list \<Rightarrow> pf_block list \<times> pf_split" where
  "split_calls B cs = foldl (\<lambda>s c. split_seq (split_call B c) s) ([], [], [], False) cs"

definition blocks_of :: "nat \<Rightarrow> 'w pf_call list \<Rightarrow> pf_block list" where
  "blocks_of B cs = fst (split_calls B cs)"

lemma split_calls_simps [simp]:
  "split_calls B [] = ([], [], [], False)" "split_calls B (cs @ [c]) = split_seq (split_call B c) (split_calls B cs)"
  by (simp_all add: split_calls_def)

text \<open>Calls in the order that the documentation asks for: nothing is written after \<^verbatim>\<open>Close\<close>; no
  \<^verbatim>\<open>Reset\<close>.\<close>

fun proper_from :: "bool \<Rightarrow> 'w pf_call list \<Rightarrow> bool" where
  "proper_from cl [] \<longleftrightarrow> True"
| "proper_from cl (PWrite p # cs) \<longleftrightarrow> \<not> cl \<and> proper_from cl cs"
| "proper_from cl (PFlush # cs) \<longleftrightarrow> proper_from cl cs"
| "proper_from cl (PClose # cs) \<longleftrightarrow> proper_from True cs"
| "proper_from cl (PReset w # cs) \<longleftrightarrow> False"

abbreviation "proper cs \<equiv> proper_from False cs"

definition closes :: "'w pf_call list \<Rightarrow> bool" where
  "closes cs \<longleftrightarrow> PClose \<in> set cs"

lemma proper_snoc:
  "proper_from cl (cs @ [c]) \<longleftrightarrow> proper_from cl cs \<and>
     (case c of PWrite p \<Rightarrow> \<not> cl \<and> PClose \<notin> set cs | PReset w \<Rightarrow> False | _ \<Rightarrow> True)"
  by (induction cl cs rule: proper_from.induct) (auto split: pf_call.splits)

text \<open>What is still to be done at a place in the code.\<close>

fun pc_rest :: "nat \<Rightarrow> 'w pf_pc \<Rightarrow> pf_split \<Rightarrow> pf_block list \<times> pf_split" where
  "pc_rest B (Enter_Write p) st = split_write B p st"
| "pc_rest B (Write_loop p q) st = split_write B q st"
| "pc_rest B (Write_check p q n) st = split_write B (drop n q) st"
| "pc_rest B Enter_Flush st = split_call B (PFlush :: unit pf_call) st"
| "pc_rest B Flush_send st = split_emit st"
| "pc_rest B Enter_Close st = split_call B (PClose :: unit pf_call) st"
| "pc_rest B Close_send st = split_emit st"
| "pc_rest B (Select flush) st = split_emit st"
| "pc_rest B _ st = ([], st)"

definition rest :: "nat \<Rightarrow> 'w pf_pc list \<Rightarrow> pf_block list \<times> pf_split \<Rightarrow> pf_block list \<times> pf_split" where
  "rest B pcs s = foldl (\<lambda>s k. split_seq (pc_rest B k) s) s pcs"

lemma rest_simps [simp]: "rest B [] s = s" "rest B (k # ks) s = rest B ks (split_seq (pc_rest B k) s)"
  by (simp_all add: rest_def)

lemma split_seq_simp [simp]: "split_seq f (bs, st) = (case f st of (bs', st') \<Rightarrow> (bs @ bs', st'))"
  by (simp add: split_seq_def)

section \<open>The state between steps\<close>

text \<open>Where a listener stands: how many results it has received, taken, written and reported as written.\<close>

fun listener_at :: "nat \<Rightarrow> (nat \<Rightarrow> byte list) \<Rightarrow> pf_listener \<Rightarrow> nat \<Rightarrow> nat \<Rightarrow> nat \<Rightarrow> nat \<Rightarrow> bool" where
  "listener_at c f L_start rc tk wr nt \<longleftrightarrow> rc = 0 \<and> tk = 0 \<and> wr = 0 \<and> nt = 0"
| "listener_at c f (L_recv c') rc tk wr nt \<longleftrightarrow> c' = c \<and> tk = rc \<and> wr = rc \<and> nt = rc"
| "listener_at c f (L_result c' r) rc tk wr nt \<longleftrightarrow> c' = c \<and> rc = Suc r \<and> tk = r \<and> wr = r \<and> nt = r"
| "listener_at c f (L_write c' r b) rc tk wr nt \<longleftrightarrow> c' = c \<and> b = f r \<and> rc = Suc r \<and> tk = Suc r \<and> wr = r \<and> nt = r"
| "listener_at c f (L_written c' r) rc tk wr nt \<longleftrightarrow> c' = c \<and> rc = Suc r \<and> tk = Suc r \<and> wr = Suc r \<and> nt = r"
| "listener_at c f L_done rc tk wr nt \<longleftrightarrow> tk = rc \<and> wr = rc \<and> nt = rc"
| "listener_at c f _ rc tk wr nt \<longleftrightarrow> False"

text \<open>The worker and the result of a block.\<close>

definition worker_at :: "nat \<Rightarrow> pf_block \<Rightarrow> byte list \<Rightarrow> bool \<Rightarrow> pf_worker \<Rightarrow> pf_result \<Rightarrow> bool" where
  "worker_at i b z taken w r \<longleftrightarrow>
     (case w of
        W_run p t r' cl \<Rightarrow> r' = i \<and> (t, p, cl) = b \<and> r_result r = None \<and> \<not> r_closed r \<and> \<not> taken
      | W_push e r' \<Rightarrow> False
      | W_close r' \<Rightarrow> r' = i \<and> r_result r = (if taken then None else Some z)
      | W_done \<Rightarrow> r_result r = (if taken then None else Some z))"

definition block_bytes :: "(byte list \<Rightarrow> byte list \<Rightarrow> bool \<Rightarrow> byte list) \<Rightarrow> pf_block \<Rightarrow> byte list" where
  "block_bytes deflated = (\<lambda>(t, p, cl). deflated t p cl)"

text \<open>A \<^verbatim>\<open>Writer\<close> that is ready for its first call.\<close>

definition fresh :: "nat \<Rightarrow> 'w pf_machine \<Rightarrow> bool" where
  "fresh B m \<longleftrightarrow> m_pc m = Return 0 None \<and> m_stack m = [] \<and> m_results m = [] \<and> m_workers m = [] \<and> m_listeners m = [] \<and>
     z_blockSize (m_z m) = int B \<and> tailSize < B \<and> B \<le> 2 ^ 47 \<and> \<not> z_started (m_z m) \<and> z_err (m_z m) = None \<and> \<not> z_pushedErr (m_z m) \<and>
     z_currentBuffer (m_z m) = [] \<and> z_prevTail (m_z m) = [] \<and> \<not> z_closed (m_z m) \<and>
     (\<exists>c. z_results (m_z m) = Some c \<and> c < length (m_chans m) \<and> 0 < ch_cap (m_chans m ! c) \<and> ch_queue (m_chans m ! c) = [] \<and>
          \<not> ch_closed (m_chans m ! c))"

text \<open>
  The place of the caller: the current call, whether the goroutine of the results runs, \<^verbatim>\<open>closed\<close>, whether
  the channel is closed, the length of the buffer, and the numbers of blocks dispatched and reported.
\<close>

definition syncing :: "'w pf_call option \<Rightarrow> bool \<Rightarrow> bool \<Rightarrow> 'w pf_pc \<Rightarrow> 'w pf_pc \<Rightarrow> 'w pf_pc list \<Rightarrow> bool" where
  "syncing c zc cc kf kc ks \<longleftrightarrow> \<not> cc \<and> (ks = [kf] \<and> \<not> zc \<and> c = Some PFlush \<or> ks = [kc] \<and> zc \<and> c = Some PClose)"

definition writing :: "'w pf_call option \<Rightarrow> bool \<Rightarrow> bool \<Rightarrow> byte list \<Rightarrow> bool" where
  "writing c zc cc p \<longleftrightarrow> \<not> zc \<and> \<not> cc \<and> c = Some (PWrite p)"

definition returns :: "'w pf_call option \<Rightarrow> nat \<Rightarrow> bool" where
  "returns c n \<longleftrightarrow> (case c of Some (PWrite p) \<Rightarrow> n = length p | _ \<Rightarrow> n = 0)"

fun in_round :: "'w pf_call option \<Rightarrow> bool \<Rightarrow> bool \<Rightarrow> 'w pf_pc list \<Rightarrow> bool" where
  "in_round c zc cc [Write_check p q n] \<longleftrightarrow> writing c zc cc p \<and> 0 < n \<and> n \<le> length q"
| "in_round c zc cc _ \<longleftrightarrow> False"

fun main_at :: "nat \<Rightarrow> 'w pf_call option \<Rightarrow> bool \<Rightarrow> bool \<Rightarrow> bool \<Rightarrow> nat \<Rightarrow> nat \<Rightarrow> nat \<Rightarrow> 'w pf_pc \<Rightarrow> 'w pf_pc list \<Rightarrow> bool" where
  "main_at B c s zc cc b N nt (Return n e) ks \<longleftrightarrow> e = None \<and> b < B \<and>
     (ks = [] \<and> zc = cc \<and> returns c n \<and> (c = Some PFlush \<or> c = Some PClose \<longrightarrow> nt = N) \<or>
      s \<and> (in_round c zc cc ks \<and> b = 0 \<or> syncing c zc cc Flush_send Close_send ks \<or> syncing c zc cc Flush_end Close_end ks \<and> nt = N))"
| "main_at B c s zc cc b N nt (Panicked x) ks \<longleftrightarrow> False"
| "main_at B c s zc cc b N nt (Enter_Write p) ks \<longleftrightarrow> b < B \<and> (ks = [] \<and> writing c zc cc p \<or> p = [] \<and> syncing c zc cc Flush_send Close_send ks)"
| "main_at B c s zc cc b N nt (Write_loop p q) ks \<longleftrightarrow> s \<and> b < B \<and> (ks = [] \<and> writing c zc cc p \<or> p = [] \<and> q = [] \<and> syncing c zc cc Flush_send Close_send ks)"
| "main_at B c s zc cc b N nt (Write_check p q n) ks \<longleftrightarrow> s \<and> b = 0 \<and> 0 < n \<and> n \<le> length q \<and> ks = [] \<and> writing c zc cc p"
| "main_at B c s zc cc b N nt (Write_end p) ks \<longleftrightarrow> s \<and> b < B \<and> (ks = [] \<and> writing c zc cc p \<or> p = [] \<and> syncing c zc cc Flush_send Close_send ks)"
| "main_at B c s zc cc b N nt Enter_Flush ks \<longleftrightarrow> b < B \<and> ks = [] \<and> zc = cc \<and> c = Some PFlush"
| "main_at B c s zc cc b N nt Flush_send ks \<longleftrightarrow> s \<and> b < B \<and> ks = [] \<and> \<not> zc \<and> \<not> cc \<and> c = Some PFlush"
| "main_at B c s zc cc b N nt Flush_end ks \<longleftrightarrow> s \<and> b < B \<and> ks = [] \<and> \<not> zc \<and> \<not> cc \<and> c = Some PFlush \<and> nt = N"
| "main_at B c s zc cc b N nt Enter_Close ks \<longleftrightarrow> b < B \<and> ks = [] \<and> zc = cc \<and> c = Some PClose"
| "main_at B c s zc cc b N nt Close_send ks \<longleftrightarrow> s \<and> b < B \<and> ks = [] \<and> zc \<and> \<not> cc \<and> c = Some PClose"
| "main_at B c s zc cc b N nt Close_end ks \<longleftrightarrow> s \<and> b < B \<and> ks = [] \<and> zc \<and> \<not> cc \<and> c = Some PClose \<and> nt = N"
| "main_at B c s zc cc b N nt (Select f) ks \<longleftrightarrow> s \<and> (\<not> f \<and> b = B \<and> in_round c zc cc ks \<or> f \<and> b < B \<and> syncing c zc cc Flush_end Close_end ks)"
| "main_at B c s zc cc b N nt (Await r) ks \<longleftrightarrow> s \<and> b < B \<and> Suc r = N \<and> syncing c zc cc Flush_end Close_end ks"
| "main_at B c s zc cc b N nt (Enter_Reset w) ks \<longleftrightarrow> False"
| "main_at B c s zc cc b N nt (Reset_wait w) ks \<longleftrightarrow> False"

end
