(* ===== verification/Pflate_Inv.thy ===== *)
theory Pflate_Inv
  imports Pflate_Spec
begin

text \<open>
  The invariant of a running \<^verbatim>\<open>pflate.Writer\<close> and its preservation by the steps of every goroutine, in the
  locale \<open>pf_run\<close> of a writer below and a compressor that do not fail.
\<close>

section \<open>The invariant\<close>

text \<open>The workers and results of the blocks, of which \<open>tk\<close> have been taken and \<open>nt\<close> reported.\<close>

definition workers_ok :: "(pf_block \<Rightarrow> byte list) \<Rightarrow> pf_block list \<Rightarrow> nat \<Rightarrow> nat \<Rightarrow> pf_worker list \<Rightarrow> pf_result list \<Rightarrow> bool" where
  "workers_ok f bs tk nt ws rs \<longleftrightarrow> length rs = length bs \<and> length ws = length bs \<and>
     (\<forall>i < length bs. worker_at i (bs ! i) (f (bs ! i)) (i < tk) (ws ! i) (rs ! i) \<and> r_notifyWritten (rs ! i) = (i < nt))"

lemma workers_ok_at:
  "workers_ok f bs tk nt ws rs \<Longrightarrow> i < length bs \<Longrightarrow> worker_at i (bs ! i) (f (bs ! i)) (i < tk) (ws ! i) (rs ! i)"
  by (simp add: workers_ok_def)

lemma workers_ok_update:
  assumes "workers_ok f bs tk nt ws rs" "i < length bs" "worker_at i (bs ! i) (f (bs ! i)) (i < tk) w r" "r_notifyWritten r = (i < nt)"
  shows "workers_ok f bs tk nt (ws[i := w]) (rs[i := r])"
  using assms unfolding workers_ok_def by (simp add: nth_list_update)

lemma workers_ok_take:
  assumes "workers_ok f bs tk nt ws rs" "tk < length bs" "r_result (rs ! tk) = Some b"
  shows "b = f (bs ! tk)" "workers_ok f bs (Suc tk) nt ws (rs[tk := (rs ! tk)\<lparr>r_result := None\<rparr>])"
proof -
  have at: "worker_at tk (bs ! tk) (f (bs ! tk)) False (ws ! tk) (rs ! tk)" using workers_ok_at [OF assms(1,2)] by simp
  then show "b = f (bs ! tk)" using assms(3) by (auto simp: worker_at_def split: pf_worker.splits)
  have "worker_at tk (bs ! tk) (f (bs ! tk)) True (ws ! tk) ((rs ! tk)\<lparr>r_result := None\<rparr>)"
    using at assms(3) by (auto simp: worker_at_def split: pf_worker.splits)
  then show "workers_ok f bs (Suc tk) nt ws (rs[tk := (rs ! tk)\<lparr>r_result := None\<rparr>])"
    using assms(1,2) unfolding workers_ok_def by (simp add: nth_list_update less_Suc_eq)
qed

lemma workers_ok_notify:
  assumes "workers_ok f bs tk nt ws rs" "nt < length bs"
  shows "workers_ok f bs tk (Suc nt) ws (rs[nt := (rs ! nt)\<lparr>r_notifyWritten := True\<rparr>])"
proof -
  have "worker_at nt (bs ! nt) (f (bs ! nt)) (nt < tk) (ws ! nt) ((rs ! nt)\<lparr>r_notifyWritten := True\<rparr>)"
    using workers_ok_at [OF assms] by (simp add: worker_at_def split: pf_worker.splits)
  then show ?thesis using assms unfolding workers_ok_def by (simp add: nth_list_update less_Suc_eq)
qed

lemma workers_ok_add:
  assumes "workers_ok f bs tk nt ws rs" "tk \<le> length bs" "nt \<le> length bs"
  shows "workers_ok f (bs @ [(t, p, cl)]) tk nt (ws @ [W_run p t (length bs) cl])
    (rs @ [\<lparr>r_result = None, r_closed = False, r_notifyWritten = False\<rparr>])"
proof -
  have "worker_at (length bs) (t, p, cl) z False (W_run p t (length bs) cl) \<lparr>r_result = None, r_closed = False, r_notifyWritten = False\<rparr>" for z
    by (simp add: worker_at_def)
  then show ?thesis using assms unfolding workers_ok_def by (auto simp: nth_append less_Suc_eq)
qed

lemma workers_ok_waits:
  assumes "workers_ok f bs tk nt ws rs" "tk < length bs" "r_result (rs ! tk) = None"
  shows "(\<exists>p t cl. ws ! tk = W_run p t tk cl) \<and> \<not> r_closed (rs ! tk)"
  using workers_ok_at [OF assms(1,2)] assms(3) by (auto simp: worker_at_def split: pf_worker.splits)

definition last_call :: "'w pf_call list \<Rightarrow> 'w pf_call option" where
  "last_call cs = (if cs = [] then None else Some (last cs))"

text \<open>
  Blocks \<open>bs\<close> have been dispatched; of their results, \<open>rc\<close> have been received, \<open>tk\<close> taken, \<open>wr\<close> written
  and \<open>nt\<close> reported. Compression does not fail, and neither does the writer below.
\<close>

locale pf_run = ok_writer wops ok out
  for wops :: "'w io_writer_ops" and ok out +
  fixes deflate :: pf_deflate and deflated :: "byte list \<Rightarrow> byte list \<Rightarrow> bool \<Rightarrow> byte list" and level :: int and B :: nat
    and m0 :: "'w pf_machine"
  assumes deflate_ok: "deflate level t p cl = Inr (deflated t p cl)"
    and fresh: "fresh B m0" and start_level: "z_level (m_z m0) = level" and start_ok: "ok (z_w (m_z m0))"
begin

abbreviation bytes_of :: "pf_block \<Rightarrow> byte list" where
  "bytes_of \<equiv> block_bytes deflated"

definition good :: "pf_block list \<Rightarrow> nat \<Rightarrow> bool \<Rightarrow> nat \<Rightarrow> nat \<Rightarrow> nat \<Rightarrow> nat \<Rightarrow> 'w pf_machine \<Rightarrow> bool" where
  "good bs c cc rc tk wr nt m \<longleftrightarrow>
     z_level (m_z m) = level \<and> z_blockSize (m_z m) = int B \<and> z_err (m_z m) = None \<and> \<not> z_pushedErr (m_z m) \<and> ok (z_w (m_z m)) \<and>
     z_results (m_z m) = Some c \<and> c < length (m_chans m) \<and> 0 < ch_cap (m_chans m ! c) \<and>
     ch_closed (m_chans m ! c) = cc \<and> ch_queue (m_chans m ! c) = [rc..<length bs] \<and> rc \<le> length bs \<and>
     workers_ok bytes_of bs tk nt (m_workers m) (m_results m) \<and>
     (if z_started (m_z m)
      then \<exists>l. m_listeners m = [l] \<and> listener_at c (\<lambda>r. bytes_of (bs ! r)) l rc tk wr nt \<and> (l = L_done \<longrightarrow> cc \<and> rc = length bs)
      else m_listeners m = [] \<and> bs = [] \<and> rc = 0 \<and> tk = 0 \<and> wr = 0 \<and> nt = 0) \<and>
     out (z_w (m_z m)) = out (z_w (m_z m0)) @ concat (map bytes_of (take wr bs))"

definition pf_inv :: "'w pf_call list \<Rightarrow> 'w pf_machine \<Rightarrow> bool" where
  "pf_inv cs m \<longleftrightarrow>
     (\<exists>bs c cc rc tk wr nt. good bs c cc rc tk wr nt m \<and>
        (z_started (m_z m) \<or> z_currentBuffer (m_z m) = []) \<and> (cc \<longrightarrow> nt = length bs) \<and>
        main_at B (last_call cs) (z_started (m_z m)) (z_closed (m_z m)) cc (length (z_currentBuffer (m_z m))) (length bs) nt
          (m_pc m) (m_stack m) \<and>
        split_calls B cs = rest B (m_pc m # m_stack m) (bs, z_currentBuffer (m_z m), z_prevTail (m_z m), z_closed (m_z m)))"

lemma good_counts: "good bs c cc rc tk wr nt m \<Longrightarrow> tk \<le> rc \<and> wr \<le> tk \<and> nt \<le> wr \<and> rc \<le> length bs"
  by (auto simp: good_def split: if_splits elim: listener_at.elims)

lemma pf_inv_start: "pf_inv [] m0"
  using fresh start_level start_ok unfolding pf_inv_def fresh_def good_def last_call_def returns_def tailSize_def
  by (intro exI [of _ "[]"]) (auto simp: returns_def workers_ok_def)

lemma good_workers:
  assumes "good bs c cc rc tk wr nt m" "workers_ok bytes_of bs tk nt ws rs"
  shows "good bs c cc rc tk wr nt (m\<lparr>m_workers := ws, m_results := rs\<rparr>)"
  using assms unfolding good_def by simp

lemma good_worker:
  assumes g: "good bs c cc rc tk wr nt m" and i: "i < length (m_workers m)" and st: "compressBlock_step deflate i m = Some m'"
  shows "good bs c cc rc tk wr nt m' \<and> m_z m' = m_z m \<and> m_pc m' = m_pc m \<and> m_stack m' = m_stack m"
proof -
  have ok: "workers_ok bytes_of bs tk nt (m_workers m) (m_results m)" "z_level (m_z m) = level" using g by (simp_all add: good_def)
  then have n: "i < length bs" and nt: "r_notifyWritten (m_results m ! i) = (i < nt)" using i by (simp_all add: workers_ok_def)
  note at = workers_ok_at [OF ok(1) n]
  note upd = good_workers [OF g workers_ok_update [OF ok(1) n]]
  show ?thesis
  proof (cases "m_workers m ! i")
    case (W_run p t r cl)
    then have "r = i" "bs ! i = (t, p, cl)" "\<not> i < tk" using at by (auto simp: worker_at_def)
    then show ?thesis
      using st W_run upd [of "W_close i" "(m_results m ! i)\<lparr>r_result := Some (deflated t p cl)\<rparr>"] nt
      by (auto simp: compressBlock_step_def ok(2) deflate_ok upd_result_def worker_at_def block_bytes_def)
  next
    case (W_close r)
    then have "r = i" "r_result (m_results m ! i) = (if i < tk then None else Some (bytes_of (bs ! i)))" using at by (auto simp: worker_at_def)
    then show ?thesis
      using st W_close upd [of W_done "(m_results m ! i)\<lparr>r_closed := True\<rparr>"] nt
      by (auto simp: compressBlock_step_def upd_result_def worker_at_def)
  qed (use at st in \<open>auto simp: worker_at_def compressBlock_step_def\<close>)
qed

lemma good_listener:
  assumes g: "good bs c cc rc tk wr nt m" and j: "j < length (m_listeners m)" and st: "listener_step wops j m = Some m'"
  obtains rc' tk' wr' nt' where "good bs c cc rc' tk' wr' nt' m'" "nt \<le> nt'" "m_pc m' = m_pc m" "m_stack m' = m_stack m"
    "\<exists>w. m_z m' = (m_z m)\<lparr>z_w := w\<rparr>"
proof -
  obtain l where l: "m_listeners m = [l]" "j = 0" "listener_at c (\<lambda>r. bytes_of (bs ! r)) l rc tk wr nt" "z_started (m_z m)"
    using g j by (auto simp: good_def split: if_splits)
  show thesis
  proof (cases l)
    case L_start
    then have "good bs c cc rc tk wr nt m'" "m_z m' = m_z m" "m_pc m' = m_pc m" "m_stack m' = m_stack m"
      using g l st by (auto simp: good_def listener_step_def)
    then show thesis by (intro that [of rc tk wr nt]) (auto intro: exI [of _ "z_w (m_z m)"])
  next
    case (L_recv c')
    show thesis
    proof (cases "rc < length bs")
      case True
      then have "[rc..<length bs] = rc # [Suc rc..<length bs]" by (rule upt_conv_Cons)
      then have q: "ch_queue (m_chans m ! c) = rc # [Suc rc..<length bs]" and c: "c' = c" "c < length (m_chans m)" "tk = rc" "wr = rc" "nt = rc"
        using g l(3) L_recv by (simp_all add: good_def)
      have m': "m' = set_listener j (L_result c rc) (upd_chan c (\<lambda>ch. ch\<lparr>ch_queue := [Suc rc..<length bs]\<rparr>) m)"
        using st l(1,2) L_recv q c by (simp add: listener_step_def)
      then have "good bs c cc (Suc rc) tk wr nt m'" "m_z m' = m_z m" "m_pc m' = m_pc m" "m_stack m' = m_stack m"
        using g l L_recv True c unfolding good_def by (simp_all add: upd_chan_def)
      then show thesis by (intro that [of "Suc rc" tk wr nt]) (auto intro: exI [of _ "z_w (m_z m)"])
    next
      case False
      then have "good bs c cc rc tk wr nt m'" "m_z m' = m_z m" "m_pc m' = m_pc m" "m_stack m' = m_stack m"
        using g l st L_recv by (auto simp: good_def listener_step_def split: if_splits)
      then show thesis by (intro that [of rc tk wr nt]) (auto intro: exI [of _ "z_w (m_z m)"])
    qed
  next
    case (L_result c' r)
    then have r: "rc = Suc r" "tk = r" "wr = r" "nt = r" "r < length bs" using g l by (auto simp: good_def)
    have ok: "workers_ok bytes_of bs r nt (m_workers m) (m_results m)" using g r(2) by (simp add: good_def)
    obtain b where b: "r_result (m_results m ! r) = Some b"
      using workers_ok_waits [OF ok r(5)] l st L_result by (cases "r_result (m_results m ! r)") (auto simp: listener_step_def)
    note tk = workers_ok_take [OF ok r(5) b]
    have m': "m' = set_listener j (L_write c' r b) (upd_result r (\<lambda>x. x\<lparr>r_result := None\<rparr>) m)"
      using st l(1,2) L_result b by (simp add: listener_step_def)
    then have "good bs c cc rc (Suc tk) wr nt m'" "m_z m' = m_z m" "m_pc m' = m_pc m" "m_stack m' = m_stack m"
      using g l L_result r tk unfolding good_def by (simp_all add: upd_result_def)
    then show thesis by (intro that [of rc "Suc tk" wr nt]) (auto intro: exI [of _ "z_w (m_z m)"])
  next
    case (L_write c' r b)
    then have r: "rc = Suc r" "tk = Suc r" "wr = r" "nt = r" "r < length bs" "b = bytes_of (bs ! r)" using g l by (auto simp: good_def)
    obtain w' where w': "op_write wops (z_w (m_z m)) b = (length b, None, w')" "ok w'" "out w' = out (z_w (m_z m)) @ b"
      using write_ok [of "z_w (m_z m)" b] g by (auto simp: good_def)
    have m': "m' = set_listener j (L_written c' r) (upd_z (\<lambda>z. z\<lparr>z_w := w'\<rparr>) m)"
      using st l(1,2) L_write w'(1) by (simp add: listener_step_def)
    then have "good bs c cc rc tk (Suc wr) nt m'" "m_z m' = (m_z m)\<lparr>z_w := w'\<rparr>" "m_pc m' = m_pc m" "m_stack m' = m_stack m"
      using g l L_write r w'(2,3) unfolding good_def by (simp_all add: take_Suc_conv_app_nth)
    then show thesis by (intro that [of rc tk "Suc wr" nt]) auto
  next
    case (L_written c' r)
    then have r: "rc = Suc r" "tk = Suc r" "wr = Suc r" "nt = r" "r < length bs" using g l by (auto simp: good_def)
    have "workers_ok bytes_of bs tk nt (m_workers m) (m_results m)" "nt < length bs" using g r by (simp_all add: good_def)
    note ok = workers_ok_notify [OF this]
    have m': "m' = set_listener j (L_recv c') (upd_result r (\<lambda>x. x\<lparr>r_notifyWritten := True\<rparr>) m)"
      using st l(1,2) L_written by (simp add: listener_step_def)
    then have "good bs c cc rc tk wr (Suc nt) m'" "m_z m' = m_z m" "m_pc m' = m_pc m" "m_stack m' = m_stack m"
      using g l L_written r ok unfolding good_def by (simp_all add: upd_result_def)
    then show thesis by (intro that [of rc tk wr "Suc nt"]) (auto intro: exI [of _ "z_w (m_z m)"])
  qed (use l st in \<open>simp_all add: listener_step_def\<close>)
qed

end

lemma split_write_less: "length buf + length q < B \<Longrightarrow> split_write B q (buf, tail, cl) = ([], buf @ q, tail, cl)"
  by (simp add: split_write.simps)

lemma split_write_ge:
  assumes "B \<le> length buf + length q" "0 < B"
  shows "split_write B q (buf, tail, cl) =
    (case split_write B (drop (B - length buf) q) ([], tail_of (buf @ take (B - length buf) q), cl) of
       (bs, st) \<Rightarrow> ((tail, buf @ take (B - length buf) q, cl) # bs, st))"
  using assms by (subst split_write.simps) (simp add: Let_def split: prod.split)

lemma in_round_iff:
  "in_round c zc cc ks \<longleftrightarrow> (\<exists>p q n. ks = [Write_check p q n] \<and> writing c zc cc p \<and> 0 < n \<and> n \<le> length q)"
  by (cases "(c, zc, cc, ks)" rule: in_round.cases) auto

context pf_run
begin

lemma B_pos: "0 < B" "int B \<le> 2 ^ 47" "tailSize < B"
  using fresh by (auto simp: fresh_def)

text \<open>Steps of the caller that touch no channel.\<close>

lemma good_local:
  assumes "good bs c cc rc tk wr nt m"
    and "z_level z = z_level (m_z m)" "z_blockSize z = z_blockSize (m_z m)" "z_err z = z_err (m_z m)" "z_pushedErr z = z_pushedErr (m_z m)"
      "z_w z = z_w (m_z m)" "z_results z = z_results (m_z m)" "z_started z = z_started (m_z m)"
  shows "good bs c cc rc tk wr nt (m\<lparr>m_z := z, m_pc := pc, m_stack := ks\<rparr>)"
  using assms unfolding good_def by simp

lemma good_goto [simp]: "good bs c cc rc tk wr nt (goto pc m) \<longleftrightarrow> good bs c cc rc tk wr nt m"
  by (simp add: good_def)

lemma pf_invI:
  assumes "good bs c cc rc tk wr nt m" and "z_started (m_z m) \<or> z_currentBuffer (m_z m) = []" and "cc \<longrightarrow> nt = length bs"
    and "main_at B (last_call cs) (z_started (m_z m)) (z_closed (m_z m)) cc (length (z_currentBuffer (m_z m))) (length bs) nt (m_pc m) (m_stack m)"
    and "split_calls B cs = rest B (m_pc m # m_stack m) (bs, z_currentBuffer (m_z m), z_prevTail (m_z m), z_closed (m_z m))"
  shows "pf_inv cs m"
  using assms unfolding pf_inv_def by blast

lemma good_start:
  assumes "good bs c cc rc tk wr nt m"
  obtains m' where "start_Writer m = Some m'" "good bs c cc rc tk wr nt m'" "z_started (m_z m')" "z_closed (m_z m') = z_closed (m_z m)"
    "z_prevTail (m_z m') = z_prevTail (m_z m)" "m_stack m' = m_stack m"
    "z_currentBuffer (m_z m') = (if z_started (m_z m) then z_currentBuffer (m_z m) else [])"
proof (cases "z_started (m_z m)")
  case False
  let ?m = "upd_z (\<lambda>z. z\<lparr>z_started := True, z_currentBuffer := []\<rparr>) (m\<lparr>m_listeners := m_listeners m @ [L_start]\<rparr>)"
  have "start_Writer m = Some ?m" using assms B_pos False by (simp add: start_Writer_def good_def)
  moreover have "good bs c cc rc tk wr nt ?m" using assms False unfolding good_def by (elim conjE) (simp; simp)
  ultimately show thesis using False by (intro that [of ?m]) simp_all
qed (use assms in \<open>auto simp: start_Writer_def intro: that\<close>)

lemma good_close:
  assumes "good bs c False rc tk wr nt m"
  obtains m' where "closeResults m = Some m'" "good bs c True rc tk wr nt m'" "m_z m' = m_z m" "m_stack m' = m_stack m"
proof -
  let ?m = "upd_chan c (\<lambda>ch. ch\<lparr>ch_closed := True\<rparr>) m"
  have "closeResults m = Some ?m" using assms by (simp add: closeResults_def good_def)
  moreover have "good bs c True rc tk wr nt ?m" using assms unfolding good_def upd_chan_def by (auto split: if_splits)
  ultimately show thesis by (intro that [of ?m]) (simp_all add: upd_chan_def)
qed

lemma pf_inv_main:
  assumes inv: "pf_inv cs m" and st: "main_step m = Some m'"
  shows "pf_inv cs m'"
proof -
  obtain bs c cc rc tk wr nt where g: "good bs c cc rc tk wr nt m"
    and idle: "z_started (m_z m) \<or> z_currentBuffer (m_z m) = []" and closed: "cc \<longrightarrow> nt = length bs"
    and ma: "main_at B (last_call cs) (z_started (m_z m)) (z_closed (m_z m)) cc (length (z_currentBuffer (m_z m))) (length bs) nt (m_pc m) (m_stack m)"
    and sp: "split_calls B cs = rest B (m_pc m # m_stack m) (bs, z_currentBuffer (m_z m), z_prevTail (m_z m), z_closed (m_z m))"
    using inv unfolding pf_inv_def by blast
  let ?z = "m_z m" and ?buf = "z_currentBuffer (m_z m)"
  have ne: "z_err ?z = None" "z_blockSize ?z = int B" using g by (simp_all add: good_def)
  have keep: "pf_inv cs (m\<lparr>m_z := z, m_pc := pc, m_stack := ks\<rparr>)"
    if "z_level z = z_level ?z" "z_blockSize z = z_blockSize ?z" "z_err z = z_err ?z" "z_pushedErr z = z_pushedErr ?z"
      "z_w z = z_w ?z" "z_results z = z_results ?z" "z_started z = z_started ?z" "z_started z \<or> z_currentBuffer z = []"
      "main_at B (last_call cs) (z_started z) (z_closed z) cc (length (z_currentBuffer z)) (length bs) nt pc ks"
      "split_calls B cs = rest B (pc # ks) (bs, z_currentBuffer z, z_prevTail z, z_closed z)" for z pc ks
    by (rule pf_invI [OF good_local [OF g that(1-7)]]) (use that(8-10) closed in simp_all)
  have keep2: "pf_inv cs (m\<lparr>m_z := z, m_pc := pc\<rparr>)"
    if "z_level z = z_level ?z" "z_blockSize z = z_blockSize ?z" "z_err z = z_err ?z" "z_pushedErr z = z_pushedErr ?z"
      "z_w z = z_w ?z" "z_results z = z_results ?z" "z_started z = z_started ?z" "z_started z \<or> z_currentBuffer z = []"
      "main_at B (last_call cs) (z_started z) (z_closed z) cc (length (z_currentBuffer z)) (length bs) nt pc (m_stack m)"
      "split_calls B cs = rest B (pc # m_stack m) (bs, z_currentBuffer z, z_prevTail z, z_closed z)" for z pc
    using keep [OF that] by simp
  have keep0: "pf_inv cs (m\<lparr>m_pc := pc, m_stack := ks\<rparr>)"
    if "main_at B (last_call cs) (z_started ?z) (z_closed ?z) cc (length ?buf) (length bs) nt pc ks"
      "split_calls B cs = rest B (pc # ks) (bs, ?buf, z_prevTail ?z, z_closed ?z)" for pc ks
    using keep [OF refl refl refl refl refl refl refl idle that] by simp
  have keep1: "pf_inv cs (m\<lparr>m_pc := pc\<rparr>)"
    if "main_at B (last_call cs) (z_started ?z) (z_closed ?z) cc (length ?buf) (length bs) nt pc (m_stack m)"
      "split_calls B cs = rest B (pc # m_stack m) (bs, ?buf, z_prevTail ?z, z_closed ?z)" for pc
    using keep0 [OF that] by simp
  show ?thesis
  proof (cases "m_pc m")
    case (Return n e)
    then show ?thesis
      using ma sp st by (cases "m_stack m") (auto simp: main_step_defs resume_def syncing_def in_round_iff writing_def intro!: keep0)
  next
    case (Enter_Write p)
    obtain m1 where m1: "start_Writer m = Some m1" "good bs c cc rc tk wr nt m1" "z_started (m_z m1)" "z_closed (m_z m1) = z_closed ?z"
        "z_prevTail (m_z m1) = z_prevTail ?z" "m_stack m1 = m_stack m" "z_currentBuffer (m_z m1) = (if z_started ?z then ?buf else [])"
      by (rule good_start [OF g])
    have "z_currentBuffer (m_z m1) = ?buf" using m1(7) idle by auto
    moreover have "m' = goto (Write_loop p p) m1" using st Enter_Write ne m1(1) by (simp add: main_step_defs)
    moreover have "good bs c cc rc tk wr nt (goto (Write_loop p p) m1)" using m1(2) by simp
    ultimately show ?thesis using m1 ma sp closed Enter_Write by (auto intro!: pf_invI)
  next
    case (Write_loop p q)
    note wl = Write_loop
    have b: "length ?buf < B" using ma wl by simp
    consider "q = []" | "q \<noteq> []" "length ?buf + length q < B" | "q \<noteq> []" "B \<le> length ?buf + length q" by linarith
    then show ?thesis
    proof cases
      case 1
      then show ?thesis using st wl ma sp b by (auto simp: main_step_defs split_write_less syncing_def intro!: keep1)
    next
      case 2
      then have "m' = m\<lparr>m_z := ?z\<lparr>z_currentBuffer := ?buf @ q, z_size := i64 (z_size ?z + int (length q))\<rparr>, m_pc := Write_loop p []\<rparr>"
        using st wl ne by (auto simp: main_step_defs write_round_def Let_def)
      then show ?thesis using ma sp wl 2 by (auto simp: split_write_less intro!: keep2)
    next
      case 3
      let ?n = "B - length ?buf"
      have n: "(if z_blockSize ?z < int (length q) + int (length ?buf) then z_blockSize ?z - int (length ?buf) else int (length q)) = int ?n"
        using 3 b ne by auto
      have "nat (int B - int (length ?buf)) = ?n" by linarith
      with n have "m' = m\<lparr>m_z := ?z\<lparr>z_currentBuffer := ?buf @ take ?n q\<rparr>, m_pc := Select False, m_stack := Write_check p q ?n # m_stack m\<rparr>"
        using st wl ne 3 b unfolding main_step_defs write_round_def Let_def by auto
      then show ?thesis
        using ma sp wl 3 b split_write_ge [OF 3(2) B_pos(1), of "z_prevTail ?z" "z_closed ?z"]
        by (auto simp: split_emit_def in_round_iff split: prod.splits intro!: keep)
    qed
  next
    case (Write_check p q n)
    then have "m' = m\<lparr>m_z := ?z\<lparr>z_size := i64 (z_size ?z + int n)\<rparr>, m_pc := Write_loop p (drop n q)\<rparr>"
      using st ne by (simp add: main_step_defs)
    then show ?thesis using ma sp Write_check B_pos by (auto intro!: keep2)
  next
    case (Write_end p)
    then show ?thesis using st ne ma sp by (auto simp: main_step_defs returns_def writing_def syncing_def intro!: keep1)
  next
    case Enter_Flush
    then show ?thesis
      using st ne ma sp closed by (cases "z_closed ?z") (auto simp: main_step_defs returns_def syncing_def split_emit_def split_write_less intro!: keep0 keep1)
  next
    case Flush_send
    then show ?thesis using st ma sp by (auto simp: main_step_defs syncing_def split_emit_def intro!: keep0)
  next
    case Flush_end
    then show ?thesis using st ne ma sp by (auto simp: main_step_defs returns_def intro!: keep1)
  next
    case Enter_Close
    show ?thesis
    proof (cases "z_closed ?z")
      case True
      then show ?thesis using st ne ma sp closed Enter_Close by (auto simp: main_step_defs returns_def intro!: keep1)
    next
      case False
      then show ?thesis
        using st ne ma sp idle Enter_Close
        by (auto simp: main_step_defs Let_def syncing_def split_emit_def split_write_less split: if_splits intro!: keep keep2)
    qed
  next
    case Close_send
    then show ?thesis using st ma sp by (auto simp: main_step_defs syncing_def split_emit_def intro!: keep0)
  next
    case Close_end
    have "cc = False" using ma Close_end by simp
    then obtain m1 where m1: "closeResults m = Some m1" "good bs c True rc tk wr nt m1" "m_z m1 = m_z m" "m_stack m1 = m_stack m"
      using good_close [of bs c rc tk wr nt m] g by blast
    have "m' = goto (Return 0 None) m1" using st Close_end ne m1(1) by (simp add: main_step_defs)
    moreover have "good bs c True rc tk wr nt (goto (Return 0 None) m1)" using m1(2) by simp
    ultimately show ?thesis using m1 ma sp Close_end by (auto simp: returns_def intro!: pf_invI)
  next
    case (Await r)
    then have "r_notifyWritten (m_results m ! r)" "m' = goto (Return 0 None) m" "Suc r = length bs"
      using st ma by (auto simp: main_step_defs split: if_splits)
    moreover have "workers_ok bytes_of bs tk nt (m_workers m) (m_results m)" "nt \<le> length bs" using g good_counts [OF g] by (simp_all add: good_def)
    ultimately have "m' = goto (Return 0 None) m" "nt = length bs" by (auto simp: workers_ok_def)
    then show ?thesis using ma sp Await by (auto intro!: keep1)
  qed (use ma st in \<open>simp_all add: main_step_defs\<close>)
qed

end

context pf_run
begin

lemma good_send:
  assumes g: "good bs c False rc tk wr nt m" and s: "z_started (m_z m)" and b: "length (z_currentBuffer (m_z m)) \<le> B"
    and pc: "m_pc m = Select f" and st: "select_send m = Some m'"
  shows "good (bs @ [(z_prevTail (m_z m), z_currentBuffer (m_z m), z_closed (m_z m))]) c False rc tk wr nt m' \<and>
    m_z m' = (m_z m)\<lparr>z_prevTail := tail_of (z_currentBuffer (m_z m)), z_currentBuffer := []\<rparr> \<and>
    m_pc m' = (if f then Await (length bs) else Return 0 None) \<and> m_stack m' = m_stack m"
proof -
  let ?z = "m_z m" and ?buf = "z_currentBuffer (m_z m)"
  let ?b = "(z_prevTail ?z, ?buf, z_closed ?z)"
  have ok: "workers_ok bytes_of bs tk nt (m_workers m) (m_results m)" "z_results ?z = Some c" "z_blockSize ?z = int B" "c < length (m_chans m)"
    and n: "tk \<le> length bs" "nt \<le> length bs" "length (m_results m) = length bs" "rc \<le> length bs"
    using g good_counts [OF g] by (auto simp: good_def workers_ok_def)
  have small: "\<not> 2 * int B < int (length ?buf)" using b by linarith
  define ws where "ws = m_workers m @ [W_run ?buf (z_prevTail ?z) (length bs) (z_closed ?z)]"
  define rs where "rs = m_results m @ [\<lparr>r_result = None, r_closed = False, r_notifyWritten = False\<rparr>]"
  have add: "workers_ok bytes_of (bs @ [?b]) tk nt ws rs" unfolding ws_def rs_def by (rule workers_ok_add [OF ok(1) n(1,2)])
  let ?ch = "m_chans m ! c"
  have m': "m' = m\<lparr>m_z := ?z\<lparr>z_prevTail := tail_of ?buf, z_currentBuffer := []\<rparr>, m_chans := (m_chans m)[c := ?ch\<lparr>ch_queue := ch_queue ?ch @ [length bs]\<rparr>],
      m_results := rs, m_workers := ws, m_pc := (if f then Await (length bs) else Return 0 None)\<rparr>"
    using st g small by (auto simp: select_send_def pc ok(2,3) n(3) dispatch_def Let_def upd_chan_def ws_def rs_def tail_of_def good_def split: if_splits)
  have q: "[rc..<length bs] @ [length bs] = [rc..<length (bs @ [?b])]" using n(4) by simp
  have f: "listener_at c (\<lambda>r. bytes_of ((bs @ [?b]) ! r)) l rc tk wr nt \<longleftrightarrow> listener_at c (\<lambda>r. bytes_of (bs ! r)) l rc tk wr nt" for l
    using n(4) by (cases l) (auto simp: nth_append)
  have "good (bs @ [?b]) c False rc tk wr nt m'"
    using g s add n good_counts [OF g] ok(4) unfolding good_def m' f q [symmetric] by auto
  then show ?thesis by (simp add: m')
qed

lemma pf_inv_step:
  assumes inv: "pf_inv cs m" and st: "pf_step wops deflate m m'"
  shows "pf_inv cs m'"
  using st
proof cases
  case main
  then show ?thesis by (rule pf_inv_main [OF inv])
next
  case send
  obtain bs c cc rc tk wr nt where g: "good bs c cc rc tk wr nt m" and closed: "cc \<longrightarrow> nt = length bs"
    and ma: "main_at B (last_call cs) (z_started (m_z m)) (z_closed (m_z m)) cc (length (z_currentBuffer (m_z m))) (length bs) nt (m_pc m) (m_stack m)"
    and sp: "split_calls B cs = rest B (m_pc m # m_stack m) (bs, z_currentBuffer (m_z m), z_prevTail (m_z m), z_closed (m_z m))"
    using inv unfolding pf_inv_def by blast
  obtain f where f: "m_pc m = Select f" using send by (cases "m_pc m") (simp_all add: select_send_def)
  have "cc = False" "z_started (m_z m)" "length (z_currentBuffer (m_z m)) \<le> B" using ma f by (auto simp: in_round_iff syncing_def writing_def)
  with good_send [OF _ _ _ f send] g
  have "good (bs @ [(z_prevTail (m_z m), z_currentBuffer (m_z m), z_closed (m_z m))]) c cc rc tk wr nt m' \<and>
    m_z m' = (m_z m)\<lparr>z_prevTail := tail_of (z_currentBuffer (m_z m)), z_currentBuffer := []\<rparr> \<and>
    m_pc m' = (if f then Await (length bs) else Return 0 None) \<and> m_stack m' = m_stack m" by blast
  then show ?thesis
    by (intro pf_invI [of "bs @ [(z_prevTail (m_z m), z_currentBuffer (m_z m), z_closed (m_z m))]" c cc rc tk wr nt])
       (use ma sp f B_pos \<open>cc = False\<close> in \<open>auto simp: split_emit_def in_round_iff\<close>)
next
  case pushed
  then show ?thesis using inv by (auto simp: pf_inv_def good_def select_pushedErr_def split: pf_pc.splits if_splits)
next
  case (worker i)
  obtain bs c cc rc tk wr nt where g: "good bs c cc rc tk wr nt m" and closed: "cc \<longrightarrow> nt = length bs"
    and idle: "z_started (m_z m) \<or> z_currentBuffer (m_z m) = []"
    and ma: "main_at B (last_call cs) (z_started (m_z m)) (z_closed (m_z m)) cc (length (z_currentBuffer (m_z m))) (length bs) nt (m_pc m) (m_stack m)"
    and sp: "split_calls B cs = rest B (m_pc m # m_stack m) (bs, z_currentBuffer (m_z m), z_prevTail (m_z m), z_closed (m_z m))"
    using inv unfolding pf_inv_def by blast
  from good_worker [OF g worker] show ?thesis
    by (intro pf_invI [of bs c cc rc tk wr nt]) (use closed idle ma sp in simp_all)
next
  case (listener j)
  obtain bs c cc rc tk wr nt where g: "good bs c cc rc tk wr nt m" and closed: "cc \<longrightarrow> nt = length bs"
    and idle: "z_started (m_z m) \<or> z_currentBuffer (m_z m) = []"
    and ma: "main_at B (last_call cs) (z_started (m_z m)) (z_closed (m_z m)) cc (length (z_currentBuffer (m_z m))) (length bs) nt (m_pc m) (m_stack m)"
    and sp: "split_calls B cs = rest B (m_pc m # m_stack m) (bs, z_currentBuffer (m_z m), z_prevTail (m_z m), z_closed (m_z m))"
    using inv unfolding pf_inv_def by blast
  obtain rc' tk' wr' nt' w where g': "good bs c cc rc' tk' wr' nt' m'" "nt \<le> nt'" "m_pc m' = m_pc m" "m_stack m' = m_stack m"
      "m_z m' = (m_z m)\<lparr>z_w := w\<rparr>"
    using good_listener [OF g listener] by metis
  have "nt = length bs \<Longrightarrow> nt' = length bs" using g'(2) good_counts [OF g'(1)] by linarith
  then have "main_at B (last_call cs) (z_started (m_z m)) (z_closed (m_z m)) cc (length (z_currentBuffer (m_z m))) (length bs) nt' (m_pc m) (m_stack m)"
    using ma by (cases "m_pc m") auto
  then show ?thesis
    by (intro pf_invI [OF g'(1)]) (use g'(3-5) sp idle closed \<open>nt = length bs \<Longrightarrow> nt' = length bs\<close> in simp_all)
qed

lemma pf_inv_invoke:
  assumes inv: "pf_inv cs m" and r: "returned m" and p: "proper (cs @ [c])" and cl: "PClose \<in> set cs \<longleftrightarrow> z_closed (m_z m)"
  shows "pf_inv (cs @ [c]) (goto (enter c) m)"
proof -
  obtain bs c' cc rc tk wr nt where g: "good bs c' cc rc tk wr nt m" and closed: "cc \<longrightarrow> nt = length bs"
    and idle: "z_started (m_z m) \<or> z_currentBuffer (m_z m) = []"
    and ma: "main_at B (last_call cs) (z_started (m_z m)) (z_closed (m_z m)) cc (length (z_currentBuffer (m_z m))) (length bs) nt (m_pc m) (m_stack m)"
    and sp: "split_calls B cs = rest B (m_pc m # m_stack m) (bs, z_currentBuffer (m_z m), z_prevTail (m_z m), z_closed (m_z m))"
    using inv unfolding pf_inv_def by blast
  have g': "good bs c' cc rc tk wr nt (goto (enter c) m)" using g by simp
  obtain n e where pc: "m_pc m = Return n e" "m_stack m = []" using r by (auto simp: returned_def)
  then have zc: "z_closed (m_z m) = cc" "length (z_currentBuffer (m_z m)) < B"
    and sp': "split_calls B cs = (bs, z_currentBuffer (m_z m), z_prevTail (m_z m), z_closed (m_z m))" using ma sp by (auto simp: syncing_def)
  have last: "last_call (cs @ [c]) = Some c" by (simp add: last_call_def)
  have "main_at B (Some c) (z_started (m_z m)) (z_closed (m_z m)) cc (length (z_currentBuffer (m_z m))) (length bs) nt (enter c) []"
    using zc cl p by (cases c) (simp_all add: proper_snoc writing_def)
  moreover have "split_calls B (cs @ [c]) = rest B [enter c] (bs, z_currentBuffer (m_z m), z_prevTail (m_z m), z_closed (m_z m))"
    using sp' p by (cases c) (simp_all add: proper_snoc)
  ultimately show ?thesis by (intro pf_invI [OF g']) (use closed idle pc last in simp_all)
qed

end

end
