(* ===== verification/Pflate_Live.thy ===== *)
theory Pflate_Live
  imports Pflate_Inv
begin

text \<open>
  Every call returns: some goroutine can always go on, and every step makes the work that is left smaller.
\<close>

section \<open>Sessions\<close>

lemma split_write_closed: "snd (snd (snd (split_write B q st))) = snd (snd st)"
proof (induction B q st rule: split_write.induct)
  case (1 B q buf tail cl)
  show ?case
  proof (cases "length buf + length q < B \<or> B = 0")
    case True
    then show ?thesis by (subst split_write.simps) simp
  next
    case False
    then show ?thesis using 1 [OF False refl] by (subst split_write.simps) (simp add: Let_def split_def)
  qed
qed

lemma split_calls_closed: "proper cs \<Longrightarrow> snd (snd (snd (split_calls B cs))) \<longleftrightarrow> PClose \<in> set cs"
proof (induction cs rule: rev_induct)
  case (snoc c cs)
  obtain bs buf tail cl where s: "split_calls B cs = (bs, buf, tail, cl)" by (metis prod_cases4)
  have "snd (snd (snd (split_seq f (split_calls B cs)))) = snd (snd (snd (f (buf, tail, cl))))" for f
    by (simp add: s split_def)
  then show ?case
    using snoc s by (cases c) (auto simp: proper_snoc split_emit_def split_write_closed)
qed simp

context pf_run
begin

lemma pf_inv_session: "pf_session wops deflate m0 cs m \<Longrightarrow> proper cs \<Longrightarrow> pf_inv cs m"
proof (induction rule: pf_session.induct)
  case start
  show ?case by (rule pf_inv_start)
next
  case (step cs m m')
  then show ?case using pf_inv_step by blast
next
  case (invoke cs m c)
  then have inv: "pf_inv cs m" "proper cs" by (simp_all add: proper_snoc)
  then have "z_closed (m_z m) = snd (snd (snd (split_calls B cs)))"
    using invoke.hyps(2) by (auto simp: pf_inv_def returned_def)
  then show ?case using pf_inv_invoke [OF inv(1) invoke.hyps(2) invoke.prems] split_calls_closed [OF inv(2), of B] by simp
qed

text \<open>A call that has not returned can go on: some goroutine is not blocked.\<close>

lemma listener_progress:
  assumes g: "good bs c False rc tk wr nt m" and s: "z_started (m_z m)" and n: "nt < length bs"
  shows "\<exists>m'. pf_step wops deflate m m'"
proof -
  obtain l where l: "m_listeners m = [l]" "listener_at c (\<lambda>r. bytes_of (bs ! r)) l rc tk wr nt" "l \<noteq> L_done"
    using g s by (auto simp: good_def)
  have z: "z_results (m_z m) = Some c" "ch_queue (m_chans m ! c) = [rc..<length bs]" "workers_ok bytes_of bs tk nt (m_workers m) (m_results m)"
    using g by (simp_all add: good_def)
  have step: "\<exists>m'. listener_step wops 0 m = Some m' \<Longrightarrow> ?thesis" using l(1) pf_step.listener [of 0 m wops] by auto
  show ?thesis
  proof (cases l)
    case (L_recv c')
    then have "[rc..<length bs] = rc # [Suc rc..<length bs]" "c' = c" using l(2) n by (auto simp: upt_conv_Cons)
    then show ?thesis using L_recv l(1) z by (intro step) (simp add: listener_step_def)
  next
    case (L_result c' r)
    then have r: "tk = r" "r < length bs" using l(2) g by (auto simp: good_def)
    show ?thesis
    proof (cases "r_result (m_results m ! r)")
      case None
      then obtain p t cl where "m_workers m ! r = W_run p t r cl" using workers_ok_waits [OF z(3)] r by auto
      moreover have "r < length (m_workers m)" using z(3) r(2) by (simp add: workers_ok_def)
      ultimately show ?thesis
        by (intro exI [of _ "the (compressBlock_step deflate r m)"] pf_step.worker [of r]) (auto simp: compressBlock_step_def split: sum.splits)
    next
      case (Some b)
      then show ?thesis using L_result l(1) by (intro step) (simp add: listener_step_def)
    qed
  qed (use l z in \<open>auto intro!: step simp: listener_step_def split: prod.splits\<close>)
qed

lemma pf_progress:
  assumes inv: "pf_inv cs m" and nr: "\<not> returned m"
  shows "\<exists>m'. pf_step wops deflate m m'"
proof -
  obtain bs c cc rc tk wr nt where g: "good bs c cc rc tk wr nt m"
    and ma: "main_at B (last_call cs) (z_started (m_z m)) (z_closed (m_z m)) cc (length (z_currentBuffer (m_z m))) (length bs) nt (m_pc m) (m_stack m)"
    using inv unfolding pf_inv_def by blast
  have main: "\<exists>m'. main_step m = Some m' \<Longrightarrow> ?thesis" by (auto intro: pf_step.main)
  show ?thesis
  proof (cases "m_pc m")
    case (Return n e)
    then show ?thesis using nr by (intro main) (auto simp: returned_def main_step_defs split: list.splits)
  next
    case (Select f)
    then have "cc = False" "z_started (m_z m)" using ma by (auto simp: in_round_iff syncing_def writing_def)
    show ?thesis
    proof (cases "length [rc..<length bs] < ch_cap (m_chans m ! c)")
      case True
      then have "\<exists>m'. select_send m = Some m'" using g Select \<open>cc = False\<close> by (simp add: select_send_def good_def Let_def)
      then show ?thesis by (auto intro: pf_step.send)
    next
      case False
      moreover have "0 < ch_cap (m_chans m ! c)" using g by (simp add: good_def)
      ultimately have "rc < length bs" by simp
      then have "nt < length bs" using good_counts [OF g] by linarith
      then show ?thesis using listener_progress g \<open>cc = False\<close> \<open>z_started (m_z m)\<close> by blast
    qed
  next
    case (Await r)
    then have a: "cc = False" "z_started (m_z m)" "Suc r = length bs" using ma by (auto simp: syncing_def)
    show ?thesis
    proof (cases "nt < length bs")
      case True
      then show ?thesis using listener_progress g a by blast
    next
      case False
      then have "r_notifyWritten (m_results m ! r)" using g a(3) by (auto simp: good_def workers_ok_def)
      then show ?thesis using Await by (intro main) (simp add: main_step_defs)
    qed
  qed (use ma in \<open>auto intro!: main simp: main_step_defs Let_def split: option.splits\<close>)
qed

end

section \<open>Every call returns\<close>

text \<open>
  A property is inevitable in a state when every run from the state, however the goroutines are scheduled,
  comes to a state with the property.
\<close>

inductive inevitable :: "('s \<Rightarrow> 's \<Rightarrow> bool) \<Rightarrow> ('s \<Rightarrow> bool) \<Rightarrow> 's \<Rightarrow> bool" for step P where
  now: "P s \<Longrightarrow> inevitable step P s"
| later: "\<exists>s'. step s s' \<Longrightarrow> (\<And>s'. step s s' \<Longrightarrow> inevitable step P s') \<Longrightarrow> inevitable step P s"

lemma inevitable_measure:
  assumes "I s" and keep: "\<And>s s'. I s \<Longrightarrow> step s s' \<Longrightarrow> I s'" and less: "\<And>s s'. I s \<Longrightarrow> step s s' \<Longrightarrow> f s' < (f s :: nat)"
    and go: "\<And>s. I s \<Longrightarrow> \<not> P s \<Longrightarrow> \<exists>s'. step s s'"
  shows "inevitable step P s"
  using assms(1)
proof (induction "f s" arbitrary: s rule: less_induct)
  case less
  show ?case
  proof (cases "P s")
    case False
    have "inevitable step P s'" if "step s s'" for s'
      using less.hyps [OF assms(3) [OF less.prems that] keep [OF less.prems that]] .
    then show ?thesis using go [OF less.prems False] by (rule inevitable.later [rotated])
  qed (rule inevitable.now)
qed

text \<open>The work that is left.\<close>

fun pc_weight :: "'w pf_pc \<Rightarrow> nat" where
  "pc_weight (Return n e) = 1"
| "pc_weight (Enter_Write p) = 5 * length p + 4"
| "pc_weight (Write_loop p q) = 5 * length q + 3"
| "pc_weight (Write_check p q n) = 5 * (length q - n) + 4"
| "pc_weight (Write_end p) = 2"
| "pc_weight Enter_Flush = 11"
| "pc_weight Flush_send = 6"
| "pc_weight Flush_end = 2"
| "pc_weight Enter_Close = 11"
| "pc_weight Close_send = 6"
| "pc_weight Close_end = 2"
| "pc_weight (Select f) = 3"
| "pc_weight (Await r) = 2"
| "pc_weight _ = 0"

fun worker_weight :: "pf_worker \<Rightarrow> nat" where
  "worker_weight (W_run p t r cl) = 3"
| "worker_weight (W_push e r) = 2"
| "worker_weight (W_close r) = 1"
| "worker_weight W_done = 0"

fun listener_weight :: "pf_listener \<Rightarrow> nat" where
  "listener_weight L_start = 2"
| "listener_weight (L_recv c) = 1"
| "listener_weight (L_result c r) = 4"
| "listener_weight (L_write c r b) = 3"
| "listener_weight (L_written c r) = 2"
| "listener_weight _ = 0"

definition queued :: "'w pf_machine \<Rightarrow> nat" where
  "queued m = (case z_results (m_z m) of None \<Rightarrow> 0 | Some c \<Rightarrow> length (ch_queue (m_chans m ! c)))"

definition weight :: "'w pf_machine \<Rightarrow> nat" where
  "weight m = 10 * sum_list (map pc_weight (m_pc m # m_stack m)) + sum_list (map worker_weight (m_workers m)) + 5 * queued m +
     sum_list (map listener_weight (m_listeners m))"

lemma sum_list_update_less:
  assumes "i < length xs" "f x < f (xs ! i)"
  shows "sum_list (map f (xs[i := x])) < (sum_list (map f xs) :: nat)"
  using assms
proof (induction xs arbitrary: i)
  case (Cons y xs)
  then show ?case by (cases i) auto
qed simp

context pf_run
begin

lemma weight_worker:
  assumes g: "good bs c cc rc tk wr nt m" and i: "i < length (m_workers m)" and st: "compressBlock_step deflate i m = Some m'"
  shows "weight m' < weight m"
proof -
  have "worker_weight (m_workers m' ! i) < worker_weight (m_workers m ! i)" "m_workers m' = (m_workers m)[i := m_workers m' ! i]"
    using st i by (cases "m_workers m ! i"; auto simp: compressBlock_step_def upd_result_def split: sum.splits)+
  moreover have "m_chans m' = m_chans m" "m_listeners m' = m_listeners m"
    using st by (cases "m_workers m ! i"; auto simp: compressBlock_step_def upd_result_def split: sum.splits)+
  ultimately show ?thesis
    using sum_list_update_less [OF i, of worker_weight] good_worker [OF g i st] by (metis add_less_mono1 add_less_cancel_left queued_def weight_def)
qed

lemma weight_listener:
  assumes g: "good bs c cc rc tk wr nt m" and j: "j < length (m_listeners m)" and st: "listener_step wops j m = Some m'"
  shows "weight m' < weight m"
proof -
  obtain l where l: "m_listeners m = [l]" "j = 0" "listener_at c (\<lambda>r. bytes_of (bs ! r)) l rc tk wr nt"
    using g j by (auto simp: good_def split: if_splits)
  have z: "z_results (m_z m) = Some c" "c < length (m_chans m)" "ok (z_w (m_z m))" using g by (simp_all add: good_def)
  show ?thesis
  proof (cases l)
    case (L_write c' r b)
    obtain w' where "op_write wops (z_w (m_z m)) b = (length b, None, w')" using write_ok [OF z(3)] by blast
    then show ?thesis using l st z L_write by (auto simp: listener_step_def weight_def queued_def)
  qed (use l st z in \<open>auto simp: listener_step_def weight_def queued_def upd_chan_def upd_result_def split: list.splits option.splits if_splits\<close>)
qed

lemma weight_main:
  assumes inv: "pf_inv cs m" and st: "main_step m = Some m'"
  shows "weight m' < weight m"
proof -
  obtain bs c cc rc tk wr nt where g: "good bs c cc rc tk wr nt m"
    and ma: "main_at B (last_call cs) (z_started (m_z m)) (z_closed (m_z m)) cc (length (z_currentBuffer (m_z m))) (length bs) nt (m_pc m) (m_stack m)"
    using inv unfolding pf_inv_def by blast
  have ne: "z_err (m_z m) = None" "z_blockSize (m_z m) = int B" "z_results (m_z m) = Some c" "c < length (m_chans m)" using g by (simp_all add: good_def)
  show ?thesis
  proof (cases "m_pc m")
    case (Return n e)
    then show ?thesis using ma st ne by (cases "m_stack m") (auto simp: main_step_defs resume_def weight_def queued_def syncing_def in_round_iff)
  next
    case (Write_loop p q)
    have b: "length (z_currentBuffer (m_z m)) < B" using ma Write_loop by simp
    show ?thesis
    proof (cases "q = []")
      case False
      then show ?thesis using st Write_loop ne b
        by (auto simp: main_step_defs write_round_def Let_def weight_def queued_def split: if_splits)
    qed (use st Write_loop ne in \<open>auto simp: main_step_defs weight_def queued_def\<close>)
  qed (use st ma ne in \<open>auto simp: main_step_defs start_Writer_def closeResults_def upd_chan_def weight_def queued_def Let_def split: if_splits\<close>)
qed

lemma weight_send:
  assumes inv: "pf_inv cs m" and st: "select_send m = Some m'"
  shows "weight m' < weight m"
proof -
  obtain bs c cc rc tk wr nt where g: "good bs c cc rc tk wr nt m"
    and ma: "main_at B (last_call cs) (z_started (m_z m)) (z_closed (m_z m)) cc (length (z_currentBuffer (m_z m))) (length bs) nt (m_pc m) (m_stack m)"
    using inv unfolding pf_inv_def by blast
  obtain f where f: "m_pc m = Select f" using st by (cases "m_pc m") (simp_all add: select_send_def)
  have "cc = False" "length (z_currentBuffer (m_z m)) \<le> B" using ma f by (auto simp: in_round_iff syncing_def writing_def)
  then have "\<not> 2 * int B < int (length (z_currentBuffer (m_z m)))" by linarith
  then show ?thesis
    using st g f \<open>cc = False\<close> by (auto simp: select_send_def dispatch_def weight_def queued_def upd_chan_def good_def Let_def split: if_splits)
qed

lemma weight_step: "pf_inv cs m \<Longrightarrow> pf_step wops deflate m m' \<Longrightarrow> weight m' < weight m"
proof (erule pf_step.cases, goal_cases)
  case (3 m1 m2)
  then show ?case by (auto simp: pf_inv_def good_def select_pushedErr_def split: pf_pc.splits if_splits)
next
  case (4 i m1 m2)
  then show ?case using weight_worker unfolding pf_inv_def by blast
next
  case (5 j m1 m2)
  then show ?case using weight_listener unfolding pf_inv_def by blast
qed (simp_all add: weight_main weight_send)

end

context pf_run
begin

lemma pf_inv_returned:
  assumes inv: "pf_inv cs m" and r: "returned m"
  shows "\<exists>n. m_pc m = Return n None \<and> returns (last_call cs) n \<and>
    (last_call cs = Some PFlush \<or> last_call cs = Some PClose \<longrightarrow>
      out (z_w (m_z m)) = out (z_w (m_z m0)) @ concat (map bytes_of (blocks_of B cs)))"
proof -
  obtain bs c cc rc tk wr nt where g: "good bs c cc rc tk wr nt m"
    and ma: "main_at B (last_call cs) (z_started (m_z m)) (z_closed (m_z m)) cc (length (z_currentBuffer (m_z m))) (length bs) nt (m_pc m) (m_stack m)"
    and sp: "split_calls B cs = rest B (m_pc m # m_stack m) (bs, z_currentBuffer (m_z m), z_prevTail (m_z m), z_closed (m_z m))"
    using inv unfolding pf_inv_def by blast
  obtain n e where pc: "m_pc m = Return n e" "m_stack m = []" using r by (auto simp: returned_def)
  then have "blocks_of B cs = bs" using sp by (simp add: blocks_of_def)
  moreover have "nt = length bs \<Longrightarrow> wr = length bs" using good_counts [OF g] by linarith
  ultimately show ?thesis using ma g pc by (auto simp: syncing_def good_def)
qed

lemma pf_session_prefix:
  assumes "pf_session wops deflate m0 cs m" "proper cs"
  shows "z_err (m_z m) = None \<and> (\<forall>s. m_pc m \<noteq> Panicked s) \<and> (\<exists>k \<le> length (blocks_of B cs). out (z_w (m_z m)) = out (z_w (m_z m0)) @ concat (map bytes_of (take k (blocks_of B cs))))"
proof -
  obtain bs c cc rc tk wr nt where g: "good bs c cc rc tk wr nt m"
    and ma: "main_at B (last_call cs) (z_started (m_z m)) (z_closed (m_z m)) cc (length (z_currentBuffer (m_z m))) (length bs) nt (m_pc m) (m_stack m)"
    and sp: "split_calls B cs = rest B (m_pc m # m_stack m) (bs, z_currentBuffer (m_z m), z_prevTail (m_z m), z_closed (m_z m))"
    using pf_inv_session [OF assms] unfolding pf_inv_def by blast
  have "\<exists>bs'. fst (rest B pcs (bs, st)) = bs @ bs'" for pcs st
    by (induction pcs arbitrary: bs st) (auto split: prod.splits, metis append.assoc)
  then obtain bs' where bs': "blocks_of B cs = bs @ bs'" unfolding blocks_of_def sp by blast
  have "wr \<le> length bs" using good_counts [OF g] by linarith
  then have "\<exists>k \<le> length (blocks_of B cs). out (z_w (m_z m)) = out (z_w (m_z m0)) @ concat (map bytes_of (take k (blocks_of B cs)))"
    using g bs' by (intro exI [of _ wr]) (simp add: good_def)
  moreover have "z_err (m_z m) = None" using g by (simp add: good_def)
  ultimately show ?thesis using ma by auto
qed

lemma pf_session_returns:
  assumes "pf_session wops deflate m0 cs m" "proper cs"
  shows "inevitable (pf_step wops deflate) (\<lambda>m'. returned m' \<and> (\<exists>n. m_pc m' = Return n None \<and> returns (last_call cs) n) \<and>
    (last_call cs = Some PFlush \<or> last_call cs = Some PClose \<longrightarrow>
      out (z_w (m_z m')) = out (z_w (m_z m0)) @ concat (map bytes_of (blocks_of B cs)))) m"
proof (rule inevitable_measure [where I = "pf_inv cs" and f = weight])
  show "pf_inv cs m" by (rule pf_inv_session [OF assms])
  fix s s'
  assume s: "pf_inv cs s" "pf_step wops deflate s s'"
  show "pf_inv cs s'" by (rule pf_inv_step [OF s])
  show "weight s' < weight s" by (rule weight_step [OF s])
next
  fix s
  assume "pf_inv cs s" "\<not> (returned s \<and> (\<exists>n. m_pc s = Return n None \<and> returns (last_call cs) n) \<and>
    (last_call cs = Some PFlush \<or> last_call cs = Some PClose \<longrightarrow>
      out (z_w (m_z s)) = out (z_w (m_z m0)) @ concat (map bytes_of (blocks_of B cs))))"
  then show "\<exists>s'. pf_step wops deflate s s'" using pf_inv_returned [of cs s] pf_progress [of cs s] by blast
qed

end

end
