(* ===== verification/Pflate_Run.thy ===== *)
theory Pflate_Run
  imports Pflate_Live "HOL-Library.Sublist"
begin

text \<open>
  What \<^verbatim>\<open>pflate.Writer\<close> does, from \<^verbatim>\<open>NewWriter\<close> on: the blocks make up the data, calls return, the
  output is in order; and what goes wrong when the writer below fails and after \<^verbatim>\<open>Reset\<close>.
\<close>

section \<open>The blocks make up the data\<close>

abbreviation block_data :: "pf_block \<Rightarrow> byte list" where
  "block_data b \<equiv> fst (snd b)"

abbreviation block_last :: "pf_block \<Rightarrow> bool" where
  "block_last b \<equiv> snd (snd b)"

fun call_data :: "'w pf_call \<Rightarrow> byte list" where
  "call_data (PWrite p) = p"
| "call_data _ = []"

definition written :: "'w pf_call list \<Rightarrow> byte list" where
  "written cs = concat (map call_data cs)"

lemma written_snoc [simp]: "written (cs @ [c]) = written cs @ call_data c"
  by (simp add: written_def)

text \<open>
  Blocks whose compressed forms make one stream: only the last one closes it, and the dictionary of each is
  the end of the data before it, not longer than the window of the format.
\<close>

definition chained :: "pf_block list \<Rightarrow> bool" where
  "chained bs \<longleftrightarrow> (\<forall>i < length bs. suffix (fst (bs ! i)) (concat (map block_data (take i bs))) \<and> length (fst (bs ! i)) \<le> 32768)"

definition sealed :: "pf_block list \<Rightarrow> bool" where
  "sealed bs \<longleftrightarrow> bs \<noteq> [] \<and> block_last (last bs) \<and> (\<forall>b \<in> set (butlast bs). \<not> block_last b)"

lemma chained_snoc:
  "chained (bs @ [b]) \<longleftrightarrow> chained bs \<and> suffix (fst b) (concat (map block_data bs)) \<and> length (fst b) \<le> 32768"
  by (auto simp: chained_def nth_append less_Suc_eq)

lemma tail_of_suffix: "suffix (tail_of c) c \<and> length (tail_of c) \<le> 32768"
  by (simp add: tail_of_def suffix_drop tailSize_def)

text \<open>The blocks so far, what is buffered and the next dictionary.\<close>

definition split_ok :: "nat \<Rightarrow> byte list \<Rightarrow> pf_block list \<times> pf_split \<Rightarrow> bool" where
  "split_ok B d = (\<lambda>(bs, buf, tail, cl). chained bs \<and> suffix tail (concat (map block_data bs)) \<and> length tail \<le> 32768 \<and>
     concat (map block_data bs) @ buf = d \<and> (\<forall>b \<in> set bs. length (block_data b) \<le> B) \<and> length buf < B \<and>
     (if cl then sealed bs \<and> buf = [] else \<forall>b \<in> set bs. \<not> block_last b))"

lemma split_ok_block:
  assumes "split_ok B d (bs, buf, tail, False)" "length (buf @ q) \<le> B" "0 < B"
  shows "split_ok B (d @ q) (bs @ [(tail, buf @ q, cl)], [], tail_of (buf @ q), cl)"
proof -
  have "suffix (tail_of (buf @ q)) (concat (map block_data (bs @ [(tail, buf @ q, cl)])))"
    using tail_of_suffix [of "buf @ q"] by (simp add: suffix_append)
  then show ?thesis using assms tail_of_suffix [of "buf @ q"] by (auto simp: split_ok_def chained_snoc sealed_def)
qed

lemma split_write_ok:
  assumes "split_ok B d (bs, buf, tail, False)" "0 < B"
  shows "split_ok B (d @ q) (split_seq (split_write B q) (bs, buf, tail, False))"
  using assms
proof (induction "length q" arbitrary: d bs buf tail q rule: less_induct)
  case less
  show ?case
  proof (cases "length buf + length q < B")
    case True
    then show ?thesis using less.prems by (auto simp: split_write_less split_ok_def)
  next
    case False
    have b: "length buf < B" using less.prems(1) by (simp add: split_ok_def)
    let ?n = "B - length buf"
    let ?c = "buf @ take ?n q"
    have "split_ok B (d @ take ?n q) (bs @ [(tail, ?c, False)], [], tail_of ?c, False)"
      using less.prems b False by (intro split_ok_block) auto
    moreover have "length (drop ?n q) < length q" using b False by simp
    ultimately have "split_ok B ((d @ take ?n q) @ drop ?n q) (split_seq (split_write B (drop ?n q)) (bs @ [(tail, ?c, False)], [], tail_of ?c, False))"
      using less.hyps less.prems(2) by blast
    moreover have "split_write B q (buf, tail, False) = (case split_write B (drop ?n q) ([], tail_of ?c, False) of (bs, st) \<Rightarrow> ((tail, ?c, False) # bs, st))"
      using False b by (intro split_write_ge) auto
    ultimately show ?thesis by (simp add: split_def)
  qed
qed

lemma split_calls_ok:
  assumes "proper cs" "0 < B"
  shows "split_ok B (written cs) (split_calls B cs)"
  using assms(1)
proof (induction cs rule: rev_induct)
  case Nil
  show ?case using assms(2) by (simp add: split_ok_def chained_def written_def)
next
  case (snoc c cs)
  obtain bs buf tail cl where s: "split_calls B cs = (bs, buf, tail, cl)" by (metis prod_cases4)
  have ih: "split_ok B (written cs) (bs, buf, tail, cl)" and cl: "cl \<longleftrightarrow> PClose \<in> set cs"
    using snoc s split_calls_closed [of cs B] by (simp_all add: proper_snoc)
  have blk: "split_ok B (written cs) (bs @ [(tail, buf, cl')], [], tail_of buf, cl')" if "\<not> cl" for cl'
  proof -
    have "length (buf @ []) \<le> B" "split_ok B (written cs) (bs, buf, tail, False)" using ih that by (simp_all add: split_ok_def)
    from split_ok_block [OF this(2,1) assms(2), of cl'] show ?thesis by simp
  qed
  show ?case
  proof (cases c)
    case (PWrite p)
    then have "\<not> cl" using snoc.prems cl by (simp add: proper_snoc)
    then show ?thesis using split_write_ok [of B "written cs" bs buf tail p] ih assms(2) PWrite by (simp add: s)
  next
    case PFlush
    then show ?thesis using ih blk by (cases cl) (simp_all add: s split_emit_def)
  next
    case PClose
    then show ?thesis using ih blk by (cases cl) (simp_all add: s split_emit_def)
  qed (use snoc.prems in \<open>simp add: proper_snoc\<close>)
qed

lemma flushed_buffer:
  assumes "proper (cs @ [c])" "c = PFlush \<or> c = PClose" "0 < B"
  shows "fst (snd (split_calls B (cs @ [c]))) = []"
proof -
  obtain bs buf tail cl where s: "split_calls B cs = (bs, buf, tail, cl)" by (metis prod_cases4)
  have "split_ok B (written cs) (bs, buf, tail, cl)" using split_calls_ok [of cs B] assms s by (simp add: proper_snoc)
  then show ?thesis using assms(2) s by (auto simp: split_ok_def split_emit_def)
qed

text \<open>
  C14. How \<^verbatim>\<open>Write\<close> splits the data: after \<^verbatim>\<open>Flush\<close> or \<^verbatim>\<open>Close\<close> the blocks, joined, are
  exactly the data written; no block is longer than the block size; the dictionary of each block is the end of
  the data before it and fits the window; \<^verbatim>\<open>Close\<close> marks the last block, and only that, as the end of the
  stream.
\<close>

theorem blocks_of_correct:
  assumes "proper (cs @ [c])" "c = PFlush \<or> c = PClose" "0 < B"
  shows "concat (map block_data (blocks_of B (cs @ [c]))) = written (cs @ [c]) \<and> chained (blocks_of B (cs @ [c])) \<and>
    (\<forall>b \<in> set (blocks_of B (cs @ [c])). length (block_data b) \<le> B) \<and>
    (if PClose \<in> set (cs @ [c]) then sealed (blocks_of B (cs @ [c])) else \<forall>b \<in> set (blocks_of B (cs @ [c])). \<not> block_last b)"
  using split_calls_ok [OF assms(1,3)] flushed_buffer [OF assms] split_calls_closed [OF assms(1), of B]
  by (auto simp: split_ok_def blocks_of_def simp del: split_calls_simps split: prod.splits if_splits)

theorem blocks_of_correct_witness:
  "blocks_of 4 [PWrite [1, 2, 3], PFlush, PWrite [4, 5, 6, 7, 8], PClose :: unit pf_call] =
     [([], [1, 2, 3], False), ([], [4, 5, 6, 7], False), ([], [8], True)] \<and>
   concat (map block_data (blocks_of 4 [PWrite [1, 2, 3], PFlush, PWrite [4, 5, 6, 7, 8], PClose :: unit pf_call])) = [1, 2, 3, 4, 5, 6, 7, 8]"
proof -
  have e: "blocks_of 4 [PWrite [1, 2, 3], PFlush, PWrite [4, 5, 6, 7, 8], PClose :: unit pf_call] =
     [([], [1, 2, 3], False), ([], [4, 5, 6, 7], False), ([], [8], True)]"
    by (simp add: blocks_of_def split_calls_def split_write.simps split_emit_def tail_of_def tailSize_def)
  have "concat (map block_data (blocks_of 4 ([PWrite [1, 2, 3], PFlush, PWrite [4, 5, 6, 7, 8]] @ [PClose :: unit pf_call]))) =
      written ([PWrite [1, 2, 3], PFlush, PWrite [4, 5, 6, 7, 8]] @ [PClose :: unit pf_call])"
    using blocks_of_correct [of "[PWrite [1, 2, 3], PFlush, PWrite [4, 5, 6, 7, 8]]" "PClose :: unit pf_call" 4] by simp
  then show ?thesis using e by (simp del: written_snoc add: written_def)
qed

section \<open>A Writer from NewWriter\<close>

lemma default_Writer:
  "snd (SetConcurrency defaultBlockSize defaultBlocks (new_Writer w)) =
     upd_z (\<lambda>z. z\<lparr>z_blockSize := 262144, z_results := Some 0, z_blocks := 16\<rparr>)
       ((new_Writer w)\<lparr>m_chans := [\<lparr>ch_cap = 16, ch_queue = [], ch_closed = False\<rparr>]\<rparr>)"
  by (simp add: SetConcurrency_def max_chan_def defaultBlockSize_def defaultBlocks_def tailSize_def new_Writer_def)

lemma fresh_NewWriter:
  assumes "pf_NewWriter w level = Inr m" "SetConcurrency blockSize blocks m = (None, m0)" "blockSize \<le> 2 ^ 47"
  shows "fresh (nat blockSize) m0 \<and> z_level (m_z m0) = level \<and> z_w (m_z m0) = w"
proof -
  have m: "m = pf_init w level (snd (SetConcurrency defaultBlockSize defaultBlocks (new_Writer w)))"
    using assms(1) by (auto simp: pf_NewWriter_def split: if_splits)
  have f: "fresh 262144 m \<and> z_level (m_z m) = level \<and> z_w (m_z m) = w \<and> z_blocks (m_z m) = 16"
    unfolding m default_Writer by (simp add: pf_init_def fresh_def new_Writer_def tailSize_def)
  show ?thesis
  proof (cases "blockSize = 262144 \<and> blocks = 16")
    case True
    then show ?thesis using f assms(2) by (auto simp: SetConcurrency_def max_chan_def fresh_def tailSize_def)
  next
    case False
    then show ?thesis using f assms(2,3) by (auto simp: SetConcurrency_def max_chan_def fresh_def tailSize_def nth_append split: if_splits)
  qed
qed

lemma pf_run_NewWriter:
  assumes "ok_writer wops ok out" "ok w" "\<forall>t p cl. deflate level t p cl = Inr (deflated t p cl)"
    and "pf_NewWriter w level = Inr m" "SetConcurrency blockSize blocks m = (None, m0)" "blockSize \<le> 2 ^ 47"
  shows "pf_run wops ok out deflate deflated level (nat blockSize) m0"
  using assms fresh_NewWriter [OF assms(4-6)] by (simp add: pf_run_def pf_run_axioms_def)

text \<open>
  C9. Whatever way the goroutines are scheduled, every call of \<^verbatim>\<open>Write\<close>, \<^verbatim>\<open>Flush\<close> and
  \<^verbatim>\<open>Close\<close> returns, with no error and, for \<^verbatim>\<open>Write\<close>, the length of the data; and when
  \<^verbatim>\<open>Flush\<close> or \<^verbatim>\<open>Close\<close> returns, the output is the compressed blocks of all the data given before, in
  the order of the data. This is for any sequence of calls with no \<^verbatim>\<open>Write\<close> after \<^verbatim>\<open>Close\<close>, a
  writer below and a compressor that do not fail, and any level, block size and number of blocks that are accepted.
\<close>

theorem pf_returns:
  assumes "ok_writer wops ok out" "ok w" "\<forall>t p cl. deflate level t p cl = Inr (deflated t p cl)"
    and "pf_NewWriter w level = Inr m" "SetConcurrency blockSize blocks m = (None, m0)" "blockSize \<le> 2 ^ 47"
    and "pf_session wops deflate m0 cs m1" "proper cs"
  shows "inevitable (pf_step wops deflate)
    (\<lambda>m'. returned m' \<and> (\<exists>n. m_pc m' = Return n None \<and> returns (last_call cs) n) \<and>
       (last_call cs = Some PFlush \<or> last_call cs = Some PClose \<longrightarrow>
         out (z_w (m_z m')) = out w @ concat (map (block_bytes deflated) (blocks_of (nat blockSize) cs)))) m1"
proof -
  have "pf_run wops ok out deflate deflated level (nat blockSize) m0" using assms(1-6) by (rule pf_run_NewWriter)
  from pf_run.pf_session_returns [OF this assms(7,8)] show ?thesis using fresh_NewWriter [OF assms(4-6)] by simp
qed

text \<open>
  C12. At every moment of such a run, between any two steps of any goroutines, there is no error and
  no panic, and the output is the compressed form of the first blocks of the data, in order and complete: no
  block is written twice, left out, torn or out of its turn.
\<close>

theorem pf_output_prefix:
  assumes "ok_writer wops ok out" "ok w" "\<forall>t p cl. deflate level t p cl = Inr (deflated t p cl)"
    and "pf_NewWriter w level = Inr m" "SetConcurrency blockSize blocks m = (None, m0)" "blockSize \<le> 2 ^ 47"
    and "pf_session wops deflate m0 cs m1" "proper cs"
  shows "z_err (m_z m1) = None \<and> (\<forall>s. m_pc m1 \<noteq> Panicked s) \<and>
    (\<exists>k \<le> length (blocks_of (nat blockSize) cs).
       out (z_w (m_z m1)) = out w @ concat (map (block_bytes deflated) (take k (blocks_of (nat blockSize) cs))))"
proof -
  have "pf_run wops ok out deflate deflated level (nat blockSize) m0" using assms(1-6) by (rule pf_run_NewWriter)
  from pf_run.pf_session_prefix [OF this assms(7,8)] show ?thesis using fresh_NewWriter [OF assms(4-6)] by simp
qed

text \<open>A \<^verbatim>\<open>Writer\<close> on a buffer, with a compressor that stores its input.\<close>

definition a_writer :: "byte list pf_machine" where
  "a_writer = snd (SetConcurrency 20000 2 (pf_init [] 5 (snd (SetConcurrency defaultBlockSize defaultBlocks (new_Writer [])))))"

lemma a_writer_made:
  "pf_NewWriter [] 5 = Inr (pf_init [] 5 (snd (SetConcurrency defaultBlockSize defaultBlocks (new_Writer ([] :: byte list)))))"
  "SetConcurrency 20000 2 (pf_init [] 5 (snd (SetConcurrency defaultBlockSize defaultBlocks (new_Writer [])))) = (None, a_writer)"
proof -
  show "pf_NewWriter [] 5 = Inr (pf_init [] 5 (snd (SetConcurrency defaultBlockSize defaultBlocks (new_Writer ([] :: byte list)))))"
    by (simp add: pf_NewWriter_def)
  show "SetConcurrency 20000 2 (pf_init [] 5 (snd (SetConcurrency defaultBlockSize defaultBlocks (new_Writer [])))) = (None, a_writer)"
    unfolding a_writer_def default_Writer by (simp add: SetConcurrency_def max_chan_def tailSize_def pf_init_def)
qed

lemma a_writer_session: "pf_session buffer_ops d a_writer [c] (goto (enter c) a_writer)"
proof -
  have "returned a_writer" unfolding a_writer_def default_Writer by (simp add: returned_def SetConcurrency_def max_chan_def tailSize_def pf_init_def new_Writer_def)
  from pf_session.invoke [OF pf_session.start this, of buffer_ops d c] show ?thesis by simp
qed

abbreviation stored :: pf_deflate where
  "stored \<equiv> \<lambda>l t p cl. Inr p"

lemma a_stored: "\<forall>t p cl. stored 5 t p cl = Inr ((\<lambda>t p cl. p) t p cl)"
  by simp

interpretation sample: pf_run buffer_ops "\<lambda>_. True" "\<lambda>w. w" stored "\<lambda>t p cl. p" 5 "nat 20000" a_writer
  by (rule pf_run_NewWriter [OF buffer.always.ok_writer_axioms TrueI a_stored a_writer_made]) simp

theorem pf_returns_witness:
  "inevitable (pf_step buffer_ops stored) (\<lambda>m'. returned m' \<and> m_pc m' = Return 2 None) (goto (enter (PWrite [7, 8])) a_writer)"
  using pf_returns [OF buffer.always.ok_writer_axioms TrueI a_stored a_writer_made _ a_writer_session [where c = "PWrite [7, 8]"]]
  by (simp add: last_call_def returns_def conj_commute numeral_2_eq_2)

theorem pf_output_prefix_witness:
  "z_err (m_z (goto (enter PClose) a_writer)) = None \<and>
   (\<exists>k \<in> {0, 1}. z_w (m_z (goto (enter PClose) a_writer)) = concat (map (block_bytes (\<lambda>t p cl. p)) (take k (blocks_of 20000 [PClose :: unit pf_call]))))"
proof -
  have b: "length (blocks_of (nat 20000) [PClose :: byte list pf_call]) = 1" "blocks_of 20000 [PClose :: unit pf_call] = blocks_of (nat 20000) [PClose :: byte list pf_call]"
    by (simp_all add: blocks_of_def split_calls_def split_emit_def)
  have "z_err (m_z (goto (enter PClose) a_writer)) = None \<and> (\<forall>s. m_pc (goto (enter PClose) a_writer) \<noteq> Panicked s) \<and>
    (\<exists>k \<le> length (blocks_of (nat 20000) [PClose :: byte list pf_call]).
       z_w (m_z (goto (enter PClose) a_writer)) = [] @ concat (map (block_bytes (\<lambda>t p cl. p)) (take k (blocks_of (nat 20000) [PClose :: byte list pf_call]))))"
    by (rule pf_output_prefix [OF buffer.always.ok_writer_axioms TrueI a_stored a_writer_made _ a_writer_session]) simp_all
  then show ?thesis unfolding b(2) using b(1) by (auto simp: le_Suc_eq)
qed

section \<open>When the writer below fails, and Reset\<close>

text \<open>A run given by the goroutine that makes each step.\<close>

datatype pf_choice = Main | Send | Worker nat | Listener nat

fun pf_exec :: "'w io_writer_ops \<Rightarrow> pf_deflate \<Rightarrow> pf_choice \<Rightarrow> 'w pf_machine \<Rightarrow> 'w pf_machine option" where
  "pf_exec wops deflate Main m = main_step m"
| "pf_exec wops deflate Send m = select_send m"
| "pf_exec wops deflate (Worker i) m = (if i < length (m_workers m) then compressBlock_step deflate i m else None)"
| "pf_exec wops deflate (Listener j) m = (if j < length (m_listeners m) then listener_step wops j m else None)"

fun pf_schedule :: "'w io_writer_ops \<Rightarrow> pf_deflate \<Rightarrow> pf_choice list \<Rightarrow> 'w pf_machine \<Rightarrow> 'w pf_machine option" where
  "pf_schedule wops deflate [] m = Some m"
| "pf_schedule wops deflate (x # xs) m = (case pf_exec wops deflate x m of None \<Rightarrow> None | Some m' \<Rightarrow> pf_schedule wops deflate xs m')"

lemma pf_exec_step: "pf_exec wops deflate x m = Some m' \<Longrightarrow> pf_step wops deflate m m'"
  by (cases x) (auto intro: pf_step.intros split: if_splits)

lemma pf_schedule_session:
  "pf_session wops deflate m0 cs m \<Longrightarrow> pf_schedule wops deflate xs m = Some m' \<Longrightarrow> pf_session wops deflate m0 cs m'"
proof (induction xs arbitrary: m)
  case (Cons x xs)
  then obtain m1 where "pf_exec wops deflate x m = Some m1" "pf_schedule wops deflate xs m1 = Some m'" by (auto split: option.splits)
  then show ?case using Cons pf_session.step [OF Cons.prems(1) pf_exec_step] by blast
qed simp

text \<open>A \<^verbatim>\<open>Writer\<close> for blocks of 20000 bytes, and the states of two runs on it.\<close>

definition b_writer :: "'w \<Rightarrow> 'w pf_machine" where
  "b_writer w =
     \<lparr>m_z = \<lparr>z_started = False, z_w = w, z_level = 5, z_blockSize = 20000, z_blocks = 16, z_currentBuffer = [], z_prevTail = [], z_size = 0,
              z_closed = False, z_buf = replicate 10 0, z_err = None, z_pushedErr = False, z_results = Some 2\<rparr>,
      m_chans = replicate 3 \<lparr>ch_cap = 16, ch_queue = [], ch_closed = False\<rparr>, m_results = [], m_workers = [], m_listeners = [],
      m_pc = Return 0 None, m_stack = []\<rparr>"

lemma b_writer_made: "\<exists>m. pf_NewWriter w 5 = Inr m \<and> SetConcurrency 20000 16 m = (None, b_writer w)"
proof -
  have "SetConcurrency 20000 16 (pf_init w 5 (snd (SetConcurrency defaultBlockSize defaultBlocks (new_Writer w)))) = (None, b_writer w)"
    unfolding default_Writer
    by (simp add: SetConcurrency_def max_chan_def tailSize_def pf_init_def new_Writer_def b_writer_def numeral_3_eq_3)
  then show ?thesis by (simp add: pf_NewWriter_def)
qed

definition full_disk :: "'w io_writer_ops" where
  "full_disk = \<lparr>op_write = (\<lambda>w p. (0, Some (ErrMsg ''no space left on device''), w))\<rparr>"

lemmas run_simps = main_step_defs select_send_def start_Writer_def write_round_def dispatch_def resume_def upd_chan_def upd_result_def
  compressBlock_step_def listener_step_def Let_def b_writer_def numeral_3_eq_3 tailSize_def

definition b_block :: "byte list \<Rightarrow> 'w \<Rightarrow> 'w pf_machine" where
  "b_block d w = (b_writer w)\<lparr>
     m_z := (m_z (b_writer w))\<lparr>z_started := True, z_size := i64 20000, z_prevTail := drop 3616 d\<rparr>,
     m_chans := (replicate 3 \<lparr>ch_cap = 16, ch_queue = [], ch_closed = False\<rparr>)[2 := \<lparr>ch_cap = 16, ch_queue = [0], ch_closed = False\<rparr>],
     m_results := [\<lparr>r_result = None, r_closed = False, r_notifyWritten = False\<rparr>],
     m_workers := [W_run d [] 0 False], m_listeners := [L_start], m_pc := Return 20000 None\<rparr>"

lemma b_writer_block:
  assumes "length d = 20000"
  shows "pf_schedule wops stored [Main, Main, Send, Main, Main, Main, Main] (goto (enter (PWrite d)) (b_writer w)) = Some (b_block d w)"
proof -
  have "d \<noteq> []" using assms by auto
  then show ?thesis using assms by (simp add: run_simps b_block_def)
qed

lemma b_block_session:
  assumes "length d = 20000"
  shows "pf_session wops stored (b_writer w) [PWrite d, c] (goto (enter c) (b_block d w))"
proof -
  have "returned (b_writer w)" "returned (b_block d w)" by (simp_all add: returned_def b_writer_def b_block_def)
  from pf_session.invoke [OF pf_session.start this(1), of wops stored "PWrite d"]
  have "pf_session wops stored (b_writer w) [PWrite d] (b_block d w)" by (intro pf_schedule_session [OF _ b_writer_block [OF assms]]) simp
  from pf_session.invoke [OF this \<open>returned (b_block d w)\<close>, of c] show ?thesis by simp
qed

text \<open>
  C37. When the writer below fails, \<^verbatim>\<open>Close\<close> can block forever: the goroutine that writes the results ends
  at the first error and reports only the block it failed on; if \<^verbatim>\<open>Close\<close> has sent its block before that, it waits
  for a report that never comes. The state is reached with one full block and \<^verbatim>\<open>Close\<close>, and no
  goroutine can make a step in it.
\<close>

theorem pf_Close_deadlock:
  "\<exists>m m1. pf_NewWriter () 5 = Inr m \<and> SetConcurrency 20000 16 m = (None, b_writer ()) \<and>
     pf_session full_disk stored (b_writer ()) [PWrite (replicate 20000 0), PClose] m1 \<and>
     \<not> returned m1 \<and> (\<nexists>m'. pf_step full_disk stored m1 m')"
proof -
  let ?d = "replicate 20000 (0 :: byte)"
  have l: "length ?d = 20000" by simp
  have "\<exists>m1. pf_schedule full_disk stored ([Main, Main, Send] @ [Worker 0, Worker 0, Worker 1, Worker 1] @ [Listener 0, Listener 0, Listener 0, Listener 0, Listener 0, Listener 0])
      (goto (enter PClose) (b_block d ())) = Some m1 \<and> m_pc m1 = Await 1 \<and> m_workers m1 = [W_done, W_done] \<and> m_listeners m1 = [L_done] \<and>
      \<not> r_notifyWritten (m_results m1 ! 1)" for d
    by (simp add: run_simps b_block_def full_disk_def)
  then obtain m1 where m1: "pf_schedule full_disk stored ([Main, Main, Send] @ [Worker 0, Worker 0, Worker 1, Worker 1] @ [Listener 0, Listener 0, Listener 0, Listener 0, Listener 0, Listener 0])
      (goto (enter PClose) (b_block ?d ())) = Some m1" "m_pc m1 = Await 1" "m_workers m1 = [W_done, W_done]" "m_listeners m1 = [L_done]"
      "\<not> r_notifyWritten (m_results m1 ! 1)" by blast
  have "pf_session full_disk stored (b_writer ()) [PWrite ?d, PClose] m1" by (rule pf_schedule_session [OF b_block_session [OF l] m1(1)])
  moreover have "\<not> pf_step full_disk stored m1 m'" for m'
  proof
    assume "pf_step full_disk stored m1 m'"
    then show False
      using m1(2-5) by cases (auto simp: main_step_defs select_send_def select_pushedErr_def compressBlock_step_def listener_step_def less_Suc_eq)
  qed
  moreover have "\<not> returned m1" using m1(2) by (simp add: returned_def)
  ultimately show ?thesis using b_writer_made [of "()"] by blast
qed

text \<open>One full block written to a \<^verbatim>\<open>Writer\<close> that is ready, and not yet compressed.\<close>

lemma fresh_block:
  assumes f: "fresh B m0" and d: "length d = B"
  obtains m1 c where "pf_schedule wops deflate [Main, Main, Send, Main, Main, Main, Main] (goto (enter (PWrite d)) m0) = Some m1"
    "m_pc m1 = Return B None" "m_stack m1 = []" "m_workers m1 = [W_run d [] 0 False]" "m_listeners m1 = [L_start]"
    "m_results m1 = [\<lparr>r_result = None, r_closed = False, r_notifyWritten = False\<rparr>]"
    "z_results (m_z m1) = Some c" "c < length (m_chans m1)" "ch_queue (m_chans m1 ! c) = [0]" "\<not> ch_closed (m_chans m1 ! c)"
    "z_level (m_z m1) = z_level (m_z m0)" "\<not> z_closed (m_z m1)"
proof -
  obtain c where c: "z_results (m_z m0) = Some c" "c < length (m_chans m0)" "0 < ch_cap (m_chans m0 ! c)" "ch_queue (m_chans m0 ! c) = []"
    "\<not> ch_closed (m_chans m0 ! c)" using f by (auto simp: fresh_def)
  have "d \<noteq> []" "int B \<le> 2 ^ 48" using f d by (auto simp: fresh_def)
  then show thesis
    using that [of _ c] f c d
    by (simp add: fresh_def main_step_defs select_send_def start_Writer_def write_round_def dispatch_def resume_def upd_chan_def Let_def)
qed

text \<open>
  C38. \<^verbatim>\<open>Reset\<close> does not discard what was written before: it waits for the compressors but not for the
  goroutine that writes, and that one uses the field \<^verbatim>\<open>w\<close>, which \<^verbatim>\<open>Reset\<close> has replaced. For every
  \<^verbatim>\<open>Writer\<close>, whatever its settings, every full block given to it, and whatever the old and the new buffer hold,
  there is a run in which \<^verbatim>\<open>Reset\<close> has returned and the block is appended to the new buffer.
\<close>

theorem pf_Reset_leaks:
  assumes "pf_NewWriter old level = Inr m" "SetConcurrency blockSize blocks m = (None, m0)" "blockSize \<le> 2 ^ 47"
    and "int (length d) = blockSize" "deflate level [] d False = Inr z"
  shows "\<exists>m1. pf_session buffer_ops deflate m0 [PWrite d, PReset new] m1 \<and> returned m1 \<and> z_w (m_z m1) = new @ z"
proof -
  have f: "fresh (nat blockSize) m0" and lv: "z_level (m_z m0) = level" using fresh_NewWriter [OF assms(1-3)] by simp_all
  have d: "length d = nat blockSize" using assms(4) by simp
  obtain m1 c where m1: "pf_schedule buffer_ops deflate [Main, Main, Send, Main, Main, Main, Main] (goto (enter (PWrite d)) m0) = Some m1"
    "m_pc m1 = Return (nat blockSize) None" "m_stack m1 = []" "m_workers m1 = [W_run d [] 0 False]" "m_listeners m1 = [L_start]"
    "m_results m1 = [\<lparr>r_result = None, r_closed = False, r_notifyWritten = False\<rparr>]"
    "z_results (m_z m1) = Some c" "c < length (m_chans m1)" "ch_queue (m_chans m1 ! c) = [0]" "\<not> ch_closed (m_chans m1 ! c)"
    "z_level (m_z m1) = z_level (m_z m0)" "\<not> z_closed (m_z m1)"
    by (rule fresh_block [OF f d])
  have ret: "returned m0" "returned m1" using f m1(2,3) by (simp_all add: returned_def fresh_def)
  from pf_session.invoke [OF pf_session.start ret(1), of buffer_ops deflate "PWrite d"]
  have "pf_session buffer_ops deflate m0 [PWrite d] m1" by (intro pf_schedule_session [OF _ m1(1)]) simp
  from pf_session.invoke [OF this ret(2), of "PReset new"]
  have s: "pf_session buffer_ops deflate m0 [PWrite d, PReset new] (goto (enter (PReset new)) m1)" by simp
  have "\<exists>m2. pf_schedule buffer_ops deflate [Listener 0, Main, Worker 0, Worker 0, Main, Listener 0, Listener 0, Listener 0]
      (goto (enter (PReset new)) m1) = Some m2 \<and> returned m2 \<and> z_w (m_z m2) = new @ z"
    using m1(3-12) lv assms(5)
    by (simp add: main_step_defs compressBlock_step_def listener_step_def upd_chan_def upd_result_def closeResults_def SetConcurrency_def
        pf_init_def defaultBlockSize_def defaultBlocks_def tailSize_def max_chan_def returned_def nth_append buffer_ops_def buffer_Write_def)
  then show ?thesis using pf_schedule_session [OF s] by blast
qed

theorem pf_Reset_leaks_witness:
  "\<exists>m1. pf_session buffer_ops stored (b_writer [1, 2]) [PWrite (replicate 20000 7), PReset [3]] m1 \<and> returned m1 \<and>
    z_w (m_z m1) = [3] @ replicate 20000 7"
proof -
  let ?old = "[1, 2] :: byte list" and ?d = "replicate 20000 (7 :: byte)"
  obtain m where m: "pf_NewWriter ?old 5 = Inr m" "SetConcurrency 20000 16 m = (None, b_writer ?old)" using b_writer_made [of ?old] by auto
  have "int (length ?d) = 20000" by (simp only: length_replicate of_nat_numeral)
  moreover have "(20000 :: int) \<le> 2 ^ 47" by simp
  ultimately show ?thesis using pf_Reset_leaks [OF m, of ?d stored ?d "[3]"] by blast
qed

end
