(* ===== verification/Zip_Deflate.thy ===== *)
theory Zip_Deflate
  imports Zip_Roundtrip Pflate_Run
begin

text \<open>
  The method \<^verbatim>\<open>Deflate\<close> of package \<^verbatim>\<open>zip\<close> (\<^verbatim>\<open>newFlateWriter\<close> in \<^verbatim>\<open>zip/register.go\<close>): a
  \<^verbatim>\<open>pflate.Writer\<close> with the settings of the \<^verbatim>\<open>zip.Writer\<close> refines a sequential compressor, that keeps
  the contract of compressors, and archives with stored and deflated files are read back.
\<close>

section \<open>newFlateWriter\<close>

text \<open>
  The errors of \<^verbatim>\<open>NewWriter\<close> and \<^verbatim>\<open>SetConcurrency\<close> are ignored. \<^verbatim>\<open>NewWriter\<close> returns nil
  with an error; \<^verbatim>\<open>SetConcurrency\<close> on nil fails at the first field it looks at, unless it returns before, and then
  the result is a nil \<^verbatim>\<open>Writer\<close>, here \<open>None\<close>.
\<close>

definition newFlateWriter :: "CompressionSettings \<Rightarrow> 'w \<Rightarrow> 'w pf_machine option result" where
  "newFlateWriter s w =
     (let fs = cs_Flate s
      in case pf_NewWriter w (fs_Level fs) of
           Inl e \<Rightarrow> if fs_BlockSize fs \<le> int tailSize \<or> fs_Blocks fs \<le> 0 then Inr None else Inl (Panic ''nil pointer dereference'')
         | Inr fw \<Rightarrow>
             (case SetConcurrency (fs_BlockSize fs) (fs_Blocks fs) fw of
                (Some (Panic s), fw') \<Rightarrow> Inl (Panic s)
              | (_, fw') \<Rightarrow> Inr (Some fw')))"

lemma newFlateWriter_usable:
  assumes "usable_settings s"
  obtains m fw where "newFlateWriter s w = Inr (Some m)" "pf_NewWriter w (fs_Level (cs_Flate s)) = Inr fw"
    "SetConcurrency (fs_BlockSize (cs_Flate s)) (fs_Blocks (cs_Flate s)) fw = (None, m)"
    "fs_BlockSize (cs_Flate s) \<le> 2 ^ 47" "- 2 \<le> fs_Level (cs_Flate s)" "fs_Level (cs_Flate s) \<le> 9"
proof -
  let ?fs = "cs_Flate s"
  have v: "- 2 \<le> fs_Level ?fs" "fs_Level ?fs \<le> 9" "0 < fs_Blocks ?fs" "16384 < fs_BlockSize ?fs" "fs_BlockSize ?fs \<le> 2 ^ 47" "fs_Blocks ?fs \<le> max_chan"
    using assms by (auto simp: usable_settings_def CompressionSettings_Validate_def FlateSettings_Validate_def max_chan_def split: if_splits)
  then obtain fw where fw: "pf_NewWriter w (fs_Level ?fs) = Inr fw" by (simp add: pf_NewWriter_def)
  moreover have "\<exists>m. SetConcurrency (fs_BlockSize ?fs) (fs_Blocks ?fs) fw = (None, m)" using v by (simp add: SetConcurrency_def tailSize_def)
  then obtain m where "SetConcurrency (fs_BlockSize ?fs) (fs_Blocks ?fs) fw = (None, m)" ..
  ultimately show thesis using v that [of m fw] by (simp add: newFlateWriter_def Let_def)
qed

definition honours :: "CompressionSettings \<Rightarrow> 'w \<Rightarrow> 'w pf_machine \<Rightarrow> bool" where
  "honours s w m \<longleftrightarrow>
     z_level (m_z m) = fs_Level (cs_Flate s) \<and> z_blockSize (m_z m) = fs_BlockSize (cs_Flate s) \<and>
     z_blocks (m_z m) = fs_Blocks (cs_Flate s) \<and> z_w (m_z m) = w"

lemma newFlateWriter_valid:
  assumes "CompressionSettings_Validate s = None"
  shows "if fs_Blocks (cs_Flate s) \<le> max_chan then \<exists>m. newFlateWriter s w = Inr (Some m) \<and> honours s w m
    else newFlateWriter s w = Inl (Panic ''makechan: size out of range'')"
proof -
  let ?fs = "cs_Flate s"
  have v: "- 2 \<le> fs_Level ?fs" "fs_Level ?fs \<le> 9" "0 < fs_Blocks ?fs" "16384 < fs_BlockSize ?fs"
    using assms by (auto simp: CompressionSettings_Validate_def FlateSettings_Validate_def split: if_splits)
  define fw where "fw = pf_init w (fs_Level ?fs) (snd (SetConcurrency defaultBlockSize defaultBlocks (new_Writer w)))"
  have "pf_NewWriter w (fs_Level ?fs) = Inr fw" using v by (simp add: pf_NewWriter_def fw_def)
  moreover have "z_level (m_z fw) = fs_Level ?fs" "z_w (m_z fw) = w" "z_blocks (m_z fw) = 16"
    unfolding fw_def default_Writer by (simp_all add: pf_init_def)
  ultimately show ?thesis using v by (auto simp: newFlateWriter_def Let_def SetConcurrency_def tailSize_def honours_def max_chan_def)
qed

text \<open>
  C31. Where \<^verbatim>\<open>SetCompressionSettings\<close> accepts settings, and for the defaults,
  \<^verbatim>\<open>newFlateWriter\<close> meets none of the errors that it ignores: the \<^verbatim>\<open>Writer\<close> it returns is not nil and has the
  level, the block size and the number of blocks asked for. The one exception is a number of blocks beyond what a
  channel can hold, which is accepted and makes it panic. Settings that are not accepted leave the settings of the
  \<^verbatim>\<open>zip.Writer\<close> as they are.
\<close>

theorem settings_honoured:
  "(case SetCompressionSettings s zw of
      (None, zw') \<Rightarrow> zw_compressionSettings zw' = s \<and>
        (if fs_Blocks (cs_Flate s) \<le> max_chan then \<exists>m. newFlateWriter s w = Inr (Some m) \<and> honours s w m
         else newFlateWriter s w = Inl (Panic ''makechan: size out of range''))
    | (Some e, zw') \<Rightarrow> zw' = zw) \<and>
   usable_settings defaultCompressionSettings \<and> usable_settings bestCompressionSettings"
proof -
  have "usable_settings bestCompressionSettings"
    by (simp add: usable_settings_def CompressionSettings_Validate_def FlateSettings_Validate_def bestCompressionSettings_def)
  with newFlateWriter_valid [of s w] usable_default show ?thesis
    by (auto simp: SetCompressionSettings_def split: option.splits if_splits)
qed

section \<open>The compressor as the zip writer sees it\<close>

text \<open>
  What a \<^verbatim>\<open>pflate.Writer\<close> is for a caller who only writes and closes: pieces are collected, and closing
  writes the compressed blocks one after the other.
\<close>

record flate_seq =
  fl_level :: int
  fl_blockSize :: nat
  fl_pieces :: "byte list list"

abbreviation session_of :: "byte list list \<Rightarrow> 'w pf_call list" where
  "session_of ps \<equiv> map PWrite ps @ [PClose]"

fun write_blocks :: "pf_deflate \<Rightarrow> int \<Rightarrow> 'u io_writer_ops \<Rightarrow> 'u \<Rightarrow> pf_block list \<Rightarrow> go_error option \<times> 'u" where
  "write_blocks deflate level wops u [] = (None, u)"
| "write_blocks deflate level wops u ((t, p, cl) # bs) =
     (case deflate level t p cl of
        Inl e \<Rightarrow> (Some e, u)
      | Inr z \<Rightarrow>
          (case op_write wops u z of
             (n, Some e, u') \<Rightarrow> (Some e, u')
           | (n, None, u') \<Rightarrow> if n \<noteq> length z then (Some (ErrMsg ''gzip: short write''), u') else write_blocks deflate level wops u' bs))"

definition flate_ops :: "pf_deflate \<Rightarrow> 'u io_writer_ops \<Rightarrow> (flate_seq, 'u) compressor_ops" where
  "flate_ops deflate wops =
     \<lparr>cp_write = (\<lambda>c u p. (length p, None, c\<lparr>fl_pieces := fl_pieces c @ [p]\<rparr>, u)),
      cp_close = (\<lambda>c u. case write_blocks deflate (fl_level c) wops u (blocks_of (fl_blockSize c) (session_of (fl_pieces c) :: unit pf_call list)) of
        (e, u') \<Rightarrow> (e, c, u'))\<rparr>"

definition nil_ops :: "(flate_seq, 'u) compressor_ops" where
  "nil_ops =
     \<lparr>cp_write = (\<lambda>c u p. (0, Some (Panic ''nil pointer dereference''), c, u)),
      cp_close = (\<lambda>c u. (Some (Panic ''nil pointer dereference''), c, u))\<rparr>"

definition no_pieces :: flate_seq where
  "no_pieces = \<lparr>fl_level = 0, fl_blockSize = 0, fl_pieces = []\<rparr>"

text \<open>
  The compressor that \<^verbatim>\<open>init\<close> registers for \<^verbatim>\<open>Deflate\<close>, with the sequential form of
  what \<^verbatim>\<open>newFlateWriter\<close> returns: the code's writes when the blocks are ready, this one when it is closed. For a
  writer below and a compressor that do not fail, the code's refines it, as is shown below.
\<close>

definition flate_compressor :: "pf_deflate \<Rightarrow> (flate_seq, 'u) compressor_fun" where
  "flate_compressor deflate = (\<lambda>s wops u.
     case newFlateWriter s u of
       Inl e \<Rightarrow> (Inl e, u)
     | Inr None \<Rightarrow> (Inr (nil_ops, no_pieces), u)
     | Inr (Some m) \<Rightarrow>
         (Inr (flate_ops deflate wops, \<lparr>fl_level = z_level (m_z m), fl_blockSize = nat (z_blockSize (m_z m)), fl_pieces = []\<rparr>), u))"

text \<open>The blocks of a sequence of calls do not depend on the type of the writers that \<^verbatim>\<open>Reset\<close> takes.\<close>

lemma split_call_fun:
  "split_call B (PWrite p) = split_write B p"
  "split_call B PClose = (\<lambda>(buf, tail, cl). if cl then ([], buf, tail, cl) else split_emit (buf, tail, True))"
  by (auto simp: fun_eq_iff)

lemma split_calls_session:
  "split_calls B (session_of ps :: 'a pf_call list) = split_calls B (session_of ps :: 'b pf_call list)"
proof -
  have "split_calls B (map PWrite ps :: 'a pf_call list) = split_calls B (map PWrite ps :: 'b pf_call list)"
    by (induction ps rule: rev_induct) (simp_all add: split_call_fun)
  then show ?thesis by (simp add: split_call_fun)
qed

lemma blocks_of_session: "blocks_of B (session_of ps :: 'a pf_call list) = blocks_of B (session_of ps :: 'b pf_call list)"
  unfolding blocks_of_def split_calls_session [where ?'a = 'a and ?'b = 'b] ..

lemma proper_session: "proper (map PWrite ps)" "proper (session_of ps)" "written (session_of ps) = concat ps"
proof -
  have "PClose \<notin> set (map PWrite ps)" by auto
  then show p: "proper (map PWrite ps)" by (induction ps) auto
  then show "proper (session_of ps)" by (simp add: proper_snoc)
  show "written (session_of ps) = concat ps" by (simp add: written_def comp_def)
qed

context ok_writer
begin

lemma write_blocks_ok:
  assumes "\<forall>t p cl. deflate level t p cl = Inr (deflated t p cl)" "ok u"
  shows "\<exists>u'. write_blocks deflate level wops u bs = (None, u') \<and> ok u' \<and> out u' = out u @ concat (map (block_bytes deflated) bs)"
  using assms(2)
proof (induction bs arbitrary: u)
  case (Cons b bs)
  obtain t p cl where b: "b = (t, p, cl)" by (cases b)
  obtain u1 where u1: "op_write wops u (deflated t p cl) = (length (deflated t p cl), None, u1)" "ok u1" "out u1 = out u @ deflated t p cl"
    using write_ok [OF Cons.prems] by blast
  then show ?case using Cons.IH [OF u1(2)] assms(1) by (simp add: b block_bytes_def)
qed simp

end

text \<open>
  C11. The concurrent \<^verbatim>\<open>pflate.Writer\<close> refines the sequential one that the zip writer is analysed with: for
  all settings that can be used and all pieces of data, under every scheduling of the goroutines, each \<^verbatim>\<open>Write\<close>
  inevitably returns what the sequential one returns, and \<^verbatim>\<open>Close\<close> inevitably returns, with the same bytes in
  the writer below.
\<close>

theorem pflate_refines_sequential:
  assumes "ok_writer wops ok out" "ok w" "usable_settings s"
    and "\<forall>t p cl. deflate (fs_Level (cs_Flate s)) t p cl = Inr (deflated t p cl)"
  shows "\<exists>m c. newFlateWriter s w = Inr (Some m) \<and> flate_compressor deflate s wops w = (Inr (flate_ops deflate wops, c), w) \<and>
    (\<forall>ps p m1 u. pf_session wops deflate m (map PWrite (ps @ [p])) m1 \<longrightarrow>
      inevitable (pf_step wops deflate)
        (\<lambda>m'. returned m' \<and> m_pc m' = Return (fst (cp_write (flate_ops deflate wops) c u p)) (fst (snd (cp_write (flate_ops deflate wops) c u p)))) m1) \<and>
    (\<forall>ps m1. pf_session wops deflate m (session_of ps) m1 \<longrightarrow>
      (\<exists>c' u'. cp_close (flate_ops deflate wops) (c\<lparr>fl_pieces := ps\<rparr>) w = (None, c', u') \<and>
        inevitable (pf_step wops deflate) (\<lambda>m'. returned m' \<and> m_pc m' = Return 0 None \<and> out (z_w (m_z m')) = out u') m1))"
proof -
  let ?B = "fs_BlockSize (cs_Flate s)"
  obtain m fw where m: "newFlateWriter s w = Inr (Some m)" "pf_NewWriter w (fs_Level (cs_Flate s)) = Inr fw"
      "SetConcurrency ?B (fs_Blocks (cs_Flate s)) fw = (None, m)" "?B \<le> 2 ^ 47"
    by (rule newFlateWriter_usable [OF assms(3)])
  have f: "z_level (m_z m) = fs_Level (cs_Flate s)" "z_w (m_z m) = w" "z_blockSize (m_z m) = int (nat ?B)"
    using fresh_NewWriter [OF m(2-4)] by (simp_all add: fresh_def)
  define c where "c = \<lparr>fl_level = z_level (m_z m), fl_blockSize = nat (z_blockSize (m_z m)), fl_pieces = []\<rparr>"
  have c: "fl_level c = fs_Level (cs_Flate s)" "fl_blockSize c = nat ?B" by (simp_all add: c_def f)
  have run: "pf_run wops ok out deflate deflated (fs_Level (cs_Flate s)) (nat ?B) m" using assms(1,2,4) m(2-4) by (rule pf_run_NewWriter)
  have wr: "inevitable (pf_step wops deflate) (\<lambda>m'. returned m' \<and> m_pc m' = Return (length p) None) m1"
    if "pf_session wops deflate m (map PWrite (ps @ [p])) m1" for ps p m1
    using pf_run.pf_session_returns [OF run that proper_session(1)] by (simp add: last_call_def returns_def conj_commute)
  have cl: "\<exists>c' u'. cp_close (flate_ops deflate wops) (c\<lparr>fl_pieces := ps\<rparr>) w = (None, c', u') \<and>
      inevitable (pf_step wops deflate) (\<lambda>m'. returned m' \<and> m_pc m' = Return 0 None \<and> out (z_w (m_z m')) = out u') m1"
    if "pf_session wops deflate m (session_of ps) m1" for ps m1
  proof -
    let ?bs = "blocks_of (nat ?B) (session_of ps :: 'a pf_call list)"
    obtain u' where u': "write_blocks deflate (fs_Level (cs_Flate s)) wops w ?bs = (None, u')" "out u' = out w @ concat (map (block_bytes deflated) ?bs)"
      using ok_writer.write_blocks_ok [OF assms(1), of deflate "fs_Level (cs_Flate s)" deflated w ?bs] assms(2,4) by blast
    then have "cp_close (flate_ops deflate wops) (c\<lparr>fl_pieces := ps\<rparr>) w = (None, c\<lparr>fl_pieces := ps\<rparr>, u')"
      by (simp add: flate_ops_def c blocks_of_session [where ?'a = unit and ?'b = 'a])
    moreover have "inevitable (pf_step wops deflate) (\<lambda>m'. returned m' \<and> m_pc m' = Return 0 None \<and> out (z_w (m_z m')) = out u') m1"
      using pf_run.pf_session_returns [OF run that proper_session(2)] by (simp add: last_call_def returns_def u'(2) f(2) conj_ac)
    ultimately show ?thesis by blast
  qed
  show ?thesis
    using m(1) wr cl by (intro exI [of _ m] exI [of _ c]) (simp add: flate_compressor_def c_def flate_ops_def)
qed

section \<open>Deflate keeps the contract of compressors\<close>

text \<open>
  What is relied on of the third-party package \<^verbatim>\<open>flate\<close>: with a valid level it does not fail, and the
  compressed forms of blocks that make one stream, joined, are a stream of the joined data.
\<close>

locale flate_codec =
  fixes deflate :: pf_deflate and deflated :: "int \<Rightarrow> byte list \<Rightarrow> byte list \<Rightarrow> bool \<Rightarrow> byte list"
    and inflates :: "byte list \<Rightarrow> byte list \<Rightarrow> bool"
  assumes total: "- 2 \<le> level \<Longrightarrow> level \<le> 9 \<Longrightarrow> deflate level t p cl = Inr (deflated level t p cl)"
    and stream: "- 2 \<le> level \<Longrightarrow> level \<le> 9 \<Longrightarrow> chained bs \<Longrightarrow> sealed bs \<Longrightarrow>
      inflates (concat (map (block_bytes (deflated level)) bs)) (concat (map block_data bs))"
begin

lemma session_stream:
  assumes "- 2 \<le> level" "level \<le> 9" "0 < B"
  shows "inflates (concat (map (block_bytes (deflated level)) (blocks_of B (session_of ps :: 'a pf_call list)))) (concat ps)"
proof -
  let ?cs = "session_of ps :: 'a pf_call list"
  have s: "split_ok B (concat ps) (split_calls B ?cs)" using split_calls_ok [OF proper_session(2) assms(3), of ps] by (simp only: proper_session(3))
  have cl: "snd (snd (snd (split_calls B ?cs)))" using split_calls_closed [OF proper_session(2), of B ps] by simp
  obtain bs buf tail where c: "split_calls B ?cs = (bs, buf, tail, True)" using cl by (cases "split_calls B ?cs") auto
  then have "chained bs" "sealed bs" "concat (map block_data bs) = concat ps" "blocks_of B ?cs = bs"
    using s by (auto simp: split_ok_def blocks_of_def)
  then show ?thesis using stream [OF assms(1,2)] by metis
qed

end

interpretation stored: flate_codec stored "\<lambda>l t p cl. p" "\<lambda>z d. z = d"
proof
  have "block_bytes (\<lambda>t p cl. p) = block_data" by (auto simp: block_bytes_def)
  then show "concat (map (block_bytes (\<lambda>t p cl. p)) bs) = concat (map block_data bs)" for bs by simp
qed simp

text \<open>The package's compressors, by method, and what they hold and stand for.\<close>

definition package_holds :: "16 word \<Rightarrow> flate_seq \<Rightarrow> byte list \<Rightarrow> byte list \<Rightarrow> bool" where
  "package_holds m c d z \<longleftrightarrow>
     (if m = Store then z = d
      else z = [] \<and> concat (fl_pieces c) = d \<and> 0 < fl_blockSize c \<and> - 2 \<le> fl_level c \<and> fl_level c \<le> 9)"

definition package_decodes :: "(byte list \<Rightarrow> byte list \<Rightarrow> bool) \<Rightarrow> 16 word \<Rightarrow> byte list \<Rightarrow> byte list \<Rightarrow> bool" where
  "package_decodes inflates m z d \<longleftrightarrow> (if m = Store then z = d else inflates z d)"

definition package_compressor :: "pf_deflate \<Rightarrow> 16 word \<Rightarrow> (flate_seq, 'u) compressor_fun" where
  "package_compressor deflate m = (if m = Store then store_compressor no_pieces else flate_compressor deflate)"

context ok_writer
begin

lemma comp_write:
  assumes "bok (cw_w (cw_w u))"
  shows "\<exists>u'. op_write comp_ops u p = (length p, None, u') \<and> bok (cw_w (cw_w u'))"
proof -
  obtain b where "op_write (bufio_ops wops) (cw_w (cw_w u)) p = (length p, None, b)" "bok b" using bufio_Write_ok [OF assms] by blast
  then show ?thesis by (cases u; cases "cw_w u") (simp add: count_ops_def countWriter_Write_def)
qed

lemma comp_write_blocks:
  assumes "\<forall>t p cl. deflate level t p cl = Inr (deflated t p cl)" "bok (cw_w (cw_w u))"
  shows "\<exists>u'. write_blocks deflate level comp_ops u bs = (None, u') \<and> write_all comp_ops u (map (block_bytes deflated) bs) = (None, u')"
  using assms(2)
proof (induction bs arbitrary: u)
  case (Cons b bs)
  obtain t p cl where b: "b = (t, p, cl)" by (cases b)
  obtain u1 where "op_write comp_ops u (deflated t p cl) = (length (deflated t p cl), None, u1)" "bok (cw_w (cw_w u1))"
    using comp_write [OF Cons.prems] by blast
  then show ?case using Cons.IH [of u1] assms(1) by (simp add: b block_bytes_def)
qed simp

lemma package_encoder:
  assumes "flate_codec deflate deflated inflates"
  shows "encoder wops ok out {Store, Deflate} (package_compressor deflate)
    (\<lambda>m s. if m = Store then nopCloser_ops comp_ops else flate_ops deflate comp_ops) package_holds (package_decodes inflates)"
proof
  fix m s and u :: "'w zip_out countWriter"
  assume m: "m \<in> {Store, Deflate}" and s: "usable_settings s"
  obtain z fw where z: "newFlateWriter s u = Inr (Some z)" "pf_NewWriter u (fs_Level (cs_Flate s)) = Inr fw"
      "SetConcurrency (fs_BlockSize (cs_Flate s)) (fs_Blocks (cs_Flate s)) fw = (None, z)" "fs_BlockSize (cs_Flate s) \<le> 2 ^ 47"
      "- 2 \<le> fs_Level (cs_Flate s)" "fs_Level (cs_Flate s) \<le> 9"
    by (rule newFlateWriter_usable [OF s])
  have "0 < nat (z_blockSize (m_z z))" "z_level (m_z z) = fs_Level (cs_Flate s)"
    using fresh_NewWriter [OF z(2-4)] by (auto simp: fresh_def)
  then show "\<exists>c. package_compressor deflate m s comp_ops u = (Inr (if m = Store then nopCloser_ops comp_ops else flate_ops deflate comp_ops, c), u) \<and>
      package_holds m c [] []"
    using z by (auto simp: package_compressor_def store_compressor_def flate_compressor_def package_holds_def)
next
  fix m c d z s p and u :: "'w zip_out countWriter"
  assume m: "m \<in> {Store, Deflate}" and h: "package_holds m c d z" and ok: "bok (cw_w (cw_w u))"
  show "\<exists>ps c' u'. cp_write (if m = Store then nopCloser_ops comp_ops else flate_ops deflate comp_ops) c u p = (length p, None, c', u') \<and>
      write_all comp_ops u ps = (None, u') \<and> package_holds m c' (d @ p) (z @ concat ps)"
  proof (cases "m = Store")
    case True
    obtain u' where "op_write comp_ops u p = (length p, None, u')" using comp_write [OF ok] by blast
    then show ?thesis using h True by (intro exI [of _ "[p]"]) (simp add: nopCloser_ops_def package_holds_def)
  next
    case False
    then show ?thesis using h by (intro exI [of _ "[]"]) (simp add: flate_ops_def package_holds_def)
  qed
next
  fix m c d z s and u :: "'w zip_out countWriter"
  assume m: "m \<in> {Store, Deflate}" and h: "package_holds m c d z" and ok: "bok (cw_w (cw_w u))"
  show "\<exists>ps c' u'. cp_close (if m = Store then nopCloser_ops comp_ops else flate_ops deflate comp_ops) c u = (None, c', u') \<and>
      write_all comp_ops u ps = (None, u') \<and> package_decodes inflates m (z @ concat ps) d"
  proof (cases "m = Store")
    case True
    then show ?thesis using h by (intro exI [of _ "[]"]) (simp add: nopCloser_ops_def package_holds_def package_decodes_def)
  next
    case False
    let ?bs = "blocks_of (fl_blockSize c) (session_of (fl_pieces c) :: unit pf_call list)"
    have l: "- 2 \<le> fl_level c" "fl_level c \<le> 9" "0 < fl_blockSize c" "z = []" "concat (fl_pieces c) = d" using h False by (auto simp: package_holds_def)
    obtain u' where "write_blocks deflate (fl_level c) comp_ops u ?bs = (None, u')"
        "write_all comp_ops u (map (block_bytes (deflated (fl_level c))) ?bs) = (None, u')"
      using comp_write_blocks [of deflate "fl_level c" "deflated (fl_level c)" u ?bs] flate_codec.total [OF assms l(1,2)] ok by auto
    moreover have "inflates (concat (map (block_bytes (deflated (fl_level c))) ?bs)) d"
      using flate_codec.session_stream [OF assms l(1-3), of "fl_pieces c"] l(5) by simp
    ultimately show ?thesis using False l(4) by (intro exI [of _ "map (block_bytes (deflated (fl_level c))) ?bs"]) (simp add: flate_ops_def package_decodes_def)
  qed
qed

end

section \<open>An archive with stored and deflated files\<close>

text \<open>Readers of two types behind one interface: the state of the one is embedded into a larger type.\<close>

definition embed_ops :: "('a \<Rightarrow> 'c) \<Rightarrow> ('c \<Rightarrow> 'a option) \<Rightarrow> 'a io_reader_ops \<Rightarrow> 'c io_reader_ops" where
  "embed_ops f g ops =
     \<lparr>op_read = (\<lambda>s n. case g s of None \<Rightarrow> ([], Some (Panic ''interface conversion''), s)
        | Some a \<Rightarrow> (case op_read ops a n of (bs, e, a') \<Rightarrow> (bs, e, f a'))), op_seek = None\<rparr>"

definition embed_decompressor :: "('a \<Rightarrow> 'c) \<Rightarrow> ('c \<Rightarrow> 'a option) \<Rightarrow> 'a decompressor \<Rightarrow> 'c decompressor" where
  "embed_decompressor f g dc = (\<lambda>ops pos fl. case dc ops pos fl of (rops, rc) \<Rightarrow> (embed_ops f g rops, f rc))"

lemma embed_decoder:
  assumes "decoder dc decodes" "\<And>a. g (f a) = Some a"
  shows "decoder (embed_decompressor f g dc) decodes"
proof
  fix ra and xs z ys d :: "byte list" and fl rops rc
  assume a: "archive_at ra (xs @ z @ ys)" and d: "decodes z d"
    and e: "embed_decompressor f g dc (section_ops ra (int (length xs + length z))) (int (length xs)) fl = (rops, rc)"
  obtain rops' rc' where r: "dc (section_ops ra (int (length xs + length z))) (int (length xs)) fl = (rops', rc')" by fastforce
  obtain ok left where io: "io_reader rops' ok left (\<lambda>_. {EOF})" "ok rc'" "left rc' = d" using decoder.decode [OF assms(1) a d r] by blast
  have "io_reader (embed_ops f g rops') (\<lambda>s. \<exists>a. s = f a \<and> ok a) (\<lambda>s. left (the (g s))) (\<lambda>_. {EOF})"
  proof (rule io_readerI)
    fix s n bs err s'
    assume "\<exists>a. s = f a \<and> ok a" and rd: "op_read (embed_ops f g rops') s n = (bs, err, s')"
    then obtain a a' where "s = f a" "ok a" "op_read rops' a n = (bs, err, a')" "s' = f a'"
      by (auto simp: embed_ops_def assms(2) split: prod.splits)
    then show "(\<exists>a. s' = f a \<and> ok a) \<and> left (the (g s)) = bs @ left (the (g s')) \<and> length bs \<le> n \<and> {EOF} \<subseteq> {EOF} \<and>
        (err = None \<longrightarrow> 0 < n \<longrightarrow> bs \<noteq> []) \<and> (\<forall>x. err = Some x \<longrightarrow> left (the (g s')) = [] \<and> x \<in> {EOF})"
      using io_reader.read_ok [OF io(1)] io_reader.read_bytes [OF io(1)] io_reader.read_len [OF io(1)] io_reader.read_progress [OF io(1)]
        io_reader.read_end [OF io(1)] by (auto simp: assms(2)) metis+
  qed
  moreover have "rops = embed_ops f g rops'" "rc = f rc'" using e r by (simp_all add: embed_decompressor_def)
  ultimately show "\<exists>ok left. io_reader rops ok left (\<lambda>_. {EOF}) \<and> ok rc \<and> left rc = d" using io(2,3) assms(2) by fastforce
qed

definition package_decompressor :: "'d decompressor \<Rightarrow> 16 word \<Rightarrow> (int + 'd) decompressor" where
  "package_decompressor newFlateReader m =
     (if m = Store then embed_decompressor Inl (\<lambda>s. case s of Inl a \<Rightarrow> Some a | Inr _ \<Rightarrow> None) store_decompressor
      else embed_decompressor Inr (\<lambda>s. case s of Inl _ \<Rightarrow> None | Inr a \<Rightarrow> Some a) newFlateReader)"

lemma package_decoder:
  assumes "decoder newFlateReader inflates" "m \<in> {Store, Deflate}"
  shows "decoder (package_decompressor newFlateReader m) (package_decodes inflates m)"
proof (cases "m = Store")
  case True
  then show ?thesis using embed_decoder [OF store.decoder_axioms, of "\<lambda>s. case s of Inl a \<Rightarrow> Some a | Inr _ \<Rightarrow> None" Inl]
    by (simp add: package_decompressor_def package_decodes_def [abs_def])
next
  case False
  then show ?thesis using embed_decoder [OF assms(1), of "\<lambda>s. case s of Inl _ \<Rightarrow> None | Inr a \<Rightarrow> Some a" Inr]
    by (simp add: package_decompressor_def package_decodes_def [abs_def])
qed

text \<open>The package's registries after \<^verbatim>\<open>init\<close>.\<close>

abbreviation package_compressors :: "pf_deflate \<Rightarrow> 16 word \<Rightarrow> (flate_seq, 'u) compressor_fun option" where
  "package_compressors deflate \<equiv> init_compressors no_pieces (flate_compressor deflate)"

abbreviation package_decompressors :: "'d decompressor \<Rightarrow> (int + 'd) decompressors" where
  "package_decompressors newFlateReader \<equiv> init_decompressors (package_decompressor newFlateReader Store) (package_decompressor newFlateReader Deflate)"

lemma package_registries:
  "\<forall>m \<in> {Store, Deflate}. package_compressors deflate m = Some (package_compressor deflate m) \<and>
     package_decompressors newFlateReader m = Some (package_decompressor newFlateReader m)"
  by (simp add: init_compressors_def init_decompressors_def package_compressor_def Store_def Deflate_def)

text \<open>
  C10. The whole package: files stored or deflated with the compressors that \<^verbatim>\<open>init\<close> registers, deflated ones
  by \<^verbatim>\<open>pflate\<close> in blocks with the default settings, written with \<^verbatim>\<open>CreateHeader\<close>, \<^verbatim>\<open>Write\<close> in
  pieces of any sizes and \<^verbatim>\<open>Close\<close>, are read back by \<^verbatim>\<open>NewReader\<close> and \<^verbatim>\<open>File.Open\<close> with names,
  comments, methods, attributes, sizes, checksums and data. Of the third-party package \<^verbatim>\<open>flate\<close> it is assumed that
  blocks that make one stream are compressed to a stream of the joined data, and that its reader decodes streams.
\<close>

theorem zip_deflate_roundtrip:
  assumes "ok_writer wops ok out" "ok w" "flate_codec deflate deflated inflates" "decoder newFlateReader inflates"
    and "length comment \<le> 65535" "\<forall>(fh, ps) \<in> set files. fh_Method fh \<in> {Store, Deflate} \<and> storable fh"
  shows "\<exists>ms. list_all2 (made_of (package_decodes inflates)) files ms \<and>
    (length (zip_bytes ms comment) < 2 ^ 63 \<longrightarrow>
      (\<exists>w'. write_archive wops (package_compressors deflate) comment files w = (None, w') \<and>
            out (bw_wr (cw_w (zw_cw w'))) = out w @ zip_bytes ms comment)) \<and>
    (\<forall>pre nc ra. readable pre ms comment \<longrightarrow> archive_at ra (pre @ zip_bytes ms comment) \<longrightarrow>
      (\<exists>zr. zip_NewReader nc ra (int (length (pre @ zip_bytes ms comment))) = Inr zr \<and> zr_Comment zr = comment \<and>
        list_all2 (\<lambda>(fh, ps) f. restored fh (concat ps) f \<and>
          (\<exists>r r'. File_Open (package_decompressors newFlateReader) ra zr f = Inr r \<and>
                  ReadAll checksum_ops (Suc (length (concat ps))) r [] = (concat ps, None, r'))) files (zr_File zr)))"
proof -
  note enc = ok_writer.package_encoder [OF assms(1,3)]
  have dec: "\<forall>m \<in> {Store, Deflate}. decoder (package_decompressor newFlateReader m) (package_decodes inflates m)"
    using package_decoder [OF assms(4)] by blast
  from archive_read_back [OF enc dec package_registries assms(2,5,6)] show ?thesis .
qed

text \<open>An archive with one deflated file, the codec being one that stores.\<close>

abbreviation no_codec :: name_codec where
  "no_codec \<equiv> \<lparr>nc_DetectBest = (\<lambda>_. None), nc_CodePage437 = Some, nc_ShiftJIS = Some\<rparr>"

theorem zip_deflate_roundtrip_witness:
  "\<exists>a zr f r r'. (\<exists>w'. write_archive buffer_ops (package_compressors stored) [] (a_files Deflate) [] = (None, w') \<and> bw_wr (cw_w (zw_cw w')) = a) \<and>
     zip_NewReader no_codec (bytes_ReadAt a) (int (length a)) = Inr zr \<and> zr_File zr = [f] \<and> fh_Name (f_header f) = [97] \<and>
     fh_Method (f_header f) = Deflate \<and>
     File_Open (package_decompressors store_decompressor) (bytes_ReadAt a) zr f = Inr r \<and> ReadAll checksum_ops 2 r [] = ([97], None, r')"
proof -
  have st: "\<forall>(fh, ps) \<in> set (a_files Deflate). fh_Method fh \<in> {Store, Deflate} \<and> storable fh" using a_storable [of Deflate] by auto
  from zip_deflate_roundtrip [OF buffer.always.ok_writer_axioms TrueI stored.flate_codec_axioms store.decoder_axioms _ st,
      where w = "[]" and comment = "[]"]
  obtain ms where ms: "list_all2 (made_of (package_decodes (\<lambda>z d. z = d))) (a_files Deflate) ms"
    and wr: "length (zip_bytes ms []) < 2 ^ 63 \<Longrightarrow>
      \<exists>w'. write_archive buffer_ops (package_compressors stored) [] (a_files Deflate) [] = (None, w') \<and> bw_wr (cw_w (zw_cw w')) = [] @ zip_bytes ms []"
    and rt: "\<And>pre nc ra. readable pre ms [] \<Longrightarrow> archive_at ra (pre @ zip_bytes ms []) \<Longrightarrow>
      (\<exists>zr. zip_NewReader nc ra (int (length (pre @ zip_bytes ms []))) = Inr zr \<and> zr_Comment zr = [] \<and>
        list_all2 (\<lambda>(fh, ps) f. restored fh (concat ps) f \<and>
          (\<exists>r r'. File_Open (package_decompressors store_decompressor) ra zr f = Inr r \<and>
                  ReadAll checksum_ops (Suc (length (concat ps))) r [] = (concat ps, None, r'))) (a_files Deflate) (zr_File zr))"
    by auto
  have rd: "readable [] ms []" by (rule a_readable [OF ms]) (simp add: package_decodes_def Store_def Deflate_def)
  let ?a = "zip_bytes ms []"
  have "archive_at (bytes_ReadAt ?a) ([] @ ?a)" using bytes_at.archive_at_axioms [of ?a] by simp
  note rt = rt [OF rd this, of no_codec]
  have "length ?a < 2 ^ 63" using rd by (simp add: readable_def Let_def)
  note wr = wr [OF this]
  obtain w' zr where w': "write_archive buffer_ops (package_compressors stored) [] (a_files Deflate) [] = (None, w')" "bw_wr (cw_w (zw_cw w')) = ?a"
    and zr: "zip_NewReader no_codec (bytes_ReadAt ?a) (int (length ?a)) = Inr zr"
    and fs: "list_all2 (\<lambda>(fh, ps) f. restored fh (concat ps) f \<and>
          (\<exists>r r'. File_Open (package_decompressors store_decompressor) (bytes_ReadAt ?a) zr f = Inr r \<and>
                  ReadAll checksum_ops (Suc (length (concat ps))) r [] = (concat ps, None, r'))) (a_files Deflate) (zr_File zr)"
    using rt wr by auto
  obtain f where f: "zr_File zr = [f]" "restored (new_FileHeader\<lparr>fh_Name := [97], fh_Method := Deflate\<rparr>) [97] f"
      "\<exists>r r'. File_Open (package_decompressors store_decompressor) (bytes_ReadAt ?a) zr f = Inr r \<and> ReadAll checksum_ops 2 r [] = ([97], None, r')"
    using fs by (auto simp: a_files_def list_all2_Cons1 numeral_2_eq_2 simp del: ReadAll.simps)
  show ?thesis using w' zr f by (intro exI [of _ ?a] exI [of _ zr] exI [of _ f]) (auto simp: restored_def)
qed

theorem pflate_refines_sequential_witness:
  "\<exists>m u'. newFlateWriter defaultCompressionSettings [] = Inr (Some m) \<and>
     cp_close (flate_ops stored buffer_ops) \<lparr>fl_level = - 1, fl_blockSize = 262144, fl_pieces = []\<rparr> [] =
       (None, \<lparr>fl_level = - 1, fl_blockSize = 262144, fl_pieces = []\<rparr>, u') \<and>
     inevitable (pf_step buffer_ops stored) (\<lambda>m'. returned m' \<and> m_pc m' = Return 0 None \<and> z_w (m_z m') = u') (goto (enter PClose) m)"
proof -
  have "\<forall>t p cl. stored (fs_Level (cs_Flate defaultCompressionSettings)) t p cl = Inr ((\<lambda>t p cl. p) t p cl)" by simp
  from pflate_refines_sequential [OF buffer.always.ok_writer_axioms TrueI usable_default this, of "[]"]
  obtain m c where m: "newFlateWriter defaultCompressionSettings [] = Inr (Some m)"
      "flate_compressor stored defaultCompressionSettings buffer_ops [] = (Inr (flate_ops stored buffer_ops, c), [])"
    and cl: "\<And>ps m1. pf_session buffer_ops stored m (session_of ps) m1 \<Longrightarrow>
      \<exists>c' u'. cp_close (flate_ops stored buffer_ops) (c\<lparr>fl_pieces := ps\<rparr>) [] = (None, c', u') \<and>
        inevitable (pf_step buffer_ops stored) (\<lambda>m'. returned m' \<and> m_pc m' = Return 0 None \<and> z_w (m_z m') = u') m1"
    by blast
  obtain m2 fw where m2: "newFlateWriter defaultCompressionSettings ([] :: byte list) = Inr (Some m2)"
      "pf_NewWriter [] (fs_Level (cs_Flate defaultCompressionSettings)) = Inr fw"
      "SetConcurrency (fs_BlockSize (cs_Flate defaultCompressionSettings)) (fs_Blocks (cs_Flate defaultCompressionSettings)) fw = (None, m2)"
      "fs_BlockSize (cs_Flate defaultCompressionSettings) \<le> 2 ^ 47" by (rule newFlateWriter_usable [OF usable_default])
  then have f: "fresh (nat 262144) m" "z_level (m_z m) = - 1" using fresh_NewWriter [OF m2(2-4)] m(1) by (simp_all add: defaultCompressionSettings_def)
  have "returned m" using f(1) by (auto simp: fresh_def returned_def)
  from pf_session.invoke [OF pf_session.start this, of buffer_ops stored PClose]
  have "pf_session buffer_ops stored m (session_of []) (goto (enter PClose) m)" by simp
  from cl [OF this] obtain c' u' where c': "cp_close (flate_ops stored buffer_ops) (c\<lparr>fl_pieces := []\<rparr>) [] = (None, c', u')"
      "inevitable (pf_step buffer_ops stored) (\<lambda>m'. returned m' \<and> m_pc m' = Return 0 None \<and> z_w (m_z m') = u') (goto (enter PClose) m)" by blast
  have "c = \<lparr>fl_level = - 1, fl_blockSize = 262144, fl_pieces = []\<rparr>"
    using m f by (simp add: flate_compressor_def fresh_def)
  moreover have "c' = c\<lparr>fl_pieces := []\<rparr>" using c'(1) by (auto simp: flate_ops_def split: prod.splits)
  ultimately show ?thesis using m(1) c' by (intro exI [of _ m] exI [of _ u']) simp
qed

end
