(* ===== verification/Zip_Pool.thy ===== *)
theory Zip_Pool
  imports Zip_Register
begin

text \<open>
  The file \<^verbatim>\<open>zip/register.go\<close>: the pool of decompressors and the readers that share it.
\<close>

section \<open>The pool and its readers\<close>

text \<open>
  What the code uses of the third-party decompressor: \<^verbatim>\<open>flate.NewReader\<close>, \<^verbatim>\<open>Resetter.Reset\<close>,
  \<^verbatim>\<open>Read\<close> and \<^verbatim>\<open>Close\<close>, for sources of type \<open>'s\<close> and decompressors of type \<open>'r\<close>.
\<close>

record ('s, 'r) flate_reader_ops =
  fr_new :: "'s \<Rightarrow> 'r"
  fr_reset :: "'r \<Rightarrow> 's \<Rightarrow> 'r"
  fr_read :: "'r \<Rightarrow> nat \<Rightarrow> byte list \<times> go_error option \<times> 'r"
  fr_close :: "'r \<Rightarrow> go_error option \<times> 'r"

text \<open>
  Decompressors are objects: they live in a store, the pool holds addresses, and the field \<^verbatim>\<open>fr\<close> of each
  \<^verbatim>\<open>pooledFlateReader\<close> is an address or nil. The mutex of a reader makes its methods atomic.
\<close>

record 'r flateReaderPool =
  fp_heap :: "'r list"
  fp_pool :: "nat list"
  fp_readers :: "nat option list"

definition empty_pool :: "'r flateReaderPool" where
  "empty_pool = \<lparr>fp_heap = [], fp_pool = [], fp_readers = []\<rparr>"

text \<open>\<^verbatim>\<open>sync.Pool.Get\<close> may return any element of the pool, or nothing: \<open>i\<close> says which.\<close>

definition newFlateReader :: "('s, 'r) flate_reader_ops \<Rightarrow> nat \<Rightarrow> 's \<Rightarrow> 'r flateReaderPool \<Rightarrow> 'r flateReaderPool" where
  "newFlateReader ops i src st =
     (if i < length (fp_pool st) then
        let a = fp_pool st ! i
        in st\<lparr>fp_pool := take i (fp_pool st) @ drop (Suc i) (fp_pool st),
              fp_heap := (fp_heap st)[a := fr_reset ops (fp_heap st ! a) src],
              fp_readers := fp_readers st @ [Some a]\<rparr>
      else
        st\<lparr>fp_heap := fp_heap st @ [fr_new ops src], fp_readers := fp_readers st @ [Some (length (fp_heap st))]\<rparr>)"

definition pooledFlateReader_Read :: "('s, 'r) flate_reader_ops \<Rightarrow> nat \<Rightarrow> nat \<Rightarrow> 'r flateReaderPool
    \<Rightarrow> (byte list \<times> go_error option) \<times> 'r flateReaderPool" where
  "pooledFlateReader_Read ops k n st =
     (case fp_readers st ! k of
        None \<Rightarrow> (([], Some (ErrMsg ''Read after Close'')), st)
      | Some a \<Rightarrow> (case fr_read ops (fp_heap st ! a) n of (bs, e, r) \<Rightarrow> ((bs, e), st\<lparr>fp_heap := (fp_heap st)[a := r]\<rparr>)))"

definition pooledFlateReader_Close :: "('s, 'r) flate_reader_ops \<Rightarrow> nat \<Rightarrow> 'r flateReaderPool \<Rightarrow> go_error option \<times> 'r flateReaderPool" where
  "pooledFlateReader_Close ops k st =
     (case fp_readers st ! k of
        None \<Rightarrow> (None, st)
      | Some a \<Rightarrow>
          (case fr_close ops (fp_heap st ! a) of
             (e, r) \<Rightarrow> (e, st\<lparr>fp_heap := (fp_heap st)[a := r], fp_pool := fp_pool st @ [a], fp_readers := (fp_readers st)[k := None]\<rparr>)))"

section \<open>Ownership\<close>

text \<open>
  Uses of the pool by any number of files, interleaved: opening a file, reading and closing (also again), and the
  removal of elements by the run-time.
\<close>

datatype 's pool_op = PoolOpen nat 's | PoolRead nat nat | PoolClose nat | PoolCollect nat

datatype pool_result = Was_opened | Was_read "byte list" "go_error option" | Was_closed "go_error option" | No_reader | Was_collected

fun pool_do :: "('s, 'r) flate_reader_ops \<Rightarrow> 's pool_op \<Rightarrow> 'r flateReaderPool \<Rightarrow> pool_result \<times> 'r flateReaderPool" where
  "pool_do ops (PoolOpen i src) st = (Was_opened, newFlateReader ops i src st)"
| "pool_do ops (PoolRead k n) st =
     (if k < length (fp_readers st) then case pooledFlateReader_Read ops k n st of ((bs, e), st') \<Rightarrow> (Was_read bs e, st') else (No_reader, st))"
| "pool_do ops (PoolClose k) st =
     (if k < length (fp_readers st) then case pooledFlateReader_Close ops k st of (e, st') \<Rightarrow> (Was_closed e, st') else (No_reader, st))"
| "pool_do ops (PoolCollect i) st = (Was_collected, st\<lparr>fp_pool := take i (fp_pool st) @ drop (Suc i) (fp_pool st)\<rparr>)"

fun pool_run :: "('s, 'r) flate_reader_ops \<Rightarrow> 's pool_op list \<Rightarrow> 'r flateReaderPool \<Rightarrow> pool_result list \<times> 'r flateReaderPool" where
  "pool_run ops [] st = ([], st)"
| "pool_run ops (x # xs) st = (case pool_do ops x st of (y, st') \<Rightarrow> case pool_run ops xs st' of (ys, st'') \<Rightarrow> (y # ys, st''))"

text \<open>The addresses in use: those of open readers and those in the pool.\<close>

definition open_addrs :: "nat option list \<Rightarrow> nat list" where
  "open_addrs rs = List.map_filter (\<lambda>x. x) rs"

definition pool_ok :: "'r flateReaderPool \<Rightarrow> bool" where
  "pool_ok st \<longleftrightarrow> distinct (fp_pool st @ open_addrs (fp_readers st)) \<and> (\<forall>a \<in> set (fp_pool st @ open_addrs (fp_readers st)). a < length (fp_heap st))"

lemma open_addrs_simps [simp]: "open_addrs [] = []" "open_addrs (None # rs) = open_addrs rs" "open_addrs (Some a # rs) = a # open_addrs rs"
  "open_addrs (rs @ rs') = open_addrs rs @ open_addrs rs'"
  by (simp_all add: open_addrs_def List.map_filter_def)

lemma open_split:
  assumes "k < length rs" "rs ! k = Some a"
  shows "\<exists>xs ys. rs = xs @ Some a # ys \<and> length xs = k \<and> rs[k := None] = xs @ None # ys"
  using assms id_take_nth_drop [of k rs] upd_conv_take_nth_drop [of k rs None] by (intro exI [of _ "take k rs"] exI [of _ "drop (Suc k) rs"]) simp

lemma take_drop_pool:
  assumes "i < length xs"
  shows "\<exists>us vs. xs = us @ xs ! i # vs \<and> take i xs @ drop (Suc i) xs = us @ vs"
  using assms by (intro exI [of _ "take i xs"] exI [of _ "drop (Suc i) xs"]) (simp add: id_take_nth_drop [symmetric])

text \<open>The specification: every reader has a decompressor of its own, nothing is shared.\<close>

fun private_do :: "('s, 'r) flate_reader_ops \<Rightarrow> 's pool_op \<Rightarrow> 'r option list \<Rightarrow> pool_result \<times> 'r option list" where
  "private_do ops (PoolOpen i src) rs = (Was_opened, rs @ [Some (fr_new ops src)])"
| "private_do ops (PoolRead k n) rs =
     (if k < length rs then
        case rs ! k of
          None \<Rightarrow> (Was_read [] (Some (ErrMsg ''Read after Close'')), rs)
        | Some r \<Rightarrow> (case fr_read ops r n of (bs, e, r') \<Rightarrow> (Was_read bs e, rs[k := Some r']))
      else (No_reader, rs))"
| "private_do ops (PoolClose k) rs =
     (if k < length rs then
        case rs ! k of
          None \<Rightarrow> (Was_closed None, rs)
        | Some r \<Rightarrow> (Was_closed (fst (fr_close ops r)), rs[k := None])
      else (No_reader, rs))"
| "private_do ops (PoolCollect i) rs = (Was_collected, rs)"

fun private_run :: "('s, 'r) flate_reader_ops \<Rightarrow> 's pool_op list \<Rightarrow> 'r option list \<Rightarrow> pool_result list \<times> 'r option list" where
  "private_run ops [] rs = ([], rs)"
| "private_run ops (x # xs) rs = (case private_do ops x rs of (y, rs') \<Rightarrow> case private_run ops xs rs' of (ys, rs'') \<Rightarrow> (y # ys, rs''))"

definition private_of :: "'r flateReaderPool \<Rightarrow> 'r option list" where
  "private_of st = map (map_option (\<lambda>a. fp_heap st ! a)) (fp_readers st)"

lemma set_open_addrs: "set (open_addrs rs) = {a. Some a \<in> set rs}"
proof (induction rs)
  case (Cons x rs)
  then show ?case by (cases x) auto
qed simp

lemma map_heap_cong: "(\<And>b. b \<in> set (open_addrs rs) \<Longrightarrow> f b = g b) \<Longrightarrow> map (map_option f) rs = map (map_option g) rs"
  by (auto simp: set_open_addrs intro!: option.map_cong)

lemma map_heap_other:
  "a \<notin> set (open_addrs rs) \<Longrightarrow> map (map_option (\<lambda>b. h[a := r] ! b)) rs = map (map_option (\<lambda>b. h ! b)) rs"
  by (rule map_heap_cong) (metis nth_list_update_neq)

lemma pool_ok_subset: "pool_ok st \<Longrightarrow> distinct p \<Longrightarrow> set p \<subseteq> set (fp_pool st) \<Longrightarrow> pool_ok (st\<lparr>fp_pool := p\<rparr>)"
  by (auto simp: pool_ok_def)

text \<open>One operation: the pool stays well-formed, and a reader sees its own decompressor only.\<close>

lemma pool_do_private:
  assumes ok: "pool_ok st" and reset: "\<forall>r src. fr_reset ops r src = fr_new ops src" and d: "pool_do ops x st = (y, st')"
  shows "pool_ok st' \<and> private_do ops x (private_of st) = (y, private_of st')"
proof (cases x)
  case (PoolOpen i src)
  show ?thesis
  proof (cases "i < length (fp_pool st)")
    case True
    define a where "a = fp_pool st ! i"
    obtain us vs where uv: "fp_pool st = us @ a # vs" "take i (fp_pool st) @ drop (Suc i) (fp_pool st) = us @ vs"
      using take_drop_pool [OF True] a_def by blast
    have st': "st' = st\<lparr>fp_pool := us @ vs, fp_heap := (fp_heap st)[a := fr_new ops src], fp_readers := fp_readers st @ [Some a]\<rparr>" and y: "y = Was_opened"
      using d True reset by (auto simp: PoolOpen newFlateReader_def Let_def a_def [symmetric] uv(2))
    have a: "a \<notin> set (open_addrs (fp_readers st))" "a < length (fp_heap st)" using ok by (auto simp: pool_ok_def uv(1))
    then have "private_of st' = private_of st @ [Some (fr_new ops src)]" by (simp add: private_of_def st' map_heap_other)
    then show ?thesis using ok by (auto simp: PoolOpen st' y pool_ok_def uv(1))
  next
    case False
    then have st': "st' = st\<lparr>fp_heap := fp_heap st @ [fr_new ops src], fp_readers := fp_readers st @ [Some (length (fp_heap st))]\<rparr>" and y: "y = Was_opened"
      using d by (auto simp: PoolOpen newFlateReader_def)
    have "map (map_option (\<lambda>b. (fp_heap st @ [fr_new ops src]) ! b)) (fp_readers st) = private_of st"
      unfolding private_of_def by (rule map_heap_cong) (use ok in \<open>auto simp: pool_ok_def nth_append\<close>)
    then have "private_of st' = private_of st @ [Some (fr_new ops src)]" by (simp add: private_of_def st')
    then show ?thesis using ok by (auto simp: PoolOpen st' y pool_ok_def less_Suc_eq)
  qed
next
  case (PoolRead k n)
  show ?thesis
  proof (cases "k < length (fp_readers st) \<and> fp_readers st ! k \<noteq> None")
    case True
    then obtain a where a: "fp_readers st ! k = Some a" "k < length (fp_readers st)" by auto
    obtain xs ys where s: "fp_readers st = xs @ Some a # ys" "length xs = k" using open_split [OF a(2,1)] by blast
    obtain bs e r where r: "fr_read ops (fp_heap st ! a) n = (bs, e, r)" by (cases "fr_read ops (fp_heap st ! a) n")
    have st': "st' = st\<lparr>fp_heap := (fp_heap st)[a := r]\<rparr>" and y: "y = Was_read bs e"
      using d a r by (auto simp: PoolRead pooledFlateReader_Read_def)
    have "a \<notin> set (open_addrs xs)" "a \<notin> set (open_addrs ys)" "a < length (fp_heap st)" using ok by (auto simp: pool_ok_def s)
    then have "private_of st' = (private_of st)[k := Some r]"
      by (simp add: private_of_def st' s(1) map_heap_other s(2) [symmetric] list_update_append)
    then show ?thesis using ok a r by (simp add: PoolRead st' y pool_ok_def private_of_def)
  qed (use d ok in \<open>auto simp: PoolRead pooledFlateReader_Read_def private_of_def split: if_splits\<close>)
next
  case (PoolClose k)
  show ?thesis
  proof (cases "k < length (fp_readers st) \<and> fp_readers st ! k \<noteq> None")
    case True
    then obtain a where a: "fp_readers st ! k = Some a" "k < length (fp_readers st)" by auto
    obtain xs ys where s: "fp_readers st = xs @ Some a # ys" "length xs = k" "(fp_readers st)[k := None] = xs @ None # ys"
      using open_split [OF a(2,1)] by blast
    obtain e r where r: "fr_close ops (fp_heap st ! a) = (e, r)" by (cases "fr_close ops (fp_heap st ! a)")
    have st': "st' = st\<lparr>fp_heap := (fp_heap st)[a := r], fp_pool := fp_pool st @ [a], fp_readers := xs @ None # ys\<rparr>" and y: "y = Was_closed e"
      using d a r s(3) by (auto simp: PoolClose pooledFlateReader_Close_def)
    have "a \<notin> set (open_addrs xs)" "a \<notin> set (open_addrs ys)" "a < length (fp_heap st)" using ok by (auto simp: pool_ok_def s)
    then have "private_of st' = (private_of st)[k := None]"
      by (simp add: private_of_def st' s(1) map_heap_other s(2) [symmetric] list_update_append)
    moreover have "pool_ok st'" using ok by (auto simp: pool_ok_def st' s(1))
    ultimately show ?thesis using a r by (simp add: PoolClose y private_of_def)
  qed (use d ok in \<open>auto simp: PoolClose pooledFlateReader_Close_def private_of_def split: if_splits\<close>)
next
  case (PoolCollect i)
  let ?p = "take i (fp_pool st) @ drop (Suc i) (fp_pool st)"
  have sub: "set ?p \<subseteq> set (fp_pool st)" using set_take_subset set_drop_subset by force
  have "distinct ?p" using ok set_take_disj_set_drop_if_distinct [of "fp_pool st" i "Suc i"] by (simp add: pool_ok_def)
  then have "pool_ok (st\<lparr>fp_pool := ?p\<rparr>)" using ok sub by (intro pool_ok_subset)
  then show ?thesis using d by (auto simp: PoolCollect private_of_def)
qed

lemma pool_run_private:
  assumes "pool_ok st" "\<forall>r src. fr_reset ops r src = fr_new ops src" "pool_run ops xs st = (ys, st')"
  shows "pool_ok st' \<and> private_run ops xs (private_of st) = (ys, private_of st')"
  using assms(1,3)
proof (induction xs arbitrary: st ys)
  case (Cons x xs)
  obtain y st1 where 1: "pool_do ops x st = (y, st1)" by (cases "pool_do ops x st")
  obtain zs where 2: "pool_run ops xs st1 = (zs, st')" "ys = y # zs" using Cons.prems(2) 1 by (auto split: prod.splits)
  show ?case using pool_do_private [OF Cons.prems(1) assms(2) 1] Cons.IH [OF _ 2(1)] 2(2) by (auto split: prod.splits)
qed simp

text \<open>
  C13. Sharing decompressors through the pool is invisible: whatever the interleaving of opening, reading and
  closing of any number of files, closing twice and reading after closing included, whatever the pool returns or
  drops, every call gives the result it gives when each file has a decompressor of its own. At no moment do two open
  readers have the same decompressor, and none is in the pool while it is in use, or there twice. What is relied on
  is that \<^verbatim>\<open>Reset\<close> makes a decompressor equal to a new one.
\<close>

theorem pool_transparent:
  assumes "\<forall>r src. fr_reset ops r src = fr_new ops src" "pool_run ops xs empty_pool = (ys, st)"
  shows "private_run ops xs [] = (ys, private_of st) \<and> distinct (fp_pool st @ open_addrs (fp_readers st))"
proof -
  have e: "pool_ok empty_pool" "private_of empty_pool = []" by (simp_all add: pool_ok_def empty_pool_def private_of_def)
  from pool_run_private [OF e(1) assms] show ?thesis unfolding e(2) pool_ok_def by blast
qed

definition byte_readers :: "(byte list, byte list) flate_reader_ops" where
  "byte_readers = \<lparr>fr_new = (\<lambda>s. s), fr_reset = (\<lambda>r s. s), fr_read = (\<lambda>r n. (take n r, if drop n r = [] then Some EOF else None, drop n r)),
     fr_close = (\<lambda>r. (None, r))\<rparr>"

theorem pool_transparent_witness:
  "let xs = [PoolOpen 0 [1, 2, 3], PoolRead 0 1, PoolClose 0, PoolClose 0, PoolOpen 0 [4, 5], PoolOpen 0 [6], PoolRead 0 9, PoolRead 1 9, PoolRead 2 9]
   in fst (private_run byte_readers xs []) = fst (pool_run byte_readers xs empty_pool) \<and>
      fst (pool_run byte_readers xs empty_pool) =
        [Was_opened, Was_read [1] None, Was_closed None, Was_closed None, Was_opened, Was_opened,
         Was_read [] (Some (ErrMsg ''Read after Close'')), Was_read [4, 5] (Some EOF), Was_read [6] (Some EOF)]"
proof -
  define xs :: "byte list pool_op list" where
    "xs = [PoolOpen 0 [1, 2, 3], PoolRead 0 1, PoolClose 0, PoolClose 0, PoolOpen 0 [4, 5], PoolOpen 0 [6], PoolRead 0 9, PoolRead 1 9, PoolRead 2 9]"
  obtain ys st where run: "pool_run byte_readers xs empty_pool = (ys, st)" by fastforce
  have "\<forall>r src. fr_reset byte_readers r src = fr_new byte_readers src" by (simp add: byte_readers_def)
  from pool_transparent [OF this run] have "fst (private_run byte_readers xs []) = ys" by simp
  moreover have "fst (pool_run byte_readers xs empty_pool) =
        [Was_opened, Was_read [1] None, Was_closed None, Was_closed None, Was_opened, Was_opened,
         Was_read [] (Some (ErrMsg ''Read after Close'')), Was_read [4, 5] (Some EOF), Was_read [6] (Some EOF)]"
    by (simp add: xs_def byte_readers_def empty_pool_def newFlateReader_def pooledFlateReader_Read_def pooledFlateReader_Close_def)
  ultimately show ?thesis using run unfolding xs_def Let_def by simp
qed

end
