(* ===== verification/Spec2Isabelle.thy ===== *)
theory Spec2Isabelle
  imports Tar_Roundtrip Tar_Checkpoint Zip_Entry Zip_Deflate Zip_Pool
begin

text \<open>
  A verification of the Go module \<^verbatim>\<open>arkive\<close>, which reads and writes tar and zip
  archives. The package \<^verbatim>\<open>tar\<close> is a variant of Go's \<^verbatim>\<open>archive/tar\<close> with
  checkpoints: \<^verbatim>\<open>tar.Writer\<close> lays headers and data out in blocks of 512 bytes,
  \<^verbatim>\<open>tar.Reader\<close> walks over the blocks, \<^verbatim>\<open>SaverReader\<close> stores and restores
  the state of a \<^verbatim>\<open>Reader\<close>. The package \<^verbatim>\<open>zip\<close> is a variant of Go's \<^verbatim>\<open>archive/zip\<close>: \<^verbatim>\<open>zip.Writer\<close> lays
  out local headers, data, data descriptors and the directory, \<^verbatim>\<open>zip.Reader\<close> finds the directory and opens the
  files. It compresses with the package \<^verbatim>\<open>pflate\<close>, which splits data into blocks and compresses them in parallel.

  \<^bold>\<open>The library.\<close>
  \<^item> \<open>Go_Prelude\<close>: bytes, 64-bit wrap-around (\<open>i64\<close>), errors (\<open>go_error\<close>, with
    \<open>Panic\<close> for a run-time panic and \<open>NoProgress\<close> for a loop that ran out of fuel), slices.
  \<^item> \<open>Go_Strconv\<close>, \<open>Go_Utf8\<close>, \<open>Go_Time\<close>, \<open>Go_Path\<close>: what the sources use of
    \<^verbatim>\<open>strconv\<close>, \<^verbatim>\<open>unicode/utf8\<close>, \<^verbatim>\<open>time\<close>, \<^verbatim>\<open>path\<close> and
    \<^verbatim>\<open>strings\<close>.
  \<^item> \<open>Go_IO\<close>: \<^verbatim>\<open>io.Reader\<close>, \<^verbatim>\<open>io.Seeker\<close> and \<^verbatim>\<open>io.Writer\<close> as tables of
    operations, the library loops over them (\<^verbatim>\<open>io.ReadFull\<close>, \<^verbatim>\<open>ioutil.ReadAll\<close>,
    \<^verbatim>\<open>io.CopyN\<close>), and their contracts as the locales \<open>io_reader\<close>, \<open>io_seeker\<close>,
    \<open>io_writer\<close> and \<open>reliable_writer\<close>, interpreted on \<^verbatim>\<open>bytes.Reader\<close> and
    \<^verbatim>\<open>bytes.Buffer\<close>. \<open>Go_Bufio\<close>: \<^verbatim>\<open>bufio.Writer\<close>, and the locale \<open>ok_writer\<close> of writers that do not
    fail, a \<open>sublocale\<close> of \<open>reliable_writer\<close>.

  \<^bold>\<open>Package tar.\<close>
  \<^item> \<open>Tar_Strconv\<close> (\<^verbatim>\<open>tar/strconv.go\<close>): strings, octal and base-256 numbers, PAX times and
    records. Formatting and parsing are inverse; a record that is accepted is well-formed.
  \<^item> \<open>Tar_Format\<close> (\<^verbatim>\<open>tar/format.go\<close>): the fields of a block, checksums,
    \<^verbatim>\<open>GetFormat\<close> after \<^verbatim>\<open>SetFormat\<close>.
  \<^item> \<open>Tar_Common\<close> (\<^verbatim>\<open>tar/common.go\<close>, \<^verbatim>\<open>tar/stat_unix.go\<close>): \<^verbatim>\<open>Header\<close>,
    its \<^verbatim>\<open>os.FileInfo\<close> view, \<^verbatim>\<open>FileInfoHeader\<close>.
  \<^item> \<open>Tar_Sparse\<close> (\<^verbatim>\<open>tar/reader.go\<close>): \<^verbatim>\<open>regFileReader\<close> and
    \<^verbatim>\<open>sparseFileReader\<close>. An accepted sparse map is ordered and within the file, and reading a
    sparse file yields the expansion of its data. Both readers keep the contract \<open>io_reader\<close>.
  \<^item> \<open>Tar_Pax\<close> (\<^verbatim>\<open>tar/reader.go\<close>): extended headers, their effect on a header, sparse
    maps of formats 0.1 and 1.0.
  \<^item> \<open>Tar_Reader\<close> (\<^verbatim>\<open>tar/reader.go\<close>): the state of \<^verbatim>\<open>Reader\<close>, \<^verbatim>\<open>Next\<close>,
    \<^verbatim>\<open>Read\<close> and all they call. Errors are sticky; what follows an entry is found whatever
    part of it was read.
  \<^item> \<open>Tar_Writer\<close> (\<^verbatim>\<open>tar/writer.go\<close>): \<^verbatim>\<open>WriteHeader\<close>, \<^verbatim>\<open>Write\<close>,
    \<^verbatim>\<open>Flush\<close>, \<^verbatim>\<open>Close\<close>.
  \<^item> \<open>Tar_Roundtrip\<close>: a sequence of entries written by \<^verbatim>\<open>Writer\<close> is read back by
    \<^verbatim>\<open>Reader\<close>, headers and data, from any conforming reader; archives are made of whole
    blocks.
  \<^item> \<open>Tar_Refine\<close>, \<open>Tar_Total\<close>: a simulation between \<^verbatim>\<open>Reader\<close> over any reader and
    \<^verbatim>\<open>Reader\<close> over a byte stream. Over every conforming reader (locale \<open>io_seeker\<close>, with
    \<^verbatim>\<open>Seek\<close> or without) \<^verbatim>\<open>Next\<close> returns on every input; over those without \<^verbatim>\<open>Seek\<close>
    (locale \<open>seekless_reader\<close>) it depends on the bytes only and keeps the type invariant of the state.
  \<^item> \<open>Tar_Checkpoint\<close> (\<^verbatim>\<open>tar/reader.go\<close>): \<^verbatim>\<open>countingReader\<close>,
    \<^verbatim>\<open>SaverReader\<close>, \<^verbatim>\<open>Save\<close>, \<^verbatim>\<open>Resume\<close>. Checkpoints hold the position
    of the archive and resuming from them is transparent.

  \<^bold>\<open>Package zip.\<close>
  \<^item> \<open>Go_Calendar\<close>, \<open>Go_Os\<close>, \<open>Go_Crc32\<close>: calendar dates and locations of
    \<^verbatim>\<open>time\<close>, file modes of \<^verbatim>\<open>os\<close>, \<^verbatim>\<open>hash/crc32\<close>.
  \<^item> \<open>Zip_Buf\<close>: \<^verbatim>\<open>readBuf\<close> and \<^verbatim>\<open>writeBuf\<close> in the option monad, \<open>None\<close> being
    an index out of range.
  \<^item> \<open>Zip_Struct\<close> (\<^verbatim>\<open>zip/struct.go\<close>): \<^verbatim>\<open>FileHeader\<close>, MS-DOS times, modes. Times
    and modes survive the conversion to the header fields and back.
  \<^item> \<open>Zip_Reader\<close> (\<^verbatim>\<open>zip/reader.go\<close>, \<^verbatim>\<open>zip/normalize_name_encoding.go\<close>): the end
    of the directory, the directory entries with their extra fields, \<^verbatim>\<open>NewReader\<close>,
    \<^verbatim>\<open>File.Open\<close>. The archive is an \<^verbatim>\<open>io.ReaderAt\<close> (locale \<open>archive_at\<close>,
    interpreted on \<^verbatim>\<open>bytes.Reader\<close>); opening returns on every input.
  \<^item> \<open>Zip_Checksum\<close>: the end of a file is reported only for checked contents; a sound file is
    delivered as it is (locale \<open>sound_file\<close>).
  \<^item> \<open>Zip_Register\<close> (\<^verbatim>\<open>zip/register.go\<close>): settings, their validation, the registries of compressors and
    decompressors. \<open>Zip_Pool\<close> (same file): the pool of decompressors; sharing them is invisible to the readers.
  \<^item> \<open>Zip_Writer\<close> (\<^verbatim>\<open>zip/writer.go\<close>): the state and all methods of \<^verbatim>\<open>Writer\<close>, and the writer of a file.
  \<^item> \<open>Zip_Layout\<close>, \<open>Zip_Directory\<close>, \<open>Zip_Open\<close>: the records of an archive as lists of bytes, and that the
    reader reads them back: a directory entry, the directory and its end with and without zip64, a file with its
    local header and data descriptor. Decompressors keep the contract \<open>decoder\<close>.
  \<^item> \<open>Zip_Produce\<close>, \<open>Zip_Roundtrip\<close>, \<open>Zip_Entry\<close>: compressors keep the contract \<open>encoder\<close>; an invariant of
    \<^verbatim>\<open>Writer\<close> gives the bytes it has written; what was written is read back, with data, attributes and times.
  \<^item> \<open>Zip_Deflate\<close>: \<^verbatim>\<open>newFlateWriter\<close>, the compressor of the method \<^verbatim>\<open>Deflate\<close>. Settings are honoured;
    the concurrent \<^verbatim>\<open>pflate.Writer\<close> refines a sequential compressor, which is an \<open>encoder\<close>; archives of stored
    and deflated files are read back.

  \<^bold>\<open>Package pflate.\<close>
  \<^item> \<open>Pflate\<close> (\<^verbatim>\<open>pflate/pflate.go\<close>): a transition system with a step function for each goroutine: the caller
    (\<open>Write_step\<close>, \<open>Flush_step\<close>, \<open>Close_step\<close>, \<open>Reset_step\<close>, and the \<^verbatim>\<open>select\<close> of
    \<^verbatim>\<open>compressCurrent\<close>), one for each block (\<open>compressBlock_step\<close>), and the one that writes
    (\<open>listener_step\<close>). \<open>pf_step\<close> is a step of any of them, \<open>pf_session\<close> what a sequence of calls can reach.
  \<^item> \<open>Pflate_Spec\<close>: how data is split into blocks, with no goroutines. \<open>Pflate_Inv\<close>: the invariant of a running
    \<^verbatim>\<open>Writer\<close>, kept by every step (locale \<open>pf_run\<close>). \<open>Pflate_Live\<close>: some goroutine can always go on and
    each step makes the rest of the work smaller, so every call returns.
  \<^item> \<open>Pflate_Run\<close>: for a \<^verbatim>\<open>Writer\<close> from \<^verbatim>\<open>NewWriter\<close>, calls return and the output is the compressed blocks in
    order; \<^verbatim>\<open>Close\<close> can block forever when the writer below fails; \<^verbatim>\<open>Reset\<close> does not discard data.

  \<^bold>\<open>State, aliasing and errors.\<close> A pointer that two Go objects share (the archive reader of
  \<^verbatim>\<open>tar.Reader\<close> and its file readers, the counting reader of a saver) is one component of the
  model's state, passed to and returned from every call. A Go map is an association list with
  distinct keys. Objects that are shared in other ways have addresses in a store: the file headers of
  \<^verbatim>\<open>zip.Writer\<close> (\<open>zw_heap\<close>), pooled decompressors (\<open>fp_heap\<close>), channels and results of
  \<^verbatim>\<open>pflate.Writer\<close>. A mutex that is held for a whole method makes the method one step. Functions that return an error return a value of the sum type \<open>result\<close>; index and
  slice bounds that the code can violate give \<open>Panic\<close>.

  \<^bold>\<open>Fuel.\<close> The loops of \<^verbatim>\<open>Next\<close> and of the functions it calls (\<open>Reader_next\<close>,
  \<open>old_sparse_loop\<close>, \<open>feedTokens\<close>, \<open>ReadAll\<close>) are bounded by fuel. Each round takes at least one
  byte of the archive, so more fuel than there are bytes left is enough; \<open>Tar_Total\<close> proves it.
  The library loops \<open>ReadFull\<close> and \<open>CopyN\<close> take the number of bytes wanted plus one. The loop over the zip
  directory takes the length of the archive plus one, since every entry has at least 46 bytes. The loop of
  \<^verbatim>\<open>bufio.Writer.Write\<close> needs two rounds: after the first the buffer is empty or the data is passed on. The steps
  of \<^verbatim>\<open>pflate\<close> have no fuel.

  \<^bold>\<open>Not modelled.\<close> \<^verbatim>\<open>tar/stat_atimespec.go\<close>, which is \<^verbatim>\<open>tar/stat_atim.go\<close> with the field names of other
  platforms; \<^verbatim>\<open>zip.OpenReader\<close> and \<^verbatim>\<open>ReadCloser.Close\<close>, which open and close a file of the operating system;
  \<^verbatim>\<open>testHookCloseSizeOffset\<close>, a hook for tests; the scratch memory in the pools of \<^verbatim>\<open>pflate\<close>, whose buffers are
  values here. Third-party code is a parameter: the detectors and decoders of character encodings
  (\<open>name_codec\<close>); the package \<^verbatim>\<open>flate\<close>, by what it makes of a block (\<open>deflate\<close>, with the locale
  \<open>flate_codec\<close> for what the archive relies on) and by its reader (\<open>decoder\<close>, \<open>flate_reader_ops\<close>).
\<close>



end
